(* ===== verification/Prelude.thy ===== *)
theory Prelude
  imports Main "HOL-Library.Word" "HOL-Library.Monad_Syntax"
begin

text \<open>
  Shared vocabulary of the IgnisOS development: the C integer types as words, the collections
  of simplification rules that the component theories extend, circular address ranges, and
  the arithmetic of loop counters and of aligned addresses.

  Every operation of the kernel that may fail to return to its caller (a loop that never ends,
  or \<open>kpanic\<close>, which stops the processor) is modelled with result type \<open>option\<close>: \<open>None\<close>
  means that control never comes back.
\<close>

unbundle bit_operations_syntax

section \<open>C integer types\<close>

type_synonym u8 = "8 word"
type_synonym u16 = "16 word"
type_synonym u32 = "32 word"
type_synonym u64 = "64 word"

text \<open>\<open>size_t\<close>, \<open>uintptr_t\<close> and every pointer are 64 bits wide on x86-64
  (\<open>sys/include/lib/types.h\<close>).\<close>

named_theorems closed_form \<open>closed forms of the kernel's loops\<close>
named_theorems frame_rules \<open>what an operation leaves unchanged\<close>

section \<open>Words as numbers\<close>

lemma unat_less_64 [simp]: "unat (w :: u64) < 18446744073709551616"
  using unsigned_less [of w] by simp

lemma unat_less_32 [simp]: "unat (w :: u32) < 4294967296"
  using unsigned_less [of w] by simp

lemma unat_less_8 [simp]: "unat (w :: u8) < 256"
  using unsigned_less [of w] by simp

lemma of_nat_inj_64:
  assumes "of_nat i = (of_nat j :: u64)" "i < 18446744073709551616" "j < 18446744073709551616"
  shows "i = j"
  using arg_cong [OF assms(1), of unat] assms(2,3) by (simp add: unat_of_nat)

text \<open>A loop \<open>for (i = ..; i < n; ++i)\<close> over machine words ends: the distance to the
  bound shrinks.\<close>

lemma less_imp_Suc_nonzero:
  fixes i n :: "'a::len word"
  assumes "i < n"
  shows "i + 1 \<noteq> 0"
  using assms by (metis add.commute neg_eq_iff_add_eq_0 word_order.extremum_strict)

lemma unat_Suc_less:
  fixes i n :: "'a::len word"
  assumes "i < n"
  shows "unat (i + 1) = Suc (unat i)"
  using less_imp_Suc_nonzero [OF assms] by (metis add.commute unatSuc)

lemma loop_measure:
  fixes i n :: "'a::len word"
  assumes "i < n"
  shows "unat (n - (i + 1)) < unat (n - i)"
proof -
  have "unat i < unat n" using assms by (simp add: word_less_nat_alt)
  moreover have "unat (n - i) = unat n - unat i" using assms by (simp add: unat_sub less_imp_le)
  moreover have "i + 1 \<le> n"
    using unat_Suc_less [OF assms] \<open>unat i < unat n\<close> by (simp add: word_le_nat_alt)
  then have "unat (n - (i + 1)) = unat n - unat (i + 1)" by (simp add: unat_sub)
  ultimately show ?thesis using unat_Suc_less [OF assms] by simp
qed

section \<open>Widening conversions\<close>

lemma unat_ucast_up:
  assumes "LENGTH('a::len) \<le> LENGTH('b::len)"
  shows "unat (ucast (w :: 'a word) :: 'b word) = unat w"
proof -
  have "unat w < 2 ^ LENGTH('a)" by simp
  also have "\<dots> \<le> (2 ^ LENGTH('b) :: nat)" using assms by (rule power_increasing) simp
  finally show ?thesis by (simp add: unsigned_ucast_eq take_bit_nat_eq_self)
qed

lemma unat_ucast_simps [simp]:
  "unat (ucast (b :: u8) :: u16) = unat b"
  "unat (ucast (b :: u8) :: u32) = unat b"
  "unat (ucast (b :: u8) :: u64) = unat b"
  "unat (ucast (h :: u16) :: u32) = unat h"
  "unat (ucast (h :: u16) :: u64) = unat h"
  "unat (ucast (w :: u32) :: u64) = unat w"
  by (simp_all add: unat_ucast_up)

lemma ucast_up_Suc:
  assumes "i < (n :: u8)"
  shows "(ucast (i + 1) :: u64) = ucast i + 1"
  using unat_Suc_less [OF assms]
  by (metis add.commute of_nat_Suc of_nat_unat unat_ucast_simps(3))

lemma ucast_up_pred:
  assumes "n < (i :: u8)"
  shows "(ucast (i - 1) :: u64) = ucast i - 1"
proof -
  have "1 \<le> unat i" using assms by (simp add: word_less_nat_alt)
  then have "unat (i - 1) = unat i - 1" "unat ((ucast i :: u64) - 1) = unat i - 1"
    by (simp_all add: unat_sub word_le_nat_alt)
  then show ?thesis by (simp add: word_unat_eq_iff)
qed

lemma Suc_le_iff_less:
  fixes i n u :: "'a::len word"
  assumes "i < n"
  shows "i + 1 \<le> u \<longleftrightarrow> i < u"
  using unat_Suc_less [OF assms] by (simp add: word_le_nat_alt word_less_nat_alt Suc_le_eq)

lemma le_pred_iff_less:
  fixes i n u :: "'a::len word"
  assumes "n < i"
  shows "u \<le> i - 1 \<longleftrightarrow> u < i"
proof -
  have "1 \<le> unat i" using assms by (simp add: word_less_nat_alt)
  then have "unat (i - 1) = unat i - 1" by (simp add: unat_sub word_le_nat_alt)
  with \<open>1 \<le> unat i\<close> show ?thesis by (auto simp: word_le_nat_alt word_less_nat_alt)
qed

section \<open>The C type int\<close>

lemma sint_cases:
  fixes w :: u32
  shows "sint w = (if unat w < 2147483648 then int (unat w) else int (unat w) - 4294967296)"
proof -
  have r: "- 2147483648 \<le> sint w" "sint w < 2147483648"
    using sint_ge [of w] sint_less [of w] by simp_all
  have u: "int (unat w) = sint w mod 4294967296"
    using uint_sint [of w] by (simp add: take_bit_eq_mod)
  show ?thesis
  proof (cases "0 \<le> sint w")
    case True
    with u r have e: "int (unat w) = sint w" by (simp only: mod_pos_pos_trivial)
    then have "unat w < 2147483648" using r by linarith
    then show ?thesis by (simp only: e if_True)
  next
    case False
    then have "sint w mod 4294967296 = sint w + 4294967296"
      using r mod_pos_pos_trivial [of "sint w + 4294967296" 4294967296] by simp
    with u have e: "int (unat w) = sint w + 4294967296" by (simp only:)
    then have "\<not> unat w < 2147483648" using r by linarith
    then show ?thesis using e by (simp only: if_False)
  qed
qed

lemma sint_nonneg_iff:
  fixes w :: u32
  shows "0 \<le> sint w \<longleftrightarrow> unat w < 2147483648"
proof (cases "unat w < 2147483648")
  case True
  then show ?thesis using sint_cases [of w] by (metis of_nat_0_le_iff)
next
  case False
  then have "sint w = int (unat w) - 4294967296" using sint_cases [of w] by metis
  then show ?thesis using False unat_less_32 [of w] by linarith
qed

lemma sint_negate:
  fixes w :: u32
  assumes "sint w < 0" "w \<noteq> 0x80000000"
  shows "unat (- w) = nat \<bar>sint w\<bar>" "0 \<le> sint (- w)"
proof -
  have "unat w \<noteq> unat (0x80000000 :: u32)" using assms(2) by (metis word_unat_eq_iff)
  moreover have "2147483648 \<le> unat w" using assms(1) by (auto simp: sint_cases split: if_splits)
  moreover have "unat (- w) = 4294967296 - unat w"
    using unat_sub_if' [of 0 w] calculation by simp
  moreover have "nat \<bar>sint w\<bar> = 4294967296 - unat w"
  proof -
    have "sint w = int (unat w) - 4294967296"
      using calculation(2) sint_cases [of w] by (metis not_less)
    then show ?thesis using unat_less_32 [of w] by linarith
  qed
  ultimately show "unat (- w) = nat \<bar>sint w\<bar>" "0 \<le> sint (- w)"
    by (simp_all add: sint_cases)
qed

lemma block_index_inj:
  fixes b k l i j :: nat
  assumes "b * k + i = b * l + j" "i < b" "j < b"
  shows "k = l" "i = j"
proof -
  have "(b * k + i) div b = k" "(b * l + j) div b = l" using assms(2,3) by simp_all
  then show "k = l" using assms(1) by simp
  then show "i = j" using assms(1) by simp
qed

section \<open>Masking off low bits\<close>

lemma unat_and_not_mask:
  fixes a :: "'a::len word"
  shows "unat (a AND NOT (mask n)) = unat a div 2 ^ n * 2 ^ n"
proof -
  have "a = (a AND NOT (mask n)) OR take_bit n a"
    by (rule bit_word_eqI) (auto simp: bit_simps)
  also have "\<dots> = (a AND NOT (mask n)) + take_bit n a"
    by (rule disjunctive_add_eq_or [symmetric], rule bit_word_eqI) (auto simp: bit_simps)
  finally have s: "a AND NOT (mask n) = a - take_bit n a" by (metis add_diff_cancel_right')
  have t: "unat (take_bit n a) = unat a mod 2 ^ n"
    by (metis take_bit_eq_mod unsigned_take_bit_eq)
  then have "take_bit n a \<le> a" by (simp add: word_le_nat_alt)
  then have "unat (a - take_bit n a) = unat a - unat a mod 2 ^ n" using t by (simp add: unat_sub)
  then show ?thesis using s minus_mod_eq_div_mult [of "unat a"] by (simp only:)
qed

lemma unat_page_mask: "unat (a AND - 4096 :: u64) = unat a div 4096 * 4096"
  using unat_and_not_mask [of a 12] by (simp add: mask_numeral)

section \<open>Circular address ranges\<close>

text \<open>
  The byte range of length \<open>n\<close> that starts at address \<open>a\<close> is the set of all \<open>x\<close> with
  \<open>x - a < n\<close>: subtraction on words makes this right for ranges that wrap around the end
  of the address space too.
\<close>

definition in_range :: "u64 \<Rightarrow> u64 \<Rightarrow> u64 \<Rightarrow> bool" where
  "in_range a n x \<longleftrightarrow> x - a < n"

definition ranges_disjoint :: "u64 \<Rightarrow> u64 \<Rightarrow> u64 \<Rightarrow> u64 \<Rightarrow> bool" where
  "ranges_disjoint a n b k \<longleftrightarrow> n \<le> b - a \<and> k \<le> a - b"

lemma ranges_disjoint_sym: "ranges_disjoint a n b k \<longleftrightarrow> ranges_disjoint b k a n"
  by (auto simp: ranges_disjoint_def)

lemma sub_below_wraps:
  fixes u d :: u64
  assumes "u < d"
  shows "- d \<le> u - d"
proof -
  have "unat (- d) = 18446744073709551616 - unat d"
    using assms unat_sub_if' [of 0 d] by (auto simp: word_less_nat_alt)
  moreover have "unat (u - d) = unat u + 18446744073709551616 - unat d"
    using assms by (simp add: unat_sub_if' word_less_nat_alt)
  ultimately show ?thesis by (simp add: word_le_nat_alt)
qed

lemma ranges_disjointD:
  assumes "ranges_disjoint a n b k" "in_range a n x"
  shows "\<not> in_range b k x"
proof -
  from assms have "x - a < b - a" "k \<le> a - b"
    by (auto simp: ranges_disjoint_def in_range_def)
  then have "- (b - a) \<le> (x - a) - (b - a)" using sub_below_wraps by blast
  then have "a - b \<le> x - b" by simp
  with \<open>k \<le> a - b\<close> show ?thesis by (auto simp: in_range_def)
qed

lemma in_range_sub:
  assumes "in_range a n x" "ranges_disjoint a n b k"
  shows "\<not> x - b < k"
  using ranges_disjointD [OF assms(2,1)] by (simp add: in_range_def)

lemma in_range_linear:
  assumes "unat a + unat n \<le> 18446744073709551616"
  shows "in_range a n x \<longleftrightarrow> unat a \<le> unat x \<and> unat x < unat a + unat n"
proof (cases "unat a \<le> unat x")
  case True
  then have "unat (x - a) = unat x - unat a" by (simp add: unat_sub word_le_nat_alt)
  with True show ?thesis by (auto simp: in_range_def word_less_nat_alt)
next
  case False
  then have "unat (x - a) = unat x + 18446744073709551616 - unat a"
    by (simp add: unat_sub_if' word_le_nat_alt)
  with False assms show ?thesis by (simp add: in_range_def word_less_nat_alt)
qed

lemma ranges_disjoint_linear:
  assumes "unat a + unat n \<le> unat b" "unat b + unat k \<le> 18446744073709551616" "0 < unat n"
  shows "ranges_disjoint a n b k"
  unfolding ranges_disjoint_def word_le_nat_alt
  using assms unat_less_64 [of a] by (auto simp: unat_sub_if')

lemma ranges_apart:
  assumes "unat a + unat n \<le> 18446744073709551616" "unat b + unat k \<le> 18446744073709551616"
    "\<And>x. in_range b k x \<Longrightarrow> \<not> in_range a n x" "0 < unat n" "0 < unat k"
  shows "ranges_disjoint a n b k"
proof -
  have "\<not> (unat a \<le> unat b \<and> unat b < unat a + unat n)"
    using assms(3) [of b] assms(4,5) in_range_linear [OF assms(1)] in_range_linear [OF assms(2)] by auto
  moreover have "\<not> (unat b \<le> unat a \<and> unat a < unat b + unat k)"
    using assms(3) [of a] assms(4,5) in_range_linear [OF assms(1)] in_range_linear [OF assms(2)] by auto
  ultimately have "unat a + unat n \<le> unat b \<or> unat b + unat k \<le> unat a" by linarith
  then show ?thesis
    using ranges_disjoint_linear [OF _ assms(2,4)] ranges_disjoint_linear [OF _ assms(1,5)] ranges_disjoint_sym by blast
qed

end
