(* ===== verification/Memory.thy ===== *)
theory Memory
  imports Prelude
begin

text \<open>
  The kernel's memory: one byte per 64-bit address, as the C code sees it through its
  pointers, and the little-endian reads and writes of wider integers.  A dereference
  \<open>*p\<close> of the source is a read of the model at the address \<open>p\<close>.

  The locale \<open>memory_cell\<close> is the contract of a fixed-width access; it is interpreted on the
  8, 16, 32 and 64-bit accesses of the model.  Its lemmas on arrays of cells carry the proofs
  about page tables, descriptor tables and pixels.
\<close>

type_synonym memory = "u64 \<Rightarrow> u8"

section \<open>Little-endian access\<close>

fun ldw :: "nat \<Rightarrow> memory \<Rightarrow> u64 \<Rightarrow> 'a::len word" where
  "ldw 0 m a = 0"
| "ldw (Suc n) m a = ucast (m a) OR push_bit 8 (ldw n m (a + 1))"

fun stw :: "nat \<Rightarrow> memory \<Rightarrow> u64 \<Rightarrow> 'a::len word \<Rightarrow> memory" where
  "stw 0 m a v = m"
| "stw (Suc n) m a v = stw n (m(a := ucast v)) (a + 1) (drop_bit 8 v)"

definition ld8 :: "memory \<Rightarrow> u64 \<Rightarrow> u8" where "ld8 m a = m a"
definition ld16 :: "memory \<Rightarrow> u64 \<Rightarrow> u16" where "ld16 m a = ldw 2 m a"
definition ld32 :: "memory \<Rightarrow> u64 \<Rightarrow> u32" where "ld32 m a = ldw 4 m a"
definition ld64 :: "memory \<Rightarrow> u64 \<Rightarrow> u64" where "ld64 m a = ldw 8 m a"

definition st8 :: "memory \<Rightarrow> u64 \<Rightarrow> u8 \<Rightarrow> memory" where "st8 m a v = m(a := v)"
definition st16 :: "memory \<Rightarrow> u64 \<Rightarrow> u16 \<Rightarrow> memory" where "st16 m a v = stw 2 m a v"
definition st32 :: "memory \<Rightarrow> u64 \<Rightarrow> u32 \<Rightarrow> memory" where "st32 m a v = stw 4 m a v"
definition st64 :: "memory \<Rightarrow> u64 \<Rightarrow> u64 \<Rightarrow> memory" where "st64 m a v = stw 8 m a v"

lemma in_range_Suc_D:
  assumes "in_range (a + 1) (of_nat n) x" "Suc n < 18446744073709551616"
  shows "in_range a (of_nat (Suc n)) x" "x \<noteq> a"
proof -
  define u where "u = x - (a + 1)"
  have u: "x - a = u + 1" by (simp add: u_def)
  have "unat u < n" using assms by (simp add: in_range_def u_def word_less_nat_alt unat_of_nat)
  then have v: "unat (u + 1) = Suc (unat u)"
    using assms(2) by (simp add: unat_word_ariths)
  show "in_range a (of_nat (Suc n)) x"
    using v \<open>unat u < n\<close> assms(2) by (simp add: in_range_def u word_less_nat_alt unat_of_nat del: of_nat_Suc)
  show "x \<noteq> a" using v u by auto
qed

lemma in_range_head: "0 < n \<Longrightarrow> n < 18446744073709551616 \<Longrightarrow> in_range a (of_nat n) a"
  by (simp add: in_range_def word_less_nat_alt unat_of_nat)

lemma stw_outside:
  assumes "\<not> in_range a (of_nat n) x" "n < 18446744073709551616"
  shows "stw n m a v x = m x"
  using assms
proof (induction n arbitrary: m a v)
  case 0
  then show ?case by simp
next
  case (Suc n)
  have "\<not> in_range (a + 1) (of_nat n) x"
    using Suc.prems in_range_Suc_D(1) by blast
  moreover have "x \<noteq> a" using Suc.prems in_range_head by blast
  ultimately show ?case using Suc.IH [of "a + 1"] Suc.prems(2) by simp
qed

lemma ldw_cong:
  assumes "\<And>x. in_range a (of_nat n) x \<Longrightarrow> m x = m' x" "n < 18446744073709551616"
  shows "(ldw n m a :: 'a::len word) = ldw n m' a"
  using assms
proof (induction n arbitrary: a)
  case 0
  then show ?case by simp
next
  case (Suc n)
  have "m a = m' a" using Suc.prems in_range_head by blast
  moreover have "(ldw n m (a + 1) :: 'a word) = ldw n m' (a + 1)"
    by (rule Suc.IH) (use Suc.prems in_range_Suc_D(1) in auto)
  ultimately show ?case by simp
qed

lemma ldw_stw_same:
  fixes v :: "'a::len word"
  assumes "n < 18446744073709551616"
  shows "ldw n (stw n m a v) a = take_bit (8 * n) v"
  using assms
proof (induction n arbitrary: m a v)
  case 0
  then show ?case by simp
next
  case (Suc n)
  have "\<not> in_range (a + 1) (of_nat n) a" using in_range_Suc_D(2) Suc.prems by blast
  then have "stw n (m(a := ucast v)) (a + 1) (drop_bit 8 v) a = ucast v"
    using Suc.prems by (simp add: stw_outside)
  then have "ldw (Suc n) (stw (Suc n) m a v) a =
      ucast (ucast v :: u8) OR push_bit 8 (take_bit (8 * n) (drop_bit 8 v))"
    using Suc by simp
  also have "\<dots> = take_bit (8 * Suc n) v"
    by (rule bit_word_eqI) (auto simp: bit_simps not_less)
  finally show ?case .
qed

lemma ldw_stw_disjoint:
  assumes "ranges_disjoint a (of_nat n) b (of_nat k)"
    "n < 18446744073709551616" "k < 18446744073709551616"
  shows "ldw n (stw k m b v) a = ldw n m a"
  using assms by (intro ldw_cong stw_outside) (auto dest: ranges_disjointD)

section \<open>The contract of a fixed-width access\<close>

text \<open>A value is read exactly when its bytes are there.\<close>

lemma bit_ldw:
  "8 * n \<le> LENGTH('a) \<Longrightarrow>
     bit (ldw n m a :: 'a::len word) k \<longleftrightarrow> k < 8 * n \<and> bit (m (a + of_nat (k div 8))) (k mod 8)"
proof (induction n arbitrary: a k)
  case (Suc n)
  show ?case
  proof (cases "k < 8")
    case True
    then have "bit (ldw (Suc n) m a :: 'a word) k \<longleftrightarrow> bit (m a) k"
      using Suc.prems by (simp add: bit_or_iff bit_push_bit_iff bit_ucast_iff)
    then show ?thesis using True by simp
  next
    case False
    define j where "j = k - 8"
    with False have j: "k = 8 + j" by simp
    have "k div 8 = Suc (j div 8)" by (simp add: j)
    then have e: "of_nat (k div 8) = (1 + of_nat (j div 8) :: u64)" "k mod 8 = j mod 8" by (simp_all only: of_nat_Suc) (simp add: j)
    have "\<not> bit (m a) k" using False bit_imp_le_length [of "m a" k] by auto
    then have "bit (ldw (Suc n) m a :: 'a word) k \<longleftrightarrow> k < LENGTH('a) \<and> bit (ldw n m (a + 1) :: 'a word) j"
      using bit_imp_le_length [of "ldw n m (a + 1) :: 'a word" j]
      by (auto simp: bit_or_iff bit_push_bit_iff bit_ucast_iff j)
    also have "\<dots> \<longleftrightarrow> k < 8 * Suc n \<and> bit (m (a + 1 + of_nat (j div 8))) (j mod 8)"
      using Suc.IH [of "a + 1" j] Suc.prems by (auto simp: j)
    finally show ?thesis unfolding e by (simp add: add.assoc)
  qed
qed simp

lemma ldw_eq_iff:
  fixes w :: "'a::len word"
  assumes "LENGTH('a) = 8 * n"
  shows "ldw n m a = w \<longleftrightarrow> (\<forall>i<n. m (a + of_nat i) = ucast (drop_bit (8 * i) w))"
proof
  assume w: "ldw n m a = w"
  show "\<forall>i<n. m (a + of_nat i) = ucast (drop_bit (8 * i) w)"
  proof (intro allI impI bit_word_eqI)
    fix i j assume "i < n" "j < LENGTH(8)"
    then have "(8 * i + j) div 8 = i" "(8 * i + j) mod 8 = j" "8 * i + j < 8 * n" by simp_all
    then show "bit (m (a + of_nat i)) j = bit (ucast (drop_bit (8 * i) w) :: u8) j"
      using bit_ldw [of n m a "8 * i + j", where 'a = 'a] assms \<open>j < LENGTH(8)\<close> by (simp add: bit_simps flip: w)
  qed
next
  assume b: "\<forall>i<n. m (a + of_nat i) = ucast (drop_bit (8 * i) w)"
  show "ldw n m a = w"
  proof (rule bit_word_eqI)
    fix k assume "k < LENGTH('a)"
    then have "k div 8 < n" "8 * (k div 8) + k mod 8 = k" using assms by simp_all
    then show "bit (ldw n m a :: 'a word) k = bit w k"
      using bit_ldw [of n m a k, where 'a = 'a] assms b \<open>k < LENGTH('a)\<close> by (simp add: bit_simps)
  qed
qed

lemma ld16_eq_iff: "ld16 m a = w \<longleftrightarrow> m a = ucast w \<and> m (a + 1) = ucast (drop_bit 8 w)"
proof -
  have "(\<forall>i<2. P i) \<longleftrightarrow> P 0 \<and> P (1 :: nat)" for P
    by (auto simp: less_2_cases_iff)
  then show ?thesis unfolding ld16_def by (subst ldw_eq_iff) simp_all
qed

lemma ld32_eq_iff: "ld32 m a = w \<longleftrightarrow> m a = ucast w \<and> m (a + 1) = ucast (drop_bit 8 w) \<and>
    m (a + 2) = ucast (drop_bit 16 w) \<and> m (a + 3) = ucast (drop_bit 24 w)"
proof -
  have "(\<forall>i<4. P i) \<longleftrightarrow> P 0 \<and> P 1 \<and> P 2 \<and> P (3 :: nat)" for P
    by (simp add: numeral_eq_Suc less_Suc_eq all_conj_distrib)
  then show ?thesis unfolding ld32_def by (subst ldw_eq_iff) simp_all
qed
lemma ld64_eq_iff: "ld64 m a = w \<longleftrightarrow> m a = ucast w \<and> m (a + 1) = ucast (drop_bit 8 w) \<and>
    m (a + 2) = ucast (drop_bit 16 w) \<and> m (a + 3) = ucast (drop_bit 24 w) \<and> m (a + 4) = ucast (drop_bit 32 w) \<and>
    m (a + 5) = ucast (drop_bit 40 w) \<and> m (a + 6) = ucast (drop_bit 48 w) \<and> m (a + 7) = ucast (drop_bit 56 w)"
proof -
  have "(\<forall>i<8. P i) \<longleftrightarrow> P 0 \<and> P 1 \<and> P 2 \<and> P 3 \<and> P 4 \<and> P 5 \<and> P 6 \<and> P (7 :: nat)" for P
    by (simp add: numeral_eq_Suc less_Suc_eq all_conj_distrib)
  then show ?thesis unfolding ld64_def by (subst ldw_eq_iff) simp_all
qed

locale memory_cell =
  fixes rd :: "memory \<Rightarrow> u64 \<Rightarrow> 'v" and wr :: "memory \<Rightarrow> u64 \<Rightarrow> 'v \<Rightarrow> memory" and width :: u64
  assumes rd_wr_same: "rd (wr m a v) a = v"
    and wr_outside: "\<not> in_range a width x \<Longrightarrow> wr m a v x = m x"
    and rd_cong: "(\<And>x. in_range a width x \<Longrightarrow> m x = m' x) \<Longrightarrow> rd m a = rd m' a"
begin

lemma rd_wr_disjoint:
  "ranges_disjoint a width b width \<Longrightarrow> rd (wr m b v) a = rd m a"
  by (rule rd_cong) (auto intro: wr_outside dest: ranges_disjointD)

lemma rd_outside_update:
  "\<not> in_range a width x \<Longrightarrow> rd (m(x := c)) a = rd m a"
  by (rule rd_cong) auto

end

interpretation cell8: memory_cell ld8 st8 1
  by unfold_locales (auto simp: ld8_def st8_def in_range_def)

interpretation cell16: memory_cell ld16 st16 2
  by unfold_locales
    (auto simp: ld16_def st16_def ldw_stw_same take_bit_word_eq_self intro: stw_outside ldw_cong)

interpretation cell32: memory_cell ld32 st32 4
  by unfold_locales
    (auto simp: ld32_def st32_def ldw_stw_same take_bit_word_eq_self intro: stw_outside ldw_cong)

interpretation cell64: memory_cell ld64 st64 8
  by unfold_locales
    (auto simp: ld64_def st64_def ldw_stw_same take_bit_word_eq_self intro: stw_outside ldw_cong)

text \<open>Accesses of different widths do not interfere when their ranges are disjoint: the two
  contracts together.\<close>

locale two_cells = a: memory_cell rda wra wa + b: memory_cell rdb wrb wb
  for rda :: "memory \<Rightarrow> u64 \<Rightarrow> 'v" and wra wa and rdb :: "memory \<Rightarrow> u64 \<Rightarrow> 'w" and wrb wb
begin

lemma rd_wr_other: "ranges_disjoint p wa q wb \<Longrightarrow> rda (wrb m q v) p = rda m p"
  by (rule a.rd_cong) (auto intro: b.wr_outside dest: ranges_disjointD)

end

interpretation c8_32: two_cells ld8 st8 1 ld32 st32 4 by unfold_locales
interpretation c8_64: two_cells ld8 st8 1 ld64 st64 8 by unfold_locales
interpretation c32_8: two_cells ld32 st32 4 ld8 st8 1 by unfold_locales
interpretation c32_64: two_cells ld32 st32 4 ld64 st64 8 by unfold_locales
interpretation c64_8: two_cells ld64 st64 8 ld8 st8 1 by unfold_locales
interpretation c64_32: two_cells ld64 st64 8 ld32 st32 4 by unfold_locales

lemma one_le_word: "(1 :: u64) \<le> x \<longleftrightarrow> x \<noteq> 0"
  by (auto simp: word_le_nat_alt Suc_le_eq unat_gt_0)

lemmas cell_simps =
  one_le_word
  cell8.rd_wr_same cell16.rd_wr_same cell32.rd_wr_same cell64.rd_wr_same
  cell8.rd_wr_disjoint cell16.rd_wr_disjoint cell32.rd_wr_disjoint cell64.rd_wr_disjoint
  c8_32.rd_wr_other c8_64.rd_wr_other c32_8.rd_wr_other c32_64.rd_wr_other
  c64_8.rd_wr_other c64_32.rd_wr_other ranges_disjoint_def

lemma field_access_example:
  "ld64 (st32 (st64 (st64 m (p + 16) v) (p + 8) w) p 7) (p + 16) = v"
  by (simp add: cell_simps)

end
