(* ===== verification/Kstring.thy ===== *)
theory Kstring
  imports Memory
begin

text \<open>
  \<open>sys/src/lib/string.c\<close>: the kernel's string and memory routines, as functions on the byte
  memory.  A routine that scans for a terminator it may never meet has an option result.
  The predicate \<open>cstr m p s\<close> says that the NUL-terminated string \<open>s\<close> is stored at \<open>p\<close>;
  \<open>bytes_at m p n\<close> reads \<open>n\<close> bytes.
\<close>

section \<open>Strings in memory\<close>

fun cstr :: "memory \<Rightarrow> u64 \<Rightarrow> u8 list \<Rightarrow> bool" where
  "cstr m p [] \<longleftrightarrow> m p = 0"
| "cstr m p (c # cs) \<longleftrightarrow> c \<noteq> 0 \<and> m p = c \<and> cstr m (p + 1) cs"

definition bytes_at :: "memory \<Rightarrow> u64 \<Rightarrow> nat \<Rightarrow> u8 list" where
  "bytes_at m p n = map (\<lambda>i. m (p + of_nat i)) [0..<n]"

definition ascii :: "string \<Rightarrow> u8 list" where
  "ascii s = map of_char s"

lemma length_bytes_at [simp]: "length (bytes_at m p n) = n"
  by (simp add: bytes_at_def)

lemma nth_bytes_at [simp]: "i < n \<Longrightarrow> bytes_at m p n ! i = m (p + of_nat i)"
  by (simp add: bytes_at_def)

lemma cstr_nth:
  "cstr m p s \<longleftrightarrow> (\<forall>i<length s. s ! i \<noteq> 0 \<and> m (p + of_nat i) = s ! i) \<and> m (p + of_nat (length s)) = 0"
proof (induction s arbitrary: p)
  case Nil
  then show ?case by simp
next
  case (Cons c s)
  show ?case
    by (auto simp: Cons.IH All_less_Suc2 ac_simps)
qed

section \<open>Lengths and comparisons\<close>

partial_function (option) kstrlen_loop :: "memory \<Rightarrow> u64 \<Rightarrow> u64 \<Rightarrow> u64 option" where
  "kstrlen_loop m str i =
     (let c = m (str + i); i' = i + 1 in
      if c \<noteq> 0 then kstrlen_loop m str i' else Some (i' - 1))"

definition kstrlen :: "memory \<Rightarrow> u64 \<Rightarrow> u64 option" where
  "kstrlen m str = kstrlen_loop m str 0"

partial_function (option) kmemcmp :: "memory \<Rightarrow> u64 \<Rightarrow> u64 \<Rightarrow> u64 \<Rightarrow> bool option" where
  "kmemcmp m str1 str2 n =
     (if m str1 \<noteq> 0 \<and> m str2 \<noteq> 0 then
        (if m str1 \<noteq> m str2 then Some False
         else kmemcmp m (str1 + 1) (str2 + 1) n)
      else Some True)"

function kstrcmp_loop :: "memory \<Rightarrow> u64 \<Rightarrow> u64 \<Rightarrow> u32 \<Rightarrow> u32 \<Rightarrow> u8" where
  "kstrcmp_loop m str1 str2 len i =
     (if i < len then
        (if m (str1 + ucast i) \<noteq> m (str2 + ucast i) then 1
         else kstrcmp_loop m str1 str2 len (i + 1))
      else 0)"
  by pat_completeness auto
termination
  by (relation "measure (\<lambda>(m, str1, str2, len, i). unat (len - i))") (auto intro: loop_measure)

text \<open>The two lengths are kept in \<open>uint32_t\<close> variables.\<close>

definition kstrcmp :: "memory \<Rightarrow> u64 \<Rightarrow> u64 \<Rightarrow> u8 option" where
  "kstrcmp m str1 str2 = do {
     l1 \<leftarrow> kstrlen m str1;
     l2 \<leftarrow> kstrlen m str2;
     let str1_len = (ucast l1 :: u32);
     let str2_len = (ucast l2 :: u32);
     if str1_len \<noteq> str2_len then Some 1
     else Some (kstrcmp_loop m str1 str2 str1_len 0)
   }"

text \<open>The index is a \<open>uint32_t\<close>, the bound a \<open>size_t\<close>.\<close>

partial_function (option) kstrncmp_loop ::
    "memory \<Rightarrow> u64 \<Rightarrow> u64 \<Rightarrow> u64 \<Rightarrow> u32 \<Rightarrow> u8 option" where
  "kstrncmp_loop m str1 str2 n i =
     (if (ucast i :: u64) < n then
        (if m (str1 + ucast i) \<noteq> m (str2 + ucast i) then Some 1
         else kstrncmp_loop m str1 str2 n (i + 1))
      else Some 0)"

definition kstrncmp :: "memory \<Rightarrow> u64 \<Rightarrow> u64 \<Rightarrow> u64 \<Rightarrow> u8 option" where
  "kstrncmp m str1 str2 n = kstrncmp_loop m str1 str2 n 0"

declare kstrcmp_loop.simps [simp del]

section \<open>Copying and filling\<close>

function kmemcpy_loop :: "memory \<Rightarrow> u64 \<Rightarrow> u64 \<Rightarrow> u64 \<Rightarrow> u64 \<Rightarrow> memory" where
  "kmemcpy_loop m dst src len i =
     (if i < len then kmemcpy_loop (m(dst + i := m (src + i))) dst src len (i + 1) else m)"
  by pat_completeness auto
termination
  by (relation "measure (\<lambda>(m, dst, src, len, i). unat (len - i))") (auto intro: loop_measure)

definition kmemcpy :: "memory \<Rightarrow> u64 \<Rightarrow> u64 \<Rightarrow> u64 \<Rightarrow> memory" where
  "kmemcpy m dst src len = kmemcpy_loop m dst src len 0"

function kmemset_loop :: "memory \<Rightarrow> u64 \<Rightarrow> u8 \<Rightarrow> u64 \<Rightarrow> u64 \<Rightarrow> memory" where
  "kmemset_loop m ptr c n i =
     (if i < n then kmemset_loop (m(ptr + i := c)) ptr c n (i + 1) else m)"
  by pat_completeness auto
termination
  by (relation "measure (\<lambda>(m, ptr, c, n, i). unat (n - i))") (auto intro: loop_measure)

text \<open>\<open>kmemset\<close> takes a 64-bit value and stores its low byte.\<close>

definition kmemset :: "memory \<Rightarrow> u64 \<Rightarrow> u64 \<Rightarrow> u64 \<Rightarrow> memory" where
  "kmemset m ptr data n = kmemset_loop m ptr (ucast data) n 0"

definition kmemzero :: "memory \<Rightarrow> u64 \<Rightarrow> u64 \<Rightarrow> memory" where
  "kmemzero m ptr n = kmemset_loop m ptr 0 n 0"

function kstrncpy_loop :: "memory \<Rightarrow> u64 \<Rightarrow> u64 \<Rightarrow> u8 \<Rightarrow> u8 \<Rightarrow> memory" where
  "kstrncpy_loop m dst src len i =
     (if m (src + ucast i) \<noteq> 0 \<and> i < len then
        kstrncpy_loop (m(dst + ucast i := m (src + ucast i))) dst src len (i + 1)
      else m)"
  by pat_completeness auto
termination
  by (relation "measure (\<lambda>(m, dst, src, len, i). unat (len - i))") (auto intro: loop_measure)

definition kstrncpy :: "memory \<Rightarrow> u64 \<Rightarrow> u64 \<Rightarrow> u8 \<Rightarrow> memory" where
  "kstrncpy m dst src len = kstrncpy_loop m dst src len 0"

declare kmemcpy_loop.simps [simp del] kmemset_loop.simps [simp del] kstrncpy_loop.simps [simp del]

section \<open>Wide strings\<close>

text \<open>\<open>wchar_t\<close> is a 32-bit unsigned integer.\<close>

partial_function (option) utf8_strlen_loop :: "memory \<Rightarrow> u64 \<Rightarrow> u64 \<Rightarrow> u64 option" where
  "utf8_strlen_loop m utf8_str len =
     (let c = ld32 m (utf8_str + 4 * len); len' = len + 1 in
      if c \<noteq> 0 then utf8_strlen_loop m utf8_str len' else Some (len' - 1))"

definition utf8_strlen :: "memory \<Rightarrow> u64 \<Rightarrow> u64 option" where
  "utf8_strlen m utf8_str = utf8_strlen_loop m utf8_str 0"

function utf8_strncpy_loop :: "memory \<Rightarrow> u64 \<Rightarrow> u64 \<Rightarrow> u64 \<Rightarrow> u64 \<Rightarrow> memory" where
  "utf8_strncpy_loop m src dst n i =
     (if i < n then
        utf8_strncpy_loop (st32 m (dst + 4 * i) (ld32 m (src + 4 * i))) src dst n (i + 1)
      else m)"
  by pat_completeness auto
termination
  by (relation "measure (\<lambda>(m, src, dst, n, i). unat (n - i))") (auto intro: loop_measure)

definition utf8_strncpy :: "memory \<Rightarrow> u64 \<Rightarrow> u64 \<Rightarrow> u64 \<Rightarrow> memory" where
  "utf8_strncpy m src dst n = utf8_strncpy_loop m src dst n 0"

declare utf8_strncpy_loop.simps [simp del]

section \<open>Numbers to text\<close>

text \<open>Both conversions write into a static buffer of 80 bytes (its address is \<open>buf\<close>), least
  significant digit first, and then reverse it in place with the indices \<open>j\<close> and \<open>i\<close> of type
  \<open>uint8_t\<close>.\<close>

function reverse_loop :: "memory \<Rightarrow> u64 \<Rightarrow> u8 \<Rightarrow> u8 \<Rightarrow> memory" where
  "reverse_loop m buf j i =
     (if j < i then
        (let temp = m (buf + ucast j);
             m1 = m(buf + ucast j := m (buf + ucast i));
             m2 = m1(buf + ucast i := temp)
         in reverse_loop m2 buf (j + 1) (i - 1))
      else m)"
  by pat_completeness auto
termination
proof (relation "measure (\<lambda>(m, buf, j, i). unat i)")
  fix j i :: u8
  assume "j < i"
  then have "i \<noteq> 0" by auto
  then show "\<And>m buf x xa xb. x = m (buf + ucast j) \<Longrightarrow> xa = m(buf + ucast j := m (buf + ucast i)) \<Longrightarrow>
    xb = xa(buf + ucast i := x) \<Longrightarrow>
    ((xb, buf, j + 1, i - 1), m, buf, j, i) \<in> measure (\<lambda>(m, buf, j, i). unat i)"
    by (simp add: measure_unat)
qed auto

text \<open>\<open>number\<close> is a C \<open>int\<close>: the word is read as signed, and inside the loop, where it is
  positive, the signed \<open>%\<close> and \<open>/\<close> agree with the unsigned ones.\<close>

function dec_loop :: "memory \<Rightarrow> u64 \<Rightarrow> u8 \<Rightarrow> u32 \<Rightarrow> memory \<times> u8" where
  "dec_loop m buf i number =
     (if 0 < sint number then
        dec_loop (m(buf + ucast i := ucast (number mod 10) + 0x30)) buf (i + 1) (number div 10)
      else (m, i))"
  by pat_completeness auto
termination
proof (relation "measure (\<lambda>(m, buf, i, number). unat number)")
  fix number :: u32 and m buf and i :: u8
  assume "0 < sint number"
  then have "0 < unat number" by (cases "number = 0") (auto simp: unat_gt_0)
  then show "((m(buf + ucast i := ucast (number mod 10) + 0x30), buf, i + 1, number div 10),
      m, buf, i, number) \<in> measure (\<lambda>(m, buf, i, number). unat number)"
    by (simp add: unat_div)
qed auto

definition dec2str :: "memory \<Rightarrow> u64 \<Rightarrow> u32 \<Rightarrow> memory" where
  "dec2str m buf number =
     (let (m, i, negative, number) =
        (if number = 0 then (m(buf := 0x30), 1 :: u8, False, number)
         else if sint number < 0 then (m, 0, True, - number)
         else (m, 0, False, number));
      (m, i) = dec_loop m buf i number;
      (m, i) = (if negative then (m(buf + ucast i := 0x2D), i + 1) else (m, i));
      m = m(buf + ucast i := 0)
      in reverse_loop m buf 0 (i - 1))"

definition ascii_numbers :: "u8 list" where
  "ascii_numbers = ascii ''0123456789ABCDEF''"

function hex_loop :: "memory \<Rightarrow> u64 \<Rightarrow> u8 \<Rightarrow> u64 \<Rightarrow> memory \<times> u8" where
  "hex_loop m buf i hex_num =
     (if 0 < hex_num then
        (let nibble = (ucast hex_num :: u8) AND 0x0F
         in hex_loop (m(buf + ucast i := ascii_numbers ! unat nibble)) buf (i + 1)
              (drop_bit 4 hex_num))
      else (m, i))"
  by pat_completeness auto
termination
proof (relation "measure (\<lambda>(m, buf, i, hex_num). unat hex_num)")
  fix hex_num :: u64 and m buf and i nibble :: u8
  assume "0 < hex_num"
  then have "unat (drop_bit 4 hex_num) < unat hex_num"
    by (simp add: drop_bit_eq_div unat_div word_less_nat_alt)
  then show "((m(buf + ucast i := ascii_numbers ! unat nibble), buf, i + 1, drop_bit 4 hex_num),
      m, buf, i, hex_num) \<in> measure (\<lambda>(m, buf, i, hex_num). unat hex_num)"
    by simp
qed auto

text \<open>\<open>kstrncpy(hex_string, "0\0", 2)\<close> writes the one character before the terminator.\<close>

definition hex2str :: "memory \<Rightarrow> u64 \<Rightarrow> u64 \<Rightarrow> memory" where
  "hex2str m buf hex_num =
     (let (m, i) = (if hex_num = 0 then (m(buf := 0x30), 1 :: u8) else (m, 0));
          pad = (hex_num < 0x10);
          (m, i) = hex_loop m buf i hex_num;
          (m, i) = (if pad then (m(buf + ucast i := 0x30), i + 1) else (m, i));
          (m, i) = (m(buf + ucast i := 0x78), i + 1);
          (m, i) = (m(buf + ucast i := 0x30), i + 1);
          m = m(buf + ucast i := 0)
      in reverse_loop m buf 0 (i - 1))"

section \<open>Text to numbers\<close>

definition hex_digit_value :: "u8 \<Rightarrow> u8" where
  "hex_digit_value byte =
     (if byte \<ge> 0x30 \<and> byte \<le> 0x39 then byte - 0x30
      else if byte \<ge> 0x61 \<and> byte \<le> 0x66 then byte - 0x61 + 10
      else if byte \<ge> 0x41 \<and> byte \<le> 0x46 then byte - 0x41 + 10
      else byte)"

text \<open>The \<open>int\<close> counter of \<open>hex2int\<close> is compared with a \<open>size_t\<close>, which converts it to 64
  bits; the model counts in 64 bits.\<close>

function hex2int_loop :: "memory \<Rightarrow> u64 \<Rightarrow> u64 \<Rightarrow> u64 \<Rightarrow> u64 \<Rightarrow> u64" where
  "hex2int_loop m hex len i val =
     (if i < len then
        (let byte = hex_digit_value (m hex) in
         hex2int_loop m (hex + 1) len (i + 1) (push_bit 4 val OR ucast (byte AND 0xF)))
      else val)"
  by pat_completeness auto
termination
  by (relation "measure (\<lambda>(m, hex, len, i, val). unat (len - i))") (auto intro: loop_measure)

partial_function (option) skip_spaces :: "memory \<Rightarrow> u64 \<Rightarrow> u64 option" where
  "skip_spaces m hex = (if m hex = 0x20 then skip_spaces m (hex + 1) else Some hex)"

definition hex2int :: "memory \<Rightarrow> u64 \<Rightarrow> u64 \<Rightarrow> u64 option" where
  "hex2int m hex len = do {
     hex \<leftarrow> skip_spaces m hex;
     let hex = (if m hex = 0x30 \<and> m (hex + 1) = 0x78 then hex + 2 else hex);
     Some (hex2int_loop m hex len 0 0)
   }"

declare reverse_loop.simps [simp del] dec_loop.simps [simp del] hex_loop.simps [simp del]
  hex2int_loop.simps [simp del]

section \<open>Closed forms of the copying loops\<close>

lemma kmemset_loop_closed:
  "kmemset_loop m p c n i = (\<lambda>x. if i \<le> x - p \<and> x - p < n then c else m x)"
proof (induction m p c n i rule: kmemset_loop.induct)
  case (1 m p c n i)
  show ?case
  proof (cases "i < n")
    case True
    have "kmemset_loop m p c n i = kmemset_loop (m(p + i := c)) p c n (i + 1)"
      using True by (subst kmemset_loop.simps) simp
    also have "\<dots> = (\<lambda>x. if i \<le> x - p \<and> x - p < n then c else m x)"
      unfolding "1.IH" [OF True] Suc_le_iff_less [OF True]
      by (auto simp: fun_eq_iff True le_less diff_eq_eq add.commute)
    finally show ?thesis .
  next
    case False
    then show ?thesis by (subst kmemset_loop.simps) (auto simp: fun_eq_iff)
  qed
qed

lemma kmemset_closed [closed_form]:
  "kmemset m p d n = (\<lambda>x. if in_range p n x then ucast d else m x)"
  by (simp add: kmemset_def kmemset_loop_closed in_range_def)

lemma kmemzero_closed [closed_form]:
  "kmemzero m p n = (\<lambda>x. if in_range p n x then 0 else m x)"
  by (simp add: kmemzero_def kmemset_loop_closed in_range_def)

text \<open>A forward byte copy never reads a byte it has already written when the destination does
  not start inside the source, above its first byte.\<close>

definition forward_copy_ok :: "u64 \<Rightarrow> u64 \<Rightarrow> u64 \<Rightarrow> bool" where
  "forward_copy_ok dst src len \<longleftrightarrow> dst = src \<or> len \<le> dst - src"

lemma kmemcpy_loop_closed:
  assumes "forward_copy_ok dst src len"
  shows "kmemcpy_loop m dst src len i =
    (\<lambda>x. if i \<le> x - dst \<and> x - dst < len then m (src + (x - dst)) else m x)"
  using assms
proof (induction m dst src len i rule: kmemcpy_loop.induct)
  case (1 m dst src len i)
  show ?case
  proof (cases "i < len")
    case True
    let ?m = "m(dst + i := m (src + i))"
    have unread: "?m (src + (x - dst)) = m (src + (x - dst))" if "i < x - dst" "x - dst < len" for x
    proof (cases "dst = src")
      case False
      define j where "j = x - dst"
      have "src + j \<noteq> dst + i"
      proof
        assume "src + j = dst + i"
        then have "dst - src = j - i" by (simp add: algebra_simps)
        moreover have "j - i < len"
          using that unfolding j_def [symmetric]
          by (metis less_imp_le order_le_less_trans word_sub_le)
        ultimately show False using "1.prems" False by (auto simp: forward_copy_ok_def)
      qed
      then show ?thesis by (simp add: j_def)
    qed (use that in auto)
    have "kmemcpy_loop m dst src len i = kmemcpy_loop ?m dst src len (i + 1)"
      using True by (subst kmemcpy_loop.simps) simp
    also have "\<dots> = (\<lambda>x. if i \<le> x - dst \<and> x - dst < len then m (src + (x - dst)) else m x)"
      unfolding "1.IH" [OF True "1.prems"] Suc_le_iff_less [OF True]
      using unread [unfolded fun_upd_apply] True
      by (fastforce simp: fun_eq_iff le_less diff_eq_eq add.commute)
    finally show ?thesis .
  next
    case False
    then show ?thesis by (subst kmemcpy_loop.simps) (auto simp: fun_eq_iff)
  qed
qed

lemma kmemcpy_closed [closed_form]:
  assumes "forward_copy_ok dst src len"
  shows "kmemcpy m dst src len = (\<lambda>x. if in_range dst len x then m (src + (x - dst)) else m x)"
  by (simp add: kmemcpy_def kmemcpy_loop_closed [OF assms] in_range_def)

lemma ranges_disjoint_forward:
  "ranges_disjoint dst len src len \<Longrightarrow> forward_copy_ok dst src len"
  by (simp add: ranges_disjoint_def forward_copy_ok_def)

text \<open>Without any assumption on the two ranges: bytes outside the destination are kept, and a byte is
  copied as it was when the loop has not overwritten its source before.\<close>

lemma kmemcpy_loop_outside:
  "\<not> (i \<le> x - dst \<and> x - dst < len) \<Longrightarrow> kmemcpy_loop m dst src len i x = m x"
proof (induction m dst src len i rule: kmemcpy_loop.induct)
  case (1 m dst src len i)
  show ?case
  proof (cases "i < len")
    case True
    have "x \<noteq> dst + i" using "1.prems" True by auto
    moreover have "\<not> (i + 1 \<le> x - dst \<and> x - dst < len)"
      using "1.prems" Suc_le_iff_less [OF True, of "x - dst"] by auto
    ultimately show ?thesis using "1.IH" [OF True] True by (subst kmemcpy_loop.simps) (simp add: fun_upd_def)
  qed (subst kmemcpy_loop.simps, simp)
qed

lemma kmemcpy_loop_at:
  assumes "i \<le> j" "j < len" "\<not> (i \<le> src + j - dst \<and> src + j - dst < j)"
  shows "kmemcpy_loop m dst src len i (dst + j) = m (src + j)"
  using assms
proof (induction m dst src len i rule: kmemcpy_loop.induct)
  case (1 m dst src len i)
  have lt: "i < len" using "1.prems" by simp
  let ?m = "m(dst + i := m (src + i))"
  have step: "kmemcpy_loop m dst src len i (dst + j) = kmemcpy_loop ?m dst src len (i + 1) (dst + j)"
    using lt by (subst kmemcpy_loop.simps) simp
  show ?case
  proof (cases "i = j")
    case True
    have "\<not> i + 1 \<le> i" using Suc_le_iff_less [OF lt, of i] by simp
    then show ?thesis unfolding step using True by (subst kmemcpy_loop_outside) auto
  next
    case False
    then have ij: "i < j" using "1.prems"(1) by simp
    have "src + j \<noteq> dst + i"
      using "1.prems"(3) ij by (metis add_diff_cancel_left' order_refl)
    moreover have "\<not> (i + 1 \<le> src + j - dst \<and> src + j - dst < j)" "i + 1 \<le> j"
      using "1.prems"(3) ij Suc_le_iff_less [OF lt] by auto
    ultimately show ?thesis unfolding step using "1.IH" [OF lt] "1.prems"(2) by (simp add: fun_upd_def)
  qed
qed

section \<open>What the string routines compute\<close>

lemma cstr_length: "cstr m p s \<Longrightarrow> length s < 18446744073709551616"
proof (rule ccontr)
  assume *: "cstr m p s" "\<not> length s < 18446744073709551616"
  define k where "k = length s - 18446744073709551616"
  have "k < length s" "length s = k + 18446744073709551616" using *(2) by (auto simp: k_def)
  then have "m (p + of_nat k) \<noteq> 0" "(of_nat (length s) :: u64) = of_nat k"
    using *(1) by (auto simp: cstr_nth)
  with *(1) show False by (simp add: cstr_nth)
qed

lemma cstr_unique: "cstr m p s \<Longrightarrow> cstr m p t \<Longrightarrow> s = t"
proof (induction s arbitrary: p t)
  case Nil
  then show ?case by (cases t) auto
next
  case (Cons c s)
  then show ?case by (cases t) auto
qed

lemma cstr_cong:
  assumes "cstr m p s" "\<And>i. i \<le> length s \<Longrightarrow> m' (p + of_nat i) = m (p + of_nat i)"
  shows "cstr m' p s"
  using assms by (simp add: cstr_nth)

lemma kstrlen_loop_cstr:
  "cstr m (str + i) s \<Longrightarrow> kstrlen_loop m str i = Some (i + of_nat (length s))"
proof (induction s arbitrary: i)
  case Nil
  then show ?case by (simp add: kstrlen_loop.simps)
next
  case (Cons c s)
  then have "cstr m (str + (i + 1)) s" by (simp add: ac_simps)
  from Cons.IH [OF this] Cons.prems show ?case
    by (subst kstrlen_loop.simps) (simp add: ac_simps)
qed

lemma kstrlen_cstr: "cstr m p s \<Longrightarrow> kstrlen m p = Some (of_nat (length s))"
  by (simp add: kstrlen_def kstrlen_loop_cstr)

lemma kstrcmp_loop_eq:
  "kstrcmp_loop m a b len i =
     (if \<forall>k. i \<le> k \<and> k < len \<longrightarrow> m (a + ucast k) = m (b + ucast k) then 0 else 1)"
proof (induction m a b len i rule: kstrcmp_loop.induct)
  case (1 m a b len i)
  show ?case
  proof (cases "i < len \<and> m (a + ucast i) = m (b + ucast i)")
    case True
    then have "kstrcmp_loop m a b len i = kstrcmp_loop m a b len (i + 1)"
      by (subst kstrcmp_loop.simps) simp
    moreover have "(\<forall>k. i + 1 \<le> k \<and> k < len \<longrightarrow> m (a + ucast k) = m (b + ucast k)) \<longleftrightarrow>
        (\<forall>k. i \<le> k \<and> k < len \<longrightarrow> m (a + ucast k) = m (b + ucast k))"
      unfolding Suc_le_iff_less [OF conjunct1 [OF True]] using True by (auto simp: le_less)
    ultimately show ?thesis using True "1.IH" by simp
  next
    case False
    then show ?thesis by (subst kstrcmp_loop.simps) (auto simp: not_less intro: exI [of _ i])
  qed
qed

lemma words_below_iff:
  fixes n :: nat
  assumes "n < 4294967296"
  shows "(\<forall>k::u32. k < of_nat n \<longrightarrow> P (ucast k :: u64)) \<longleftrightarrow> (\<forall>i<n. P (of_nat i))"
proof safe
  fix i assume *: "\<forall>k::u32. k < of_nat n \<longrightarrow> P (ucast k)" "i < n"
  with assms have "(of_nat i :: u32) < of_nat n" by (simp add: word_less_nat_alt unat_of_nat)
  with * have "P (ucast (of_nat i :: u32))" by blast
  moreover have "(ucast (of_nat i :: u32) :: u64) = of_nat i"
    using assms \<open>i < n\<close> by (simp add: unsigned_of_nat take_bit_nat_eq_self)
  ultimately show "P (of_nat i)" by simp
next
  fix k :: u32 assume *: "\<forall>i<n. P (of_nat i)" "k < of_nat n"
  then have "unat k < n" using assms by (simp add: word_less_nat_alt unat_of_nat)
  with * have "P (of_nat (unat k))" by blast
  then show "P (ucast k)" by simp
qed

lemma ucast_of_nat_small:
  "n < 4294967296 \<Longrightarrow> (ucast (of_nat n :: u64) :: u32) = of_nat n"
  by (simp add: unsigned_of_nat take_bit_nat_eq_self)

lemma of_nat_inj_32:
  assumes "of_nat i = (of_nat j :: u32)" "i < 4294967296" "j < 4294967296"
  shows "i = j"
  using arg_cong [OF assms(1), of unat] assms(2,3) by (simp add: unat_of_nat)

lemma kstrcmp_cstr:
  assumes "cstr m p s" "cstr m q t" "length s < 4294967296" "length t < 4294967296"
  shows "kstrcmp m p q = Some (if s = t then 0 else 1)"
proof (cases "length s = length t")
  case False
  then have "(of_nat (length s) :: u32) \<noteq> of_nat (length t)" using assms(3,4) of_nat_inj_32 by blast
  moreover have "s \<noteq> t" using False by blast
  ultimately show ?thesis
    using assms by (simp add: kstrcmp_def kstrlen_cstr ucast_of_nat_small)
next
  case True
  have "kstrcmp_loop m p q (of_nat (length s)) 0 =
      (if \<forall>i<length s. m (p + of_nat i) = m (q + of_nat i) then 0 else 1)"
    using words_below_iff [OF assms(3), of "\<lambda>k. m (p + k) = m (q + k)"]
    by (simp add: kstrcmp_loop_eq)
  moreover have "(\<forall>i<length s. m (p + of_nat i) = m (q + of_nat i)) \<longleftrightarrow> s = t"
    using assms(1,2) True by (auto simp: cstr_nth list_eq_iff_nth_eq)
  ultimately show ?thesis
    using True assms by (simp add: kstrcmp_def kstrlen_cstr ucast_of_nat_small)
qed

text \<open>\<open>kmemcmp\<close> never looks at its length argument and stops at the first terminator: it
  answers whether one string is a prefix of the other.\<close>

lemma kmemcmp_prefix:
  assumes "cstr m p s" "cstr m q t"
  shows "kmemcmp m p q n = Some (take (min (length s) (length t)) s = take (min (length s) (length t)) t)"
  using assms
proof (induction s arbitrary: p q t)
  case Nil
  then show ?case by (simp add: kmemcmp.simps)
next
  case (Cons c s)
  show ?case
  proof (cases t)
    case Nil
    with Cons.prems show ?thesis by (simp add: kmemcmp.simps)
  next
    case (Cons d t')
    with Cons.prems Cons.IH [of "p + 1" "q + 1" t'] show ?thesis
      by (subst kmemcmp.simps) auto
  qed
qed

lemma kstrncmp_loop_bytes:
  assumes "n < 4294967296" "i \<le> n"
  shows "kstrncmp_loop m p q (of_nat n) (of_nat i) =
    Some (if \<forall>k. i \<le> k \<and> k < n \<longrightarrow> m (p + of_nat k) = m (q + of_nat k) then 0 else 1)"
  using assms
proof (induction "n - i" arbitrary: i)
  case 0
  then have "i = n" by simp
  with assms show ?case
    by (subst kstrncmp_loop.simps) (simp add: unsigned_of_nat take_bit_nat_eq_self)
next
  case (Suc d)
  then have i: "i < n" by simp
  have u: "(ucast (of_nat i :: u32) :: u64) = of_nat i" "(of_nat i :: u64) < of_nat n"
    using i Suc.prems by (simp_all add: unsigned_of_nat take_bit_nat_eq_self word_less_nat_alt)
  have IH: "kstrncmp_loop m p q (of_nat n) (of_nat (Suc i)) =
    Some (if \<forall>k. Suc i \<le> k \<and> k < n \<longrightarrow> m (p + of_nat k) = m (q + of_nat k) then 0 else 1)"
    using Suc.hyps(1) [of "Suc i"] Suc.hyps(2) Suc.prems(1) i by (simp del: of_nat_Suc)
  have split: "(\<forall>k. i \<le> k \<and> k < n \<longrightarrow> Q k) \<longleftrightarrow> Q i \<and> (\<forall>k. Suc i \<le> k \<and> k < n \<longrightarrow> Q k)" for Q
    using i by (metis Suc_leD Suc_leI le_neq_implies_less order_refl)
  show ?case
    unfolding split using IH u by (subst kstrncmp_loop.simps) (simp add: add.commute)
qed

lemma kstrncmp_bytes:
  assumes "n < 4294967296"
  shows "kstrncmp m p q (of_nat n) =
    Some (if bytes_at m p n = bytes_at m q n then 0 else 1)"
  using kstrncmp_loop_bytes [OF assms, of 0 m p q]
  by (simp add: kstrncmp_def list_eq_iff_nth_eq)

section \<open>What the number conversions write\<close>

fun write_bytes :: "memory \<Rightarrow> u64 \<Rightarrow> u8 list \<Rightarrow> memory" where
  "write_bytes m p [] = m"
| "write_bytes m p (c # cs) = write_bytes (m(p := c)) (p + 1) cs"

lemma write_bytes_append:
  "write_bytes m p (xs @ ys) = write_bytes (write_bytes m p xs) (p + of_nat (length xs)) ys"
  by (induction xs arbitrary: m p) (simp_all add: ac_simps)

lemma write_bytes_closed:
  assumes "length xs < 18446744073709551616"
  shows "write_bytes m p xs =
    (\<lambda>x. if in_range p (of_nat (length xs)) x then xs ! unat (x - p) else m x)"
  using assms
proof (induction xs arbitrary: m p)
  case Nil
  then show ?case by (simp add: in_range_def)
next
  case (Cons c xs)
  have len: "length xs < 18446744073709551615" using Cons.prems by simp
  show ?case
  proof (rule ext)
    fix x
    define u where "u = x - (p + 1)"
    have xp: "x - p = u + 1" by (simp add: u_def)
    show "write_bytes m p (c # xs) x = (if in_range p (of_nat (length (c # xs))) x
        then (c # xs) ! unat (x - p) else m x)"
    proof (cases "x = p")
      case True
      have "\<not> in_range (p + 1) (of_nat (length xs)) p"
        using in_range_Suc_D(2) Cons.prems by force
      moreover have "in_range p (of_nat (length (c # xs))) p"
        using in_range_head [of "length (c # xs)"] Cons.prems by simp
      ultimately show ?thesis using Cons True by simp
    next
      case False
      then have "u + 1 \<noteq> 0" using xp by auto
      then have v: "unat (u + 1) = Suc (unat u)" by (metis add.commute unatSuc)
      have "in_range p (of_nat (length (c # xs))) x \<longleftrightarrow> in_range (p + 1) (of_nat (length xs)) x"
        using v len Cons.prems
        by (simp add: in_range_def xp u_def [symmetric] word_less_nat_alt unat_of_nat del: of_nat_Suc)
      then show ?thesis using Cons False v xp by (simp add: u_def [symmetric])
    qed
  qed
qed

lemma write_bytes_outside:
  assumes "length xs < 18446744073709551616" "\<not> in_range p (of_nat (length xs)) x"
  shows "write_bytes m p xs x = m x"
  using assms by (simp add: write_bytes_closed)

lemma bytes_at_write_bytes:
  assumes "length xs < 18446744073709551616" "n = length xs"
  shows "bytes_at (write_bytes m p xs) p n = xs"
proof (rule nth_equalityI)
  fix i assume "i < length (bytes_at (write_bytes m p xs) p n)"
  then have i: "i < length xs" using assms by simp
  then have "in_range p (of_nat (length xs)) (p + of_nat i)" "unat (of_nat i :: u64) = i"
    using assms(1) by (simp_all add: in_range_def word_less_nat_alt unat_of_nat)
  then show "bytes_at (write_bytes m p xs) p n ! i = xs ! i"
    using i assms by (simp add: write_bytes_closed)
qed (simp add: assms)

lemma reverse_loop_closed:
  "reverse_loop m buf j i =
    (\<lambda>x. if ucast j \<le> x - buf \<and> x - buf \<le> ucast i
         then m (buf + (ucast j + ucast i - (x - buf))) else m x)"
proof (induction m buf j i rule: reverse_loop.induct)
  case (1 m buf j i)
  define J I :: u64 where JI_def: "J = ucast j" "I = ucast i"
  have JI: "J < I \<longleftrightarrow> j < i" by (simp add: JI_def word_less_nat_alt)
  show ?case
  proof (cases "j < i")
    case False
    then have "I \<le> J" using JI by simp
    then have "J + I - u = u" if "J \<le> u" "u \<le> I" for u
      using that by (metis add_diff_cancel_left' le_less_trans less_irrefl word_le_less_eq)
    then have "m (buf + (J + I - (x - buf))) = m x" if "J \<le> x - buf" "x - buf \<le> I" for x
      using that by simp
    with False show ?thesis
      by (subst reverse_loop.simps) (auto simp: fun_eq_iff JI_def)
  next
    case True
    define m2 where "m2 = m(buf + J := m (buf + I), buf + I := m (buf + J))"
    have "J < I" using True JI by simp
    have step: "ucast (j + 1) = J + 1" "ucast (i - 1) = I - 1"
      "\<And>u. J + 1 \<le> u \<longleftrightarrow> J < u" "\<And>u. u \<le> I - 1 \<longleftrightarrow> u < I"
      using ucast_up_Suc [OF True] ucast_up_pred [OF True]
        Suc_le_iff_less [OF \<open>J < I\<close>] le_pred_iff_less [OF \<open>J < I\<close>]
      by (auto simp: JI_def)
    have "reverse_loop m buf j i = reverse_loop m2 buf (j + 1) (i - 1)"
      using True by (subst reverse_loop.simps) (simp add: Let_def m2_def JI_def)
    also have "\<dots> = (\<lambda>x. if J < x - buf \<and> x - buf < I
         then m2 (buf + (J + 1 + (I - 1) - (x - buf))) else m2 x)"
      using "1.IH" [OF True refl refl refl] unfolding JI_def [symmetric] m2_def [symmetric] step .
    also have "\<dots> = (\<lambda>x. if J \<le> x - buf \<and> x - buf \<le> I then m (buf + (J + I - (x - buf))) else m x)"
    proof (rule ext)
      fix x
      define u where "u = x - buf"
      have x: "x = buf + u" by (simp add: u_def)
      show "(if J < x - buf \<and> x - buf < I
           then m2 (buf + (J + 1 + (I - 1) - (x - buf))) else m2 x) =
         (if J \<le> x - buf \<and> x - buf \<le> I then m (buf + (J + I - (x - buf))) else m x)"
        using \<open>J < I\<close> by (auto simp: x m2_def le_less)
    qed
    finally show ?thesis unfolding JI_def .
  qed
qed

text \<open>Reversing the \<open>n\<close> characters just written turns the buffer into the reversed string.\<close>

lemma reverse_written:
  assumes "0 < length xs" "length xs < 200" "0 \<notin> set xs"
    and m: "m' = (write_bytes m buf xs)(buf + of_nat (length xs) := 0)"
  shows "cstr (reverse_loop m' buf 0 (of_nat (length xs) - 1)) buf (rev xs)"
proof -
  define n where "n = length xs"
  have n: "0 < n" "n < 200" using assms by (auto simp: n_def)
  have top: "(ucast (of_nat n - 1 :: u8) :: u64) = of_nat (n - 1)"
  proof -
    have "(of_nat n - 1 :: u8) = of_nat (n - 1)" using n by (simp add: of_nat_diff)
    moreover have "(ucast (of_nat (n - 1) :: u8) :: u64) = of_nat (n - 1)"
      using n by (simp add: unsigned_of_nat take_bit_nat_eq_self del: of_nat_diff)
    ultimately show ?thesis by (simp only:)
  qed
  have m'_nth: "m' (buf + of_nat i) = xs ! i" if "i < n" for i
  proof -
    have "(of_nat i :: u64) \<noteq> of_nat n" using that n of_nat_inj_64 [of i n] by auto
    moreover have "in_range buf (of_nat n) (buf + of_nat i)" "unat (of_nat i :: u64) = i"
      using that n by (simp_all add: in_range_def word_less_nat_alt unat_of_nat)
    ultimately show ?thesis using n by (simp add: m write_bytes_closed n_def)
  qed
  define r where "r = reverse_loop m' buf 0 (of_nat n - 1)"
  have r: "r (buf + of_nat i) = xs ! (n - 1 - i)" if "i < n" for i
  proof -
    have "(of_nat i :: u64) \<le> of_nat (n - 1)"
      using that n by (simp add: word_le_nat_alt unat_of_nat del: of_nat_diff)
    moreover have "(of_nat (n - 1) :: u64) - of_nat i = of_nat (n - 1 - i)"
      using that by (simp add: of_nat_diff algebra_simps)
    ultimately show ?thesis
      using m'_nth [of "n - 1 - i"] that n by (simp add: r_def reverse_loop_closed top del: of_nat_diff)
  qed
  have "r (buf + of_nat n) = 0"
  proof -
    have "\<not> (of_nat n :: u64) \<le> of_nat (n - 1)"
      using n by (simp add: word_le_nat_alt unat_of_nat del: of_nat_diff)
    then have "r (buf + of_nat n) = m' (buf + of_nat n)"
      by (simp add: r_def reverse_loop_closed top del: of_nat_diff)
    then show ?thesis by (simp add: m n_def)
  qed
  with r show ?thesis
    using assms(3) by (auto simp: cstr_nth rev_nth r_def [symmetric] n_def [symmetric] in_set_conv_nth)
qed

lemma reverse_written_frame:
  assumes "length xs < 200" "\<not> in_range buf 256 x"
    and m: "m' = (write_bytes m buf xs)(buf + of_nat (length xs) := 0)"
  shows "reverse_loop m' buf 0 i x = m x"
proof -
  define u where "u = x - buf"
  have x: "x = buf + u" and u: "256 \<le> u" using assms(2) by (auto simp: u_def in_range_def not_less)
  have "\<not> u \<le> ucast i"
    using u by (auto simp: word_le_nat_alt not_le intro: less_le_trans [OF unat_less_8])
  moreover have "u \<noteq> of_nat (length xs)" "\<not> u < of_nat (length xs)"
    using u assms(1) by (auto simp: word_le_nat_alt word_less_nat_alt unat_of_nat)
  ultimately show ?thesis
    using assms(1) by (simp add: reverse_loop_closed x m write_bytes_closed in_range_def)
qed


subsection \<open>Decimal\<close>

text \<open>The digits of a number, least significant first, and the numeral they form.\<close>

fun low_digits :: "nat \<Rightarrow> nat \<Rightarrow> nat list" where
  "low_digits b n = (if n = 0 \<or> b < 2 then [] else n mod b # low_digits b (n div b))"

declare low_digits.simps [simp del]

fun digits_value :: "nat \<Rightarrow> nat list \<Rightarrow> nat" where
  "digits_value b [] = 0"
| "digits_value b (d # ds) = d + b * digits_value b ds"

lemma digits_value_low_digits: "2 \<le> b \<Longrightarrow> digits_value b (low_digits b n) = n"
proof (induction b n rule: low_digits.induct)
  case (1 b n)
  then show ?case by (subst low_digits.simps) auto
qed

lemma low_digits_less: "d \<in> set (low_digits b n) \<Longrightarrow> d < b"
proof (induction b n rule: low_digits.induct)
  case (1 b n)
  then show ?case by (subst (asm) low_digits.simps) (auto split: if_splits)
qed

lemma length_low_digits: "2 \<le> b \<Longrightarrow> n < b ^ k \<Longrightarrow> length (low_digits b n) \<le> k"
proof (induction b n arbitrary: k rule: low_digits.induct)
  case (1 b n)
  show ?case
  proof (cases "n = 0")
    case True
    then show ?thesis by (simp add: low_digits.simps)
  next
    case False
    with 1 obtain j where k: "k = Suc j" by (cases k) auto
    have "n div b < b ^ j"
      using "1.prems" k by (simp add: less_mult_imp_div_less mult.commute)
    with False 1 k show ?thesis by (subst low_digits.simps) auto
  qed
qed

definition decimal_text :: "int \<Rightarrow> u8 list" where
  "decimal_text z =
     (if z = 0 then [0x30]
      else (if z < 0 then [0x2D] else []) @
        rev (map (\<lambda>d. of_nat d + 0x30) (low_digits 10 (nat \<bar>z\<bar>))))"

lemma dec_loop_writes:
  assumes "0 \<le> sint number" "i + length (low_digits 10 (unat number)) < 200"
  shows "dec_loop m buf (of_nat i) number =
    (write_bytes m (buf + of_nat i) (map (\<lambda>d. of_nat d + 0x30) (low_digits 10 (unat number))),
     of_nat (i + length (low_digits 10 (unat number))))"
  using assms
proof (induction "unat number" arbitrary: m i number rule: less_induct)
  case less
  show ?case
  proof (cases "0 < sint number")
    case False
    then have "number = 0" using less.prems by (simp add: signed_eq_0_iff)
    then show ?thesis by (subst dec_loop.simps) (simp add: low_digits.simps)
  next
    case True
    then have pos: "0 < unat number" by (cases "number = 0") (auto simp: unat_gt_0)
    have digits: "low_digits 10 (unat number) = unat number mod 10 # low_digits 10 (unat (number div 10))"
      using pos by (subst low_digits.simps) (simp add: unat_div)
    have small: "0 \<le> sint (number div 10)"
      using less.prems(1) by (simp add: sint_nonneg_iff unat_div)
    have c: "(ucast (number mod 10) :: u8) = of_nat (unat number mod 10)"
    proof -
      have "(of_nat (unat (number mod 10)) :: u8) = ucast (number mod 10)" by simp
      then show ?thesis by (simp add: unat_mod)
    qed
    have i: "(ucast (of_nat i :: u8) :: u64) = of_nat i"
      using less.prems(2) by (simp add: unsigned_of_nat take_bit_nat_eq_self)
    have "unat (number div 10) < unat number" using pos by (simp add: unat_div)
    from less.hyps [OF this small, of "Suc i"] less.prems True show ?thesis
      by (subst dec_loop.simps) (simp add: digits c i ac_simps)
  qed
qed

text \<open>\<open>dec2str\<close> stores the numeral of every \<open>int\<close> but the least one, whose negation
  overflows, and touches nothing outside its buffer.\<close>

lemma dec2str_written:
  assumes "number \<noteq> 0x80000000"
  obtains xs where "0 < length xs" "length xs < 20" "rev xs = decimal_text (sint number)"
    "dec2str m buf number =
       reverse_loop ((write_bytes m buf xs)(buf + of_nat (length xs) := 0)) buf 0 (of_nat (length xs) - 1)"
proof -
  let ?ds = "\<lambda>n. map (\<lambda>d. of_nat d + 0x30) (low_digits 10 n) :: u8 list"
  have len: "length (low_digits 10 n) \<le> 10" if "n < 4294967296" for n
    using length_low_digits [of 10 n 10] that by simp
  have up: "(ucast (of_nat k :: u8) :: u64) = of_nat k" if "k < 20" for k :: nat
    using that by (simp add: unsigned_of_nat take_bit_nat_eq_self)
  have "sint number = 0 \<longleftrightarrow> number = 0" by (rule signed_eq_0_iff)
  then have "number = 0 \<or> sint number < 0 \<or> 0 < sint number" by linarith
  then consider "number = 0" | "sint number < 0" | "0 < sint number" by blast
  then show thesis
  proof cases
    case 1
    then show thesis
      by (intro that [of "[0x30]"]) (simp_all add: decimal_text_def dec2str_def dec_loop.simps)
  next
    case 2
    have neg: "unat (- number) = nat \<bar>sint number\<bar>" "0 \<le> sint (- number)"
      using sint_negate [OF 2 assms] by blast+
    let ?n = "nat \<bar>sint number\<bar>"
    have l: "length (low_digits 10 ?n) \<le> 10" using len [of ?n] unat_less_32 [of "- number"] neg by simp
    have "number \<noteq> 0" using 2 by auto
    show thesis
    proof (rule that [of "?ds ?n @ [0x2D]"])
      show "rev (?ds ?n @ [0x2D]) = decimal_text (sint number)"
        using 2 by (simp add: decimal_text_def)
      show "dec2str m buf number = reverse_loop ((write_bytes m buf (?ds ?n @ [0x2D]))
          (buf + of_nat (length (?ds ?n @ [0x2D])) := 0)) buf 0 (of_nat (length (?ds ?n @ [0x2D])) - 1)"
        using 2 l \<open>number \<noteq> 0\<close> dec_loop_writes [OF neg(2), of 0 m buf] up [of "length (low_digits 10 ?n)"]
          up [of "Suc (length (low_digits 10 ?n))"]
        by (simp add: dec2str_def neg(1) write_bytes_append ac_simps)
    qed (use l in simp_all)
  next
    case 3
    let ?n = "nat \<bar>sint number\<bar>"
    have n: "?n = unat number" using 3 sint_cases [of number] sint_nonneg_iff [of number] by simp
    then have n': "nat (sint number) = unat number" using 3 by simp
    have l: "length (low_digits 10 ?n) \<le> 10" using len [of ?n] unat_less_32 [of number] n by simp
    have "number \<noteq> 0" using 3 by auto
    have "?n \<noteq> 0" using 3 by simp
    then have ne: "0 < length (low_digits 10 ?n)" by (simp add: low_digits.simps)
    show thesis
    proof (rule that [of "?ds ?n"])
      show "rev (?ds ?n) = decimal_text (sint number)"
        using 3 by (simp add: decimal_text_def)
      show "dec2str m buf number = reverse_loop ((write_bytes m buf (?ds ?n))
          (buf + of_nat (length (?ds ?n)) := 0)) buf 0 (of_nat (length (?ds ?n)) - 1)"
        using 3 l \<open>number \<noteq> 0\<close> dec_loop_writes [of number 0 m buf] up [of "length (low_digits 10 ?n)"]
        by (simp add: dec2str_def n')
    qed (use l ne in simp_all)
  qed
qed

lemma decimal_text_nonzero: "0 \<notin> set (decimal_text z)"
proof -
  have "of_nat d + 0x30 \<noteq> (0 :: u8)" if "d < 10" for d :: nat
  proof -
    have "unat (of_nat d + 0x30 :: u8) = d + 48" using that by (simp add: unat_word_ariths unat_of_nat)
    then show ?thesis by auto
  qed
  then show ?thesis
    by (auto simp: decimal_text_def dest: low_digits_less)
qed

lemma dec2str_cstr:
  assumes "number \<noteq> 0x80000000"
  shows "cstr (dec2str m buf number) buf (decimal_text (sint number))"
proof -
  obtain xs where xs: "0 < length xs" "length xs < 20" "rev xs = decimal_text (sint number)"
    "dec2str m buf number =
       reverse_loop ((write_bytes m buf xs)(buf + of_nat (length xs) := 0)) buf 0 (of_nat (length xs) - 1)"
    using dec2str_written [OF assms] by blast
  have "0 \<notin> set xs" using decimal_text_nonzero [of "sint number"] xs(3) [symmetric] by simp
  with reverse_written [OF xs(1) _ _ refl, of m buf] xs show ?thesis by simp
qed

lemma dec2str_frame:
  assumes "number \<noteq> 0x80000000" "\<not> in_range buf 256 x"
  shows "dec2str m buf number x = m x"
proof -
  obtain xs where xs: "length xs < 20"
    "dec2str m buf number =
       reverse_loop ((write_bytes m buf xs)(buf + of_nat (length xs) := 0)) buf 0 (of_nat (length xs) - 1)"
    using dec2str_written [OF assms(1)] by blast
  then show ?thesis using reverse_written_frame [OF _ assms(2) refl] by simp
qed

subsection \<open>Hexadecimal\<close>

definition hex_text :: "nat \<Rightarrow> u8 list" where
  "hex_text n =
     [0x30, 0x78] @ (if n < 16 then [0x30] else []) @
     (if n = 0 then [0x30] else rev (map ((!) ascii_numbers) (low_digits 16 n)))"

lemma ascii_numbers_eval:
  "ascii_numbers = [48, 49, 50, 51, 52, 53, 54, 55, 56, 57, 65, 66, 67, 68, 69, 70]"
  by (simp add: ascii_numbers_def ascii_def)

lemma all_below_16:
  "(\<forall>d<16. P d) \<longleftrightarrow> P 0 \<and> P 1 \<and> P 2 \<and> P 3 \<and> P 4 \<and> P 5 \<and> P 6 \<and> P 7 \<and> P 8 \<and> P 9 \<and>
     P 10 \<and> P 11 \<and> P 12 \<and> P 13 \<and> P 14 \<and> P (15::nat)"
  by (simp add: numeral_eq_Suc All_less_Suc conj_ac)

lemma hex_digit_roundtrip:
  assumes "d < 16"
  shows "hex_digit_value (ascii_numbers ! d) = of_nat d" "ascii_numbers ! d \<noteq> 0"
proof -
  have "\<forall>d<16. hex_digit_value (ascii_numbers ! d) = of_nat d \<and> ascii_numbers ! d \<noteq> 0"
    unfolding all_below_16 by (simp add: ascii_numbers_eval hex_digit_value_def)
  with assms show "hex_digit_value (ascii_numbers ! d) = of_nat d" "ascii_numbers ! d \<noteq> 0"
    by blast+
qed

lemma low_nibble: "unat ((ucast (w :: u64) :: u8) AND 0x0F) = unat w mod 16"
proof -
  have "(ucast w :: u8) AND 0x0F = take_bit 4 (ucast w)"
    by (simp add: take_bit_eq_mask mask_eq_exp_minus_1)
  also have "unat \<dots> = take_bit 4 (unat w)"
    by (simp add: unsigned_take_bit_eq unsigned_ucast_eq)
  finally show ?thesis by (simp add: take_bit_eq_mod)
qed

lemma hex_loop_writes:
  assumes "i + length (low_digits 16 (unat w)) < 200"
  shows "hex_loop m buf (of_nat i) w =
    (write_bytes m (buf + of_nat i) (map ((!) ascii_numbers) (low_digits 16 (unat w))),
     of_nat (i + length (low_digits 16 (unat w))))"
  using assms
proof (induction "unat w" arbitrary: m i w rule: less_induct)
  case less
  show ?case
  proof (cases "w = 0")
    case True
    then show ?thesis by (subst hex_loop.simps) (simp add: low_digits.simps)
  next
    case False
    then have pos: "0 < unat w" "0 < w" by (simp_all add: unat_gt_0 word_gt_0)
    have drop: "unat (drop_bit 4 w) = unat w div 16" by (simp add: drop_bit_eq_div unat_div)
    have digits: "low_digits 16 (unat w) = unat w mod 16 # low_digits 16 (unat (drop_bit 4 w))"
      using pos by (subst low_digits.simps) (simp add: drop)
    have i: "(ucast (of_nat i :: u8) :: u64) = of_nat i"
      using less.prems by (simp add: unsigned_of_nat take_bit_nat_eq_self)
    have "unat (drop_bit 4 w) < unat w" using pos by (simp add: drop)
    from less.hyps [OF this, of "Suc i"] less.prems pos show ?thesis
      by (subst hex_loop.simps) (simp add: digits i low_nibble ac_simps)
  qed
qed

lemma byte_index_up:
  "j < 200 \<Longrightarrow> (ucast (of_nat j :: u8) :: u64) = of_nat j"
  by (simp add: unsigned_of_nat take_bit_nat_eq_self)

text \<open>The characters that \<open>hex2str\<close> writes, in the order in which it writes them.\<close>

definition hex_chars :: "nat \<Rightarrow> u8 list" where
  "hex_chars n = (if n = 0 then [0x30] else map ((!) ascii_numbers) (low_digits 16 n)) @
     (if n < 16 then [0x30] else []) @ [0x78, 0x30]"

lemma rev_hex_chars: "rev (hex_chars n) = hex_text n"
  by (simp add: hex_chars_def hex_text_def)

lemma length_hex_chars: "n < 18446744073709551616 \<Longrightarrow> 0 < length (hex_chars n) \<and> length (hex_chars n) < 20"
  using length_low_digits [of 16 n 16] length_low_digits [of 16 n 1] by (auto simp: hex_chars_def)

lemma write_three:
  "write_bytes m (b + of_nat k) [x, y] = m(b + of_nat k := x, b + (of_nat k + 1) := y)"
  "write_bytes m (b + of_nat k) [x, y, z] =
     m(b + of_nat k := x, b + (of_nat k + 1) := y, b + (of_nat k + 2) := z)"
  by (simp_all add: add.assoc)

lemma hex2str_written:
  defines "xs \<equiv> \<lambda>w. hex_chars (unat w)"
  shows "hex2str m buf w =
    reverse_loop ((write_bytes m buf (xs w))(buf + of_nat (length (xs w)) := 0)) buf 0
      (of_nat (length (xs w)) - 1)"
proof (cases "w = 0")
  case True
  then show ?thesis
    by (simp add: xs_def hex_chars_def hex2str_def hex_loop.simps add.assoc)
next
  case False
  then have nz: "unat w \<noteq> 0" by (simp add: unat_eq_zero)
  let ?ds = "map ((!) ascii_numbers) (low_digits 16 (unat w))"
  define k where "k = length (low_digits 16 (unat w))"
  have k: "k \<le> 16" using length_low_digits [of 16 "unat w" 16] by (simp add: k_def)
  have loop: "hex_loop m buf 0 w = (write_bytes m buf ?ds, of_nat k)"
    using hex_loop_writes [of 0 w m buf] k by (simp add: k_def)
  have small: "w < 0x10 \<longleftrightarrow> unat w < 16" by (simp add: word_less_nat_alt)
  have idx: "(ucast (of_nat k + of_nat j :: u8) :: u64) = of_nat (k + j)" if "j < 5" for j
    using byte_index_up [of "k + j"] k that by simp
  show ?thesis
  proof (cases "unat w < 16")
    case True
    have "hex2str m buf w = reverse_loop ((write_bytes m buf ?ds)(buf + of_nat k := 0x30,
        buf + (of_nat k + 1) := 0x78, buf + (of_nat k + 2) := 0x30,
        buf + (of_nat k + 3) := 0)) buf 0 (of_nat k + 2)"
      using False True idx [of 0] idx [of 1] idx [of 2] idx [of 3]
      by (simp add: hex2str_def loop small ac_simps)
    then show ?thesis
      using True nz
      by (simp add: xs_def hex_chars_def write_bytes_append write_three k_def [symmetric] ac_simps)
  next
    case big: False
    have "hex2str m buf w = reverse_loop ((write_bytes m buf ?ds)(buf + of_nat k := 0x78,
        buf + (of_nat k + 1) := 0x30, buf + (of_nat k + 2) := 0)) buf 0 (of_nat k + 1)"
      using False big idx [of 0] idx [of 1] idx [of 2]
      by (simp add: hex2str_def loop small ac_simps)
    then show ?thesis
      using big nz
      by (simp add: xs_def hex_chars_def write_bytes_append write_three k_def [symmetric] ac_simps)
  qed
qed

lemma hex_text_nonzero: "0 \<notin> set (hex_text n)"
proof -
  have "ascii_numbers ! d \<noteq> 0" if "d \<in> set (low_digits 16 n)" for d
    using hex_digit_roundtrip(2) [OF low_digits_less [OF that]] .
  then show ?thesis by (auto simp: hex_text_def)
qed

lemma hex2str_cstr: "cstr (hex2str m buf w) buf (hex_text (unat w))"
proof -
  let ?xs = "hex_chars (unat w)"
  have "0 \<notin> set ?xs" using hex_text_nonzero [of "unat w"] by (simp flip: rev_hex_chars)
  then show ?thesis
    using reverse_written [of ?xs _ m buf, OF _ _ _ refl] length_hex_chars [of "unat w"]
    by (simp add: hex2str_written rev_hex_chars)
qed

lemma hex2str_frame: "\<not> in_range buf 256 x \<Longrightarrow> hex2str m buf w x = m x"
  using reverse_written_frame [of "hex_chars (unat w)" buf x _ m, OF _ _ refl] length_hex_chars [of "unat w"]
  by (simp add: hex2str_written)

text \<open>Reading digits back.\<close>

lemma nibble_or: "push_bit 4 v OR take_bit 4 (x::u64) = 16 * v + take_bit 4 x"
proof -
  have "push_bit 4 v AND take_bit 4 x = 0" by (rule bit_word_eqI) (auto simp: bit_simps)
  from disjunctive_add_eq_or [OF this] show ?thesis by (simp add: push_bit_eq_mult mult.commute)
qed

lemma nibble_of_nat:
  assumes "d < 16"
  shows "(of_nat d :: u8) AND 0xF = of_nat d" "take_bit 4 (of_nat d :: u64) = of_nat d"
    "ucast (of_nat d :: u8) = (of_nat d :: u64)"
proof -
  have "(of_nat d :: u8) AND 0xF = take_bit 4 (of_nat d)"
    by (simp add: take_bit_eq_mask mask_eq_exp_minus_1)
  also have "\<dots> = of_nat d"
    using assms by (simp add: word_unat_eq_iff unsigned_take_bit_eq unsigned_of_nat take_bit_nat_eq_self)
  finally show "(of_nat d :: u8) AND 0xF = of_nat d" .
  show "take_bit 4 (of_nat d :: u64) = of_nat d"
    using assms by (simp add: word_unat_eq_iff unsigned_take_bit_eq unsigned_of_nat take_bit_nat_eq_self)
  show "ucast (of_nat d :: u8) = (of_nat d :: u64)"
    using assms by (simp add: unsigned_of_nat take_bit_nat_eq_self)
qed

lemma hex2int_loop_digits:
  assumes "cstr m p (map ((!) ascii_numbers) ds)" "\<forall>d\<in>set ds. d < 16"
    "unat i + length ds < 18446744073709551616"
  shows "hex2int_loop m p (i + of_nat (length ds)) i val = foldl (\<lambda>v d. 16 * v + of_nat d) val ds"
  using assms
proof (induction ds arbitrary: p i val)
  case Nil
  then show ?case by (subst hex2int_loop.simps) simp
next
  case (Cons d ds)
  have d: "d < 16" using Cons.prems by simp
  have lt: "i < i + of_nat (length (d # ds))"
    using Cons.prems(3) by (simp add: word_less_nat_alt unat_word_ariths unat_of_nat del: of_nat_Suc)
  have i': "unat (i + 1) + length ds < 18446744073709551616"
    using Cons.prems(3) unat_Suc_less [OF lt] by simp
  have step: "push_bit 4 val OR ucast (hex_digit_value (m p) AND 0xF) = 16 * val + of_nat d"
    using Cons.prems(1) nibble_or [of val "of_nat d"] nibble_of_nat [OF d] hex_digit_roundtrip [OF d]
    by simp
  have bound: "i + of_nat (length (d # ds)) = (i + 1) + of_nat (length ds)" by simp
  have "hex2int_loop m p (i + of_nat (length (d # ds))) i val =
      hex2int_loop m (p + 1) ((i + 1) + of_nat (length ds)) (i + 1) (16 * val + of_nat d)"
    using lt unfolding bound by (subst hex2int_loop.simps) (simp add: step Let_def)
  with Cons.IH [of "p + 1" "i + 1"] Cons.prems i' show ?case by simp
qed

definition hex_digits :: "nat \<Rightarrow> nat list" where
  "hex_digits n = (if n < 16 then [0] else []) @ (if n = 0 then [0] else rev (low_digits 16 n))"

lemma foldl_rev_digits:
  "foldl (\<lambda>v d. 16 * v + of_nat d) (0 :: u64) (rev ds) = of_nat (digits_value 16 ds)"
  by (induction ds) simp_all

lemma hex2int_text:
  assumes "cstr m p (hex_text n)" "n < 18446744073709551616"
  shows "hex2int m p (of_nat (length (hex_text n) - 2)) = Some (of_nat n)"
proof -
  have z: "ascii_numbers ! 0 = 0x30" by (simp add: ascii_numbers_eval)
  have tx: "hex_text n = 0x30 # 0x78 # map ((!) ascii_numbers) (hex_digits n)"
    by (simp add: hex_text_def hex_digits_def rev_map z)
  have len: "length (hex_digits n) < 20"
    using length_hex_chars [OF assms(2)] rev_hex_chars [of n] tx by (metis length_rev
        length_Cons length_map Suc_lessD)
  have "\<forall>d\<in>set (hex_digits n). d < 16" by (auto simp: hex_digits_def dest: low_digits_less)
  then have "hex2int_loop m (p + 2) (of_nat (length (hex_digits n))) 0 0 =
      foldl (\<lambda>v d. 16 * v + of_nat d) 0 (hex_digits n)"
    using hex2int_loop_digits [of m "p + 2" "hex_digits n" 0 0] assms(1) len
    by (simp add: tx add.assoc)
  also have "\<dots> = of_nat n"
    using foldl_rev_digits [of "low_digits 16 n"]
    by (auto simp: hex_digits_def digits_value_low_digits)
  finally show ?thesis
    using assms(1) by (simp add: hex2int_def tx skip_spaces.simps [of m p])
qed

section \<open>Properties\<close>

text \<open>C25: \<open>hex2int\<close> reads back what \<open>hex2str\<close> writes, for every 64-bit number: the text is a
  terminated string whose digits after the \<open>0x\<close> give the number again, whatever the buffer held
  before.\<close>

theorem hex_text_roundtrip:
  "do { len \<leftarrow> kstrlen (hex2str m buf w) buf; hex2int (hex2str m buf w) buf (len - 2) } = Some w"
proof -
  note str = hex2str_cstr [of m buf w]
  have "2 \<le> length (hex_text (unat w))"
    using length_hex_chars [of "unat w"] by (simp add: rev_hex_chars [symmetric] hex_chars_def)
  then have "(of_nat (length (hex_text (unat w))) :: u64) - 2 = of_nat (length (hex_text (unat w)) - 2)"
    by (simp add: of_nat_diff)
  then show ?thesis
    using kstrlen_cstr [OF str] hex2int_text [OF str unat_less_64] by simp
qed



text \<open>\<open>kstrcmp\<close> returns, and it returns 0 exactly for equal strings.\<close>

theorem kstrcmp_decides:
  assumes "cstr m p s" "cstr m q t" "length s < 4294967296" "length t < 4294967296"
  shows "kstrcmp m p q = Some (if s = t then 0 else 1)"
  using assms by (rule kstrcmp_cstr)

lemma kstrcmp_decides_witness:
  "kstrcmp (write_bytes (\<lambda>_. 0) 0x1000 (ascii ''tmp'')) 0x1000 0x1001 = Some 1"
proof -
  let ?m = "write_bytes (\<lambda>_. 0) 0x1000 (ascii ''tmp'')"
  have "cstr ?m 0x1000 (ascii ''tmp'')" "cstr ?m 0x1001 (ascii ''mp'')"
    by (simp_all add: ascii_def)
  from kstrcmp_decides [OF this] show ?thesis by (simp add: ascii_def)
qed

text \<open>\<open>kmemcmp\<close> does not look at its third argument: on two strings it always returns whether
  one is a prefix of the other, for every \<open>n\<close>.\<close>

theorem kmemcmp_ignores_length:
  assumes "cstr m p s" "cstr m q t"
  shows "kmemcmp m p q n = Some (take (min (length s) (length t)) s = take (min (length s) (length t)) t)"
  using assms by (rule kmemcmp_prefix)

lemma kmemcmp_ignores_length_witness:
  "kmemcmp (write_bytes (\<lambda>_. 0) 0x1000 (ascii ''tm'')) 0x1000 0x1001 2 = Some False"
proof -
  let ?m = "write_bytes (\<lambda>_. 0) 0x1000 (ascii ''tm'')"
  have "cstr ?m 0x1000 (ascii ''tm'')" "cstr ?m 0x1001 (ascii ''m'')"
    by (simp_all add: ascii_def)
  from kmemcmp_ignores_length [OF this] show ?thesis by (simp add: ascii_def)
qed

end
