(* ===== verification/Pmm.thy ===== *)
theory Pmm
  imports Kstring
begin

text \<open>
  \<open>sys/src/mm/pmm.c\<close>: the physical page allocator.  One bit per 4096-byte frame, 1 for
  used and 0 for free, in a byte array that \<open>pmm_init\<close> places in the first usable region
  of the loader's memory map that is large enough.

  The static variables of the file are the fields of \<open>pmm_state\<close>; \<open>hhdm\<close> is the offset
  of the higher-half map (\<open>VMM_HIGHER_HALF\<close>) and \<open>memmap\<close> the list of entries of the
  loader's answer, which \<open>pmm_init\<close> changes in place.  Frames are accessed through the
  loader's identity map, the bitmap through the higher half.
\<close>

section \<open>Page arithmetic\<close>

text \<open>The macros of \<open>sys/include/mm/vmm.h\<close>.\<close>

abbreviation PAGE_SIZE :: u64 where "PAGE_SIZE \<equiv> 0x1000"

definition ALIGN_DOWN :: "u64 \<Rightarrow> u64 \<Rightarrow> u64" where
  "ALIGN_DOWN address align = address AND NOT (align - 1)"

definition ALIGN_UP :: "u64 \<Rightarrow> u64 \<Rightarrow> u64" where
  "ALIGN_UP address align = (address + align - 1) AND NOT (align - 1)"

definition PAGE_ALIGN :: "u64 \<Rightarrow> u64" where
  "PAGE_ALIGN address = ALIGN_DOWN address PAGE_SIZE"

section \<open>State\<close>

record limine_memmap_entry =
  me_base :: u64
  me_length :: u64
  me_type :: u64

abbreviation LIMINE_MEMMAP_USABLE :: u64 where "LIMINE_MEMMAP_USABLE \<equiv> 0"

record machine =
  mem :: memory

record pmm_state = machine +
  hhdm :: u64
  memmap :: "limine_memmap_entry list"
  bitmap :: u64
  usable_pages :: u64
  bitmap_size :: u64
  highest_addr :: u64

section \<open>The bitmap\<close>

definition bit_mask :: "u64 \<Rightarrow> u8" where
  "bit_mask b = push_bit (unat (b mod 8)) 1"

definition bitmap_unset_bit :: "'a pmm_state_scheme \<Rightarrow> u64 \<Rightarrow> 'a pmm_state_scheme" where
  "bitmap_unset_bit s b =
     s\<lparr>mem := (mem s)(bitmap s + b div 8 := mem s (bitmap s + b div 8) AND NOT (bit_mask b))\<rparr>"

definition bitmap_set_bit :: "'a pmm_state_scheme \<Rightarrow> u64 \<Rightarrow> 'a pmm_state_scheme" where
  "bitmap_set_bit s b =
     s\<lparr>mem := (mem s)(bitmap s + b div 8 := mem s (bitmap s + b div 8) OR bit_mask b)\<rparr>"

definition bitmap_test :: "'a pmm_state_scheme \<Rightarrow> u64 \<Rightarrow> u64" where
  "bitmap_test s b = ucast (mem s (bitmap s + b div 8) AND bit_mask b)"

section \<open>Allocation\<close>

function pmm_alloc_loop :: "'a pmm_state_scheme \<Rightarrow> u64 \<Rightarrow> u64 \<times> 'a pmm_state_scheme" where
  "pmm_alloc_loop s b =
     (if b < bitmap_size s * 8 then
        (if bitmap_test s b = 0 then
           (let s = bitmap_set_bit s b;
                s = s\<lparr>mem := kmemzero (mem s) (PAGE_SIZE * b) PAGE_SIZE\<rparr>
            in (PAGE_SIZE * b, s))
         else pmm_alloc_loop s (b + 1))
      else (0, s))"
  by pat_completeness auto
termination
  by (relation "measure (\<lambda>(s, b). unat (bitmap_size s * 8 - b))") (auto intro: loop_measure)

declare pmm_alloc_loop.simps [simp del]

definition pmm_alloc_frame :: "'a pmm_state_scheme \<Rightarrow> u64 \<times> 'a pmm_state_scheme" where
  "pmm_alloc_frame s = pmm_alloc_loop s 0"

function heap_base_loop :: "'a pmm_state_scheme \<Rightarrow> u64 \<Rightarrow> u64 \<Rightarrow> 'a pmm_state_scheme" where
  "heap_base_loop s n_frames i =
     (if i < n_frames then heap_base_loop (snd (pmm_alloc_frame s)) n_frames (i + 1) else s)"
  by pat_completeness auto
termination
  by (relation "measure (\<lambda>(s, n_frames, i). unat (n_frames - i))") (auto intro: loop_measure)

declare heap_base_loop.simps [simp del]

definition pmm_alloc_heap_base :: "'a pmm_state_scheme \<Rightarrow> u64 \<Rightarrow> u64 \<times> 'a pmm_state_scheme" where
  "pmm_alloc_heap_base s n_frames =
     (let (ret, s) = pmm_alloc_frame s in (ret, heap_base_loop s n_frames 0))"

definition pmm_free_frame :: "'a pmm_state_scheme \<Rightarrow> u64 \<Rightarrow> 'a pmm_state_scheme" where
  "pmm_free_frame s frame = bitmap_unset_bit s (frame div PAGE_SIZE)"

section \<open>Initialisation\<close>

text \<open>First loop: the highest usable address (and \<open>usable_pages\<close>, which keeps the size of the
  last usable region only).\<close>

fun scan_memmap :: "limine_memmap_entry list \<Rightarrow> 'a pmm_state_scheme \<Rightarrow> 'a pmm_state_scheme" where
  "scan_memmap [] s = s"
| "scan_memmap (entry # entries) s =
     (if me_type entry \<noteq> LIMINE_MEMMAP_USABLE then scan_memmap entries s
      else scan_memmap entries
        (s\<lparr>usable_pages := me_length entry div PAGE_SIZE,
           highest_addr := max (highest_addr s) (me_base entry + me_length entry)\<rparr>))"

text \<open>Second loop: the first usable region that can hold the bitmap gives up its first bytes.\<close>

fun place_bitmap ::
    "limine_memmap_entry list \<Rightarrow> 'a pmm_state_scheme \<Rightarrow> limine_memmap_entry list \<times> 'a pmm_state_scheme" where
  "place_bitmap [] s = ([], s)"
| "place_bitmap (entry # entries) s =
     (if me_type entry \<noteq> LIMINE_MEMMAP_USABLE then
        (let (es, s') = place_bitmap entries s in (entry # es, s'))
      else if bitmap_size s \<le> me_length entry then
        (let s = s\<lparr>bitmap := me_base entry + hhdm s\<rparr>;
             s = s\<lparr>mem := kmemset (mem s) (bitmap s) 0xFF (bitmap_size s)\<rparr>;
             entry = entry\<lparr>me_length := me_length entry - bitmap_size s,
                           me_base := me_base entry + bitmap_size s\<rparr>
         in (entry # entries, s))
      else (let (es, s') = place_bitmap entries s in (entry # es, s')))"

text \<open>Third loop: every page of a usable region is marked free.  The counter \<open>j\<close> steps by a
  page and could pass the end of the 64-b range without meeting its bound.\<close>

partial_function (option) unset_pages ::
    "limine_memmap_entry \<Rightarrow> 'a pmm_state_scheme \<Rightarrow> u64 \<Rightarrow> 'a pmm_state_scheme option" where
  "unset_pages entry s j =
     (if j < me_length entry then
        unset_pages entry (bitmap_unset_bit s ((me_base entry + j) div PAGE_SIZE)) (j + PAGE_SIZE)
      else Some s)"

fun unset_usable :: "limine_memmap_entry list \<Rightarrow> 'a pmm_state_scheme \<Rightarrow> 'a pmm_state_scheme option" where
  "unset_usable [] s = Some s"
| "unset_usable (entry # entries) s =
     (if me_type entry \<noteq> LIMINE_MEMMAP_USABLE then unset_usable entries s
      else do { s \<leftarrow> unset_pages entry s 0; unset_usable entries s })"

definition pmm_init :: "'a pmm_state_scheme \<Rightarrow> 'a pmm_state_scheme option" where
  "pmm_init s =
     (let s = scan_memmap (memmap s) s;
          s = s\<lparr>bitmap_size := ALIGN_UP ((highest_addr s div PAGE_SIZE) div 8) PAGE_SIZE\<rparr>;
          (entries, s) = place_bitmap (memmap s) s;
          s = s\<lparr>memmap := entries\<rparr>
      in unset_usable (memmap s) s)"

section \<open>Free frames\<close>

text \<open>Frame \<open>n\<close> is free when its bit, inside the bitmap, is 0.\<close>

definition frame_free :: "'a pmm_state_scheme \<Rightarrow> nat \<Rightarrow> bool" where
  "frame_free s n \<longleftrightarrow>
     n < unat (bitmap_size s) * 8 \<and> \<not> bit (mem s (bitmap s + of_nat (n div 8))) (n mod 8)"

text \<open>The invariant of the allocator: the bitmap describes at most 2^40 frames, lies in the
  higher half and does not wrap, and frame 0 is never free.\<close>

definition pmm_ok :: "'a pmm_state_scheme \<Rightarrow> bool" where
  "pmm_ok s \<longleftrightarrow> unat (bitmap_size s) \<le> 137438953472 \<and> 4503599627370496 \<le> unat (bitmap s) \<and>
     unat (bitmap s) + unat (bitmap_size s) \<le> 18446744073709551616 \<and> \<not> frame_free s 0"

definition in_bitmap :: "'a pmm_state_scheme \<Rightarrow> u64 \<Rightarrow> bool" where
  "in_bitmap s x \<longleftrightarrow> in_range (bitmap s) (bitmap_size s) x"

lemma bit_mask_eq: "bit_mask b = push_bit (unat b mod 8) 1"
  by (simp add: bit_mask_def unat_mod)

lemma word_div_8: "(b :: u64) div 8 = of_nat (unat b div 8)"
proof -
  have "unat b div 8 < 18446744073709551616"
    using unat_less_64 [of b] by (rule le_less_trans [OF div_le_dividend])
  then show ?thesis by (simp add: word_unat_eq_iff unat_div unat_of_nat)
qed

lemma bit_single [simp]: "k < 8 \<Longrightarrow> bit (2 ^ k :: u8) j \<longleftrightarrow> j = k"
  by (auto simp: bit_exp_iff)

lemma bitmap_test_zero:
  "bitmap_test s b = 0 \<longleftrightarrow> \<not> bit (mem s (bitmap s + of_nat (unat b div 8))) (unat b mod 8)"
proof -
  have "w AND push_bit k 1 = 0 \<longleftrightarrow> \<not> bit w k" for w :: u8 and k
    by (simp only: bit_iff_and_push_bit_not_eq_0 not_not)
  moreover have "(ucast w :: u64) = 0 \<longleftrightarrow> w = 0" for w :: u8
    by (simp add: word_unat_eq_iff)
  ultimately show ?thesis by (simp add: bitmap_test_def bit_mask_eq word_div_8 del: push_bit_of_1)
qed

lemma frame_free_test:
  "unat b < unat (bitmap_size s) * 8 \<Longrightarrow> frame_free s (unat b) \<longleftrightarrow> bitmap_test s b = 0"
  by (simp add: frame_free_def bitmap_test_zero)

lemma byte_index_inj:
  assumes "n < 18446744073709551616" "k < 18446744073709551616"
  shows "p + of_nat (n div 8) = p + (of_nat (k div 8) :: u64) \<longleftrightarrow> n div 8 = k div 8"
  using assms of_nat_inj_64 [of "n div 8" "k div 8"] by auto

lemma frame_split: "(n :: nat) = k \<longleftrightarrow> n div 8 = k div 8 \<and> n mod 8 = k mod 8"
  by (metis div_mult_mod_eq)

lemma frame_free_set_bit:
  assumes "unat (bitmap_size s) * 8 \<le> 18446744073709551616"
  shows "frame_free (bitmap_set_bit s b) n \<longleftrightarrow> frame_free s n \<and> n \<noteq> unat b"
proof (cases "n < unat (bitmap_size s) * 8")
  case True
  then have "n < 18446744073709551616" using assms by simp
  from byte_index_inj [OF this, of "unat b" "bitmap s"] True show ?thesis
    by (auto simp: frame_free_def bitmap_set_bit_def bit_mask_eq word_div_8 bit_or_iff frame_split [of n])
qed (simp add: frame_free_def bitmap_set_bit_def)

lemma frame_free_unset_bit:
  assumes "unat (bitmap_size s) * 8 \<le> 18446744073709551616"
  shows "frame_free (bitmap_unset_bit s b) n \<longleftrightarrow>
    n < unat (bitmap_size s) * 8 \<and> (frame_free s n \<or> n = unat b)"
proof (cases "n < unat (bitmap_size s) * 8")
  case True
  then have "n < 18446744073709551616" using assms by simp
  from byte_index_inj [OF this, of "unat b" "bitmap s"] True show ?thesis
    by (auto simp: frame_free_def bitmap_unset_bit_def bit_mask_eq word_div_8 bit_and_iff bit_not_iff
        frame_split [of n])
qed (simp add: frame_free_def bitmap_unset_bit_def)

lemma frame_free_cong:
  assumes "bitmap_size s' = bitmap_size s" "bitmap s' = bitmap s"
    "\<And>x. in_bitmap s x \<Longrightarrow> mem s' x = mem s x"
  shows "frame_free s' n \<longleftrightarrow> frame_free s n"
proof -
  have "in_bitmap s (bitmap s + of_nat (n div 8))" if "n < unat (bitmap_size s) * 8"
  proof -
    have k: "n div 8 < unat (bitmap_size s)" using that by simp
    then have "n div 8 < 18446744073709551616" using unat_less_64 less_trans by blast
    with k show ?thesis by (simp add: in_bitmap_def in_range_def word_less_nat_alt unat_of_nat)
  qed
  with assms show ?thesis by (auto simp: frame_free_def)
qed

section \<open>What an allocation does\<close>

definition claim_frame :: "'a pmm_state_scheme \<Rightarrow> nat \<Rightarrow> 'a pmm_state_scheme" where
  "claim_frame s n =
     (let s = bitmap_set_bit s (of_nat n)
      in s\<lparr>mem := kmemzero (mem s) (PAGE_SIZE * of_nat n) PAGE_SIZE\<rparr>)"

lemma pmm_ok_size:
  assumes "pmm_ok s"
  shows "unat (bitmap_size s * 8) = unat (bitmap_size s) * 8"
    "unat (bitmap_size s) * 8 \<le> 1099511627776"
  using assms by (simp_all add: pmm_ok_def unat_word_ariths)

lemma alloc_loop_none:
  assumes "pmm_ok s" "\<And>n. unat b \<le> n \<Longrightarrow> \<not> frame_free s n"
  shows "pmm_alloc_loop s b = (0, s)"
  using assms
proof (induction s b rule: pmm_alloc_loop.induct)
  case (1 s b)
  show ?case
  proof (cases "b < bitmap_size s * 8")
    case True
    then have lt: "unat b < unat (bitmap_size s) * 8"
      using pmm_ok_size [OF "1.prems"(1)] by (simp add: word_less_nat_alt)
    then have t: "bitmap_test s b \<noteq> 0" using "1.prems"(2) [of "unat b"] frame_free_test by blast
    have "\<not> frame_free s n" if "unat (b + 1) \<le> n" for n
      using "1.prems"(2) [of n] that unat_Suc_less [OF True] by simp
    from "1.IH" [OF True t "1.prems"(1) this] show ?thesis
      using True t by (subst pmm_alloc_loop.simps) simp
  next
    case False
    then show ?thesis by (subst pmm_alloc_loop.simps) simp
  qed
qed

lemma alloc_loop_first:
  assumes "pmm_ok s" "frame_free s n" "unat b \<le> n" "\<And>k. unat b \<le> k \<Longrightarrow> k < n \<Longrightarrow> \<not> frame_free s k"
  shows "pmm_alloc_loop s b = (PAGE_SIZE * of_nat n, claim_frame s n)"
  using assms
proof (induction s b rule: pmm_alloc_loop.induct)
  case (1 s b)
  have "n < unat (bitmap_size s) * 8" using "1.prems"(2) by (simp add: frame_free_def)
  with "1.prems"(3) have lt: "unat b < unat (bitmap_size s) * 8" by simp
  then have bound: "b < bitmap_size s * 8"
    using pmm_ok_size [OF "1.prems"(1)] by (simp add: word_less_nat_alt)
  show ?case
  proof (cases "unat b = n")
    case True
    then have "bitmap_test s b = 0" "b = of_nat n"
      using "1.prems"(2) frame_free_test [OF lt] by auto
    with bound show ?thesis
      by (subst pmm_alloc_loop.simps) (simp add: claim_frame_def Let_def)
  next
    case False
    then have t: "bitmap_test s b \<noteq> 0"
      using "1.prems"(3) "1.prems"(4) [of "unat b"] frame_free_test [OF lt] by auto
    have "pmm_alloc_loop s (b + 1) = (PAGE_SIZE * of_nat n, claim_frame s n)"
      using "1.IH" [OF bound t "1.prems"(1,2)] "1.prems"(3,4) False unat_Suc_less [OF bound] by simp
    with bound t show ?thesis by (subst pmm_alloc_loop.simps) simp
  qed
qed

lemma pmm_alloc_frame_cases:
  assumes "pmm_ok s"
  obtains (none) "\<And>n. \<not> frame_free s n" "pmm_alloc_frame s = (0, s)"
    | (some) n where "frame_free s n" "\<And>k. k < n \<Longrightarrow> \<not> frame_free s k"
      "pmm_alloc_frame s = (PAGE_SIZE * of_nat n, claim_frame s n)"
proof (cases "\<exists>n. frame_free s n")
  case True
  define n where "n = (LEAST n. frame_free s n)"
  have n: "frame_free s n" "\<And>k. k < n \<Longrightarrow> \<not> frame_free s k"
    using True by (auto simp: n_def intro: LeastI_ex dest: not_less_Least)
  with alloc_loop_first [OF assms n(1), of 0] show thesis
    by (intro some [of n]) (auto simp: pmm_alloc_frame_def)
next
  case False
  with alloc_loop_none [OF assms, of 0] show thesis
    by (intro none) (auto simp: pmm_alloc_frame_def)
qed

text \<open>The address of a frame that the bitmap describes.\<close>

lemma frame_address:
  assumes "pmm_ok s" "frame_free s n"
  shows "unat (PAGE_SIZE * of_nat n) = 4096 * n" "n < 1099511627776" "0 < n"
proof -
  have "n < unat (bitmap_size s) * 8" using assms(2) by (simp add: frame_free_def)
  then show n: "n < 1099511627776" using pmm_ok_size [OF assms(1)] by simp
  then show "unat (PAGE_SIZE * of_nat n) = 4096 * n" by (simp add: unat_word_ariths unat_of_nat)
  show "0 < n" using assms by (cases n) (auto simp: pmm_ok_def)
qed

lemma claim_frame_fields [simp]:
  "bitmap_size (claim_frame s n) = bitmap_size s" "bitmap (claim_frame s n) = bitmap s"
  "hhdm (claim_frame s n) = hhdm s" "memmap (claim_frame s n) = memmap s"
  "usable_pages (claim_frame s n) = usable_pages s" "highest_addr (claim_frame s n) = highest_addr s"
  "pmm_state.more (claim_frame s n) = pmm_state.more s"
  by (simp_all add: claim_frame_def bitmap_set_bit_def Let_def)

text \<open>Frames as pages of the address space.\<close>

lemma unat_frame: "j < 1099511627776 \<Longrightarrow> unat (PAGE_SIZE * of_nat j) = 4096 * j"
  by (simp add: unat_word_ariths unat_of_nat)

lemma pages_apart:
  assumes "k < 1099511627776" "l < 1099511627776" "k \<noteq> l" "in_range (PAGE_SIZE * of_nat k) PAGE_SIZE x"
  shows "\<not> in_range (PAGE_SIZE * of_nat l) PAGE_SIZE x"
proof -
  have "ranges_disjoint (PAGE_SIZE * of_nat k) PAGE_SIZE (PAGE_SIZE * of_nat l) PAGE_SIZE"
  proof (cases "k < l")
    case True
    then show ?thesis using assms by (intro ranges_disjoint_linear) (simp_all add: unat_frame)
  next
    case False
    then have "l < k" using assms(3) by simp
    then show ?thesis unfolding ranges_disjoint_sym [of "PAGE_SIZE * of_nat k"]
      using assms by (intro ranges_disjoint_linear) (simp_all add: unat_frame)
  qed
  then show ?thesis using assms(4) ranges_disjointD by blast
qed

lemma page_not_in_bitmap:
  assumes "pmm_ok s" "k < 1099511627776" "in_range (PAGE_SIZE * of_nat k) PAGE_SIZE x"
  shows "\<not> in_bitmap s x"
proof -
  have "ranges_disjoint (PAGE_SIZE * of_nat k) PAGE_SIZE (bitmap s) (bitmap_size s)"
    using assms(1,2) by (intro ranges_disjoint_linear) (auto simp: pmm_ok_def unat_frame)
  then show ?thesis using assms(3) ranges_disjointD by (auto simp: in_bitmap_def)
qed

lemma frame_not_in_bitmap:
  assumes "pmm_ok s" "frame_free s n" "in_bitmap s x"
  shows "\<not> in_range (PAGE_SIZE * of_nat n) PAGE_SIZE x"
  using page_not_in_bitmap [OF assms(1) frame_address(2) [OF assms(1,2)]] assms(3) by blast

lemma in_bitmap_byte:
  assumes "n < unat (bitmap_size s) * 8"
  shows "in_bitmap s (bitmap s + of_nat (n div 8))"
proof -
  have k: "n div 8 < unat (bitmap_size s)" using assms by simp
  then have "n div 8 < 18446744073709551616" using unat_less_64 less_trans by blast
  with k show ?thesis by (simp add: in_bitmap_def in_range_def word_less_nat_alt unat_of_nat)
qed

lemma claim_frame_spec:
  assumes "pmm_ok s" "frame_free s n"
  shows "frame_free (claim_frame s n) k \<longleftrightarrow> frame_free s k \<and> k \<noteq> n"
    and "in_range (PAGE_SIZE * of_nat n) PAGE_SIZE x \<Longrightarrow> mem (claim_frame s n) x = 0"
    and "\<not> in_range (PAGE_SIZE * of_nat n) PAGE_SIZE x \<Longrightarrow> \<not> in_bitmap s x \<Longrightarrow>
      mem (claim_frame s n) x = mem s x"
    and "pmm_ok (claim_frame s n)"
proof -
  have n: "n < unat (bitmap_size s) * 8" "unat (of_nat n :: u64) = n"
    using frame_address [OF assms] assms(2) by (simp_all add: frame_free_def unat_of_nat)
  have "frame_free (claim_frame s n) k \<longleftrightarrow> frame_free (bitmap_set_bit s (of_nat n)) k" for k
    by (rule frame_free_cong)
      (use frame_not_in_bitmap [OF assms] in
        \<open>auto simp: claim_frame_def bitmap_set_bit_def in_bitmap_def closed_form Let_def\<close>)
  then show free: "frame_free (claim_frame s n) k \<longleftrightarrow> frame_free s k \<and> k \<noteq> n" for k
    using pmm_ok_size(2) [OF assms(1)] n(2) by (simp add: frame_free_set_bit)
  show "in_range (PAGE_SIZE * of_nat n) PAGE_SIZE x \<Longrightarrow> mem (claim_frame s n) x = 0"
    by (simp add: claim_frame_def closed_form Let_def)
  show "\<not> in_range (PAGE_SIZE * of_nat n) PAGE_SIZE x \<Longrightarrow> \<not> in_bitmap s x \<Longrightarrow>
      mem (claim_frame s n) x = mem s x"
    using in_bitmap_byte [OF n(1)] n(2)
    by (auto simp: claim_frame_def bitmap_set_bit_def closed_form Let_def word_div_8)
  show "pmm_ok (claim_frame s n)" using assms(1) free [of 0] by (simp add: pmm_ok_def)
qed

section \<open>The contract of a frame allocator\<close>

text \<open>What the rest of the kernel may rely on.  \<open>free\<close> are the numbers of the frames the
  allocator can still hand out, \<open>own\<close> the addresses of its own bookkeeping.\<close>

locale frame_allocator =
  fixes alloc :: "'s \<Rightarrow> u64 \<times> 's" and free :: "'s \<Rightarrow> nat set" and bytes :: "'s \<Rightarrow> memory"
    and own :: "'s \<Rightarrow> u64 \<Rightarrow> bool" and ok :: "'s \<Rightarrow> bool"
  assumes ok_alloc: "ok s \<Longrightarrow> ok (snd (alloc s))"
    and alloc_fails: "ok s \<Longrightarrow> fst (alloc s) = 0 \<Longrightarrow> free s = {} \<and> snd (alloc s) = s"
    and alloc_takes: "ok s \<Longrightarrow> fst (alloc s) \<noteq> 0 \<Longrightarrow>
      \<exists>n\<in>free s. unat (fst (alloc s)) = 4096 * n \<and> free (snd (alloc s)) = free s - {n}"
    and alloc_zeroes: "ok s \<Longrightarrow> fst (alloc s) \<noteq> 0 \<Longrightarrow> in_range (fst (alloc s)) PAGE_SIZE x \<Longrightarrow>
      bytes (snd (alloc s)) x = 0"
    and alloc_keeps: "ok s \<Longrightarrow> \<not> own s x \<Longrightarrow>
      fst (alloc s) = 0 \<or> \<not> in_range (fst (alloc s)) PAGE_SIZE x \<Longrightarrow> bytes (snd (alloc s)) x = bytes s x"
    and own_alloc: "ok s \<Longrightarrow> own (snd (alloc s)) = own s"
    and free_low: "ok s \<Longrightarrow> n \<in> free s \<Longrightarrow> 0 < n \<and> n < 1099511627776"
begin

lemma alloc_number:
  assumes "ok s" "fst (alloc s) \<noteq> 0"
  obtains n where "n \<in> free s" "fst (alloc s) = PAGE_SIZE * of_nat n" "free (snd (alloc s)) = free s - {n}"
    "0 < n" "n < 1099511627776"
proof -
  obtain n where n: "n \<in> free s" "unat (fst (alloc s)) = 4096 * n" "free (snd (alloc s)) = free s - {n}"
    using alloc_takes [OF assms] by blast
  moreover have "unat (PAGE_SIZE * of_nat n) = 4096 * n"
    using free_low [OF assms(1) n(1)] by (simp add: unat_word_ariths unat_of_nat)
  ultimately show thesis using that free_low [OF assms(1) n(1)] by (metis word_unat_eq_iff)
qed

text \<open>Two allocations in a row never return the same frame.\<close>

lemma alloc_twice_distinct:
  assumes "ok s" "fst (alloc s) \<noteq> 0"
  shows "fst (alloc (snd (alloc s))) \<noteq> fst (alloc s)"
proof
  assume same: "fst (alloc (snd (alloc s))) = fst (alloc s)"
  obtain n where n: "n \<in> free s" "unat (fst (alloc s)) = 4096 * n" "free (snd (alloc s)) = free s - {n}"
    using alloc_takes [OF assms] by blast
  obtain k where "k \<in> free (snd (alloc s))" "unat (fst (alloc (snd (alloc s)))) = 4096 * k"
    using alloc_takes [OF ok_alloc [OF assms(1)]] assms(2) same by metis
  with n same show False by auto
qed

text \<open>A frame that is not free keeps its contents.\<close>

lemma alloc_preserves_used:
  assumes "ok s" "k \<notin> free s" "k < 1099511627776" "\<not> own s x"
    "in_range (PAGE_SIZE * of_nat k) PAGE_SIZE x"
  shows "bytes (snd (alloc s)) x = bytes s x"
proof (cases "fst (alloc s) = 0")
  case False
  then obtain n where n: "n \<in> free s" "fst (alloc s) = PAGE_SIZE * of_nat n" "n < 1099511627776"
    using alloc_number [OF assms(1)] by metis
  with assms(2) have "n \<noteq> k" by blast
  then have "\<not> in_range (PAGE_SIZE * of_nat n) PAGE_SIZE x"
    using pages_apart [OF assms(3) n(3) _ assms(5)] by blast
  then show ?thesis using alloc_keeps [OF assms(1,4)] n(2) by metis
qed (use alloc_fails assms(1) in simp)

end

text \<open>A frame can be given back: the extended contract.\<close>

locale frame_allocator_release = frame_allocator +
  fixes release :: "'s \<Rightarrow> u64 \<Rightarrow> 's" and limit :: "'s \<Rightarrow> nat"
  assumes free_release: "ok s \<Longrightarrow> 0 < n \<Longrightarrow> n < limit s \<Longrightarrow>
      free (release s (PAGE_SIZE * of_nat n)) = insert n (free s)"
    and ok_release: "ok s \<Longrightarrow> 0 < n \<Longrightarrow> n < limit s \<Longrightarrow> ok (release s (PAGE_SIZE * of_nat n))"
    and limit_alloc: "ok s \<Longrightarrow> limit (snd (alloc s)) = limit s"
    and free_limit: "n \<in> free s \<Longrightarrow> n < limit s"
begin

text \<open>Releasing what was just allocated restores the set of free frames.\<close>

lemma release_alloc:
  assumes "ok s" "fst (alloc s) \<noteq> 0"
  shows "free (release (snd (alloc s)) (fst (alloc s))) = free s"
proof -
  obtain n where n: "n \<in> free s" "fst (alloc s) = PAGE_SIZE * of_nat n" "free (snd (alloc s)) = free s - {n}"
    "0 < n" using alloc_number [OF assms] by metis
  have "n < limit (snd (alloc s))" using free_limit [OF n(1)] limit_alloc [OF assms(1)] by simp
  from free_release [OF ok_alloc [OF assms(1)] n(4) this] n show ?thesis by (simp add: insert_absorb)
qed

end

interpretation pmm: frame_allocator pmm_alloc_frame "\<lambda>s. {n. frame_free s n}" mem in_bitmap pmm_ok
proof unfold_locales
  fix s :: "'a pmm_state_scheme" and x :: u64 and n :: nat
  assume ok: "pmm_ok s"
  show "pmm_ok (snd (pmm_alloc_frame s))"
    by (rule pmm_alloc_frame_cases [OF ok]) (simp_all add: ok claim_frame_spec(4))
  have zero: "PAGE_SIZE * of_nat k \<noteq> 0" if "frame_free s k" for k
    using frame_address [OF ok that] by (metis mult_is_0 not_gr_zero unsigned_0 zero_neq_numeral)
  show "fst (pmm_alloc_frame s) = 0 \<Longrightarrow> {n. frame_free s n} = {} \<and> snd (pmm_alloc_frame s) = s"
    by (rule pmm_alloc_frame_cases [OF ok]) (use zero in auto)
  show "fst (pmm_alloc_frame s) \<noteq> 0 \<Longrightarrow> \<exists>n\<in>{n. frame_free s n}.
      unat (fst (pmm_alloc_frame s)) = 4096 * n \<and>
      {n. frame_free (snd (pmm_alloc_frame s)) n} = {n. frame_free s n} - {n}"
    by (rule pmm_alloc_frame_cases [OF ok])
      (auto simp: frame_address [OF ok] claim_frame_spec(1) [OF ok])
  show "fst (pmm_alloc_frame s) \<noteq> 0 \<Longrightarrow> in_range (fst (pmm_alloc_frame s)) PAGE_SIZE x \<Longrightarrow>
      mem (snd (pmm_alloc_frame s)) x = 0"
    by (rule pmm_alloc_frame_cases [OF ok]) (auto simp: claim_frame_spec(2) [OF ok])
  show "\<not> in_bitmap s x \<Longrightarrow> fst (pmm_alloc_frame s) = 0 \<or>
      \<not> in_range (fst (pmm_alloc_frame s)) PAGE_SIZE x \<Longrightarrow> mem (snd (pmm_alloc_frame s)) x = mem s x"
    by (rule pmm_alloc_frame_cases [OF ok]) (use zero in \<open>auto simp: claim_frame_spec(3) [OF ok]\<close>)
  show "in_bitmap (snd (pmm_alloc_frame s)) = in_bitmap s"
    by (rule pmm_alloc_frame_cases [OF ok]) (auto simp: in_bitmap_def fun_eq_iff)
  show "n \<in> {n. frame_free s n} \<Longrightarrow> 0 < n \<and> n < 1099511627776"
    using frame_address [OF ok] by auto
qed

lemma pmm_free_frame_spec:
  assumes "pmm_ok s" "0 < n" "n < unat (bitmap_size s) * 8"
  shows "frame_free (pmm_free_frame s (PAGE_SIZE * of_nat n)) k \<longleftrightarrow> frame_free s k \<or> k = n"
    and "pmm_ok (pmm_free_frame s (PAGE_SIZE * of_nat n))"
proof -
  have n: "n < 1099511627776" using assms(3) pmm_ok_size(2) [OF assms(1)] by simp
  then have "unat (PAGE_SIZE * of_nat n div PAGE_SIZE) = n"
    by (simp add: unat_div unat_word_ariths unat_of_nat)
  then show free: "frame_free (pmm_free_frame s (PAGE_SIZE * of_nat n)) k \<longleftrightarrow> frame_free s k \<or> k = n" for k
    using pmm_ok_size(2) [OF assms(1)] assms(3)
    by (auto simp: pmm_free_frame_def frame_free_unset_bit) (auto simp: frame_free_def)
  have "bitmap (pmm_free_frame s p) = bitmap s" "bitmap_size (pmm_free_frame s p) = bitmap_size s" for p
    by (simp_all add: pmm_free_frame_def bitmap_unset_bit_def)
  then show "pmm_ok (pmm_free_frame s (PAGE_SIZE * of_nat n))"
    using assms free [of 0] by (simp add: pmm_ok_def)
qed

interpretation pmm: frame_allocator_release pmm_alloc_frame "\<lambda>s. {n. frame_free s n}" mem in_bitmap pmm_ok
  pmm_free_frame "\<lambda>s. unat (bitmap_size s) * 8"
proof unfold_locales
  fix s :: "'a pmm_state_scheme" and n :: nat
  show "n \<in> {n. frame_free s n} \<Longrightarrow> n < unat (bitmap_size s) * 8"
    by (simp add: frame_free_def)
  assume ok: "pmm_ok s"
  show "unat (bitmap_size (snd (pmm_alloc_frame s))) * 8 = unat (bitmap_size s) * 8"
    by (rule pmm_alloc_frame_cases [OF ok]) simp_all
  assume n: "0 < n" "n < unat (bitmap_size s) * 8"
  show "{k. frame_free (pmm_free_frame s (PAGE_SIZE * of_nat n)) k} = insert n {k. frame_free s k}"
    using pmm_free_frame_spec(1) [OF ok n] by auto
  show "pmm_ok (pmm_free_frame s (PAGE_SIZE * of_nat n))"
    using pmm_free_frame_spec(2) [OF ok n] .
qed

text \<open>Only the memory changes.\<close>

lemma pmm_alloc_loop_mem: "snd (pmm_alloc_loop s b) = s\<lparr>mem := mem (snd (pmm_alloc_loop s b))\<rparr>"
proof (induction s b rule: pmm_alloc_loop.induct)
  case (1 s b)
  show ?case
  proof (cases "b < bitmap_size s * 8 \<and> bitmap_test s b \<noteq> 0")
    case True
    then have "pmm_alloc_loop s b = pmm_alloc_loop s (b + 1)" by (subst pmm_alloc_loop.simps) simp
    with True "1.IH" show ?thesis by simp
  next
    case False
    then show ?thesis
      by (subst (1 2) pmm_alloc_loop.simps) (auto simp: bitmap_set_bit_def Let_def)
  qed
qed

lemma pmm_alloc_frame_mem: "snd (pmm_alloc_frame s) = s\<lparr>mem := mem (snd (pmm_alloc_frame s))\<rparr>"
  unfolding pmm_alloc_frame_def by (rule pmm_alloc_loop_mem)

lemma pmm_alloc_fields [simp]:
  "bitmap (snd (pmm_alloc_frame s)) = bitmap s"
  "bitmap_size (snd (pmm_alloc_frame s)) = bitmap_size s"
  "hhdm (snd (pmm_alloc_frame s)) = hhdm s"
  "memmap (snd (pmm_alloc_frame s)) = memmap s"
  "pmm_state.more (snd (pmm_alloc_frame s)) = pmm_state.more s"
  by (subst pmm_alloc_frame_mem, simp)+

section \<open>The frames of the heap\<close>

text \<open>\<open>first_run s a k\<close>: frame \<open>a\<close> is the lowest free one and the \<open>k\<close> frames from it on are free.\<close>

definition first_run :: "'a pmm_state_scheme \<Rightarrow> nat \<Rightarrow> nat \<Rightarrow> bool" where
  "first_run s a k \<longleftrightarrow> (\<forall>j<a. \<not> frame_free s j) \<and> (\<forall>j<k. frame_free s (a + j))"

lemma alloc_first_run:
  assumes "pmm_ok s" "first_run s a (Suc k)"
  shows "pmm_alloc_frame s = (PAGE_SIZE * of_nat a, claim_frame s a)"
    "first_run (claim_frame s a) (Suc a) k"
proof -
  have a: "frame_free s a" "\<And>j. j < a \<Longrightarrow> \<not> frame_free s j"
    using assms(2) by (auto simp: first_run_def dest: spec [of _ 0])
  show "pmm_alloc_frame s = (PAGE_SIZE * of_nat a, claim_frame s a)"
    using alloc_loop_first [OF assms(1) a(1), of 0] a(2) by (simp add: pmm_alloc_frame_def)
  have "frame_free s (Suc a + j)" if "j < k" for j
    using assms(2) that by (auto simp: first_run_def dest: spec [of _ "Suc j"])
  then show "first_run (claim_frame s a) (Suc a) k"
    using a(2) by (auto simp: first_run_def claim_frame_spec(1) [OF assms(1) a(1)] less_Suc_eq)
qed

lemma heap_base_loop_run:
  assumes "pmm_ok s" "i \<le> n" "first_run s a (unat (n - i))"
  shows "pmm_ok (heap_base_loop s n i) \<and>
     (\<forall>k. frame_free (heap_base_loop s n i) k \<longleftrightarrow> frame_free s k \<and> \<not> (a \<le> k \<and> k < a + unat (n - i)))"
  using assms
proof (induction s n i arbitrary: a rule: heap_base_loop.induct)
  case (1 s n i)
  show ?case
  proof (cases "i < n")
    case False
    then show ?thesis using 1 by (subst (1 2) heap_base_loop.simps) auto
  next
    case True
    have steps: "unat (n - i) = Suc (unat (n - (i + 1)))" "i + 1 \<le> n"
    proof -
      show "i + 1 \<le> n" using True unat_Suc_less [OF True] by (simp add: word_le_nat_alt word_less_nat_alt)
      then show "unat (n - i) = Suc (unat (n - (i + 1)))"
        using True unat_Suc_less [OF True] by (simp add: unat_sub word_le_nat_alt word_less_nat_alt)
    qed
    have run: "first_run s a (Suc (unat (n - (i + 1))))" using "1.prems"(3) steps(1) by simp
    note al = alloc_first_run [OF "1.prems"(1) run]
    have a: "frame_free s a" using run by (auto simp: first_run_def dest: spec [of _ 0])
    have "heap_base_loop s n i = heap_base_loop (claim_frame s a) n (i + 1)"
      using True al(1) by (subst heap_base_loop.simps) simp
    with "1.IH" [OF True, of "Suc a"] al claim_frame_spec [OF "1.prems"(1) a] steps
    show ?thesis by (auto simp: le_Suc_eq)
  qed
qed

lemma pmm_alloc_heap_base_run:
  assumes "pmm_ok s" "first_run s a (Suc (unat n_frames))"
  shows "fst (pmm_alloc_heap_base s n_frames) = PAGE_SIZE * of_nat a"
    "pmm_ok (snd (pmm_alloc_heap_base s n_frames))"
    "frame_free (snd (pmm_alloc_heap_base s n_frames)) k \<longleftrightarrow>
       frame_free s k \<and> \<not> (a \<le> k \<and> k \<le> a + unat n_frames)"
proof -
  have a: "frame_free s a" using assms(2) by (auto simp: first_run_def dest: spec [of _ 0])
  note al = alloc_first_run [OF assms] and claim = claim_frame_spec [OF assms(1) a]
  show "fst (pmm_alloc_heap_base s n_frames) = PAGE_SIZE * of_nat a"
    using al by (simp add: pmm_alloc_heap_base_def)
  show "pmm_ok (snd (pmm_alloc_heap_base s n_frames))"
    "frame_free (snd (pmm_alloc_heap_base s n_frames)) k \<longleftrightarrow>
       frame_free s k \<and> \<not> (a \<le> k \<and> k \<le> a + unat n_frames)"
    using heap_base_loop_run [of "claim_frame s a" 0 n_frames "Suc a"] al claim
    by (auto simp: pmm_alloc_heap_base_def le_Suc_eq)
qed

section \<open>Initialisation is correct\<close>

text \<open>What the loader guarantees about usable regions (the Limine protocol): page-aligned, not
  overlapping, above the first page, and within the part of memory that the higher half maps.\<close>

definition entry_wf :: "limine_memmap_entry \<Rightarrow> bool" where
  "entry_wf e \<longleftrightarrow> me_type e = LIMINE_MEMMAP_USABLE \<longrightarrow>
     4096 dvd unat (me_base e) \<and> 4096 dvd unat (me_length e) \<and> 4096 \<le> unat (me_base e) \<and>
     unat (me_base e) + unat (me_length e) \<le> 70368744177664"

definition usable_frame :: "limine_memmap_entry \<Rightarrow> nat \<Rightarrow> bool" where
  "usable_frame e n \<longleftrightarrow> me_type e = LIMINE_MEMMAP_USABLE \<and>
     unat (me_base e) \<le> 4096 * n \<and> 4096 * n < unat (me_base e) + unat (me_length e)"

lemma bitmap_unset_bit_fields [simp]:
  "bitmap (bitmap_unset_bit s b) = bitmap s" "bitmap_size (bitmap_unset_bit s b) = bitmap_size s"
  "memmap (bitmap_unset_bit s b) = memmap s" "hhdm (bitmap_unset_bit s b) = hhdm s"
  "highest_addr (bitmap_unset_bit s b) = highest_addr s"
  "usable_pages (bitmap_unset_bit s b) = usable_pages s"
  by (simp_all add: bitmap_unset_bit_def)

text \<open>A region of \<open>k\<close> more pages from page \<open>i\<close> of the entry on.\<close>

lemma unset_pages_spec:
  assumes "entry_wf e" "me_type e = LIMINE_MEMMAP_USABLE"
    "unat (bitmap_size s) * 8 \<le> 1099511627776"
    "4096 * i \<le> unat (me_length e)"
  shows "\<exists>s'. unset_pages e s (of_nat (4096 * i)) = Some s' \<and>
     bitmap s' = bitmap s \<and> bitmap_size s' = bitmap_size s \<and> memmap s' = memmap s \<and> hhdm s' = hhdm s \<and>
     (\<forall>n. frame_free s' n \<longleftrightarrow> n < unat (bitmap_size s) * 8 \<and>
        (frame_free s n \<or> unat (me_base e) + 4096 * i \<le> 4096 * n \<and>
           4096 * n < unat (me_base e) + unat (me_length e)))"
  using assms
proof (induction "unat (me_length e) - 4096 * i" arbitrary: i s rule: less_induct)
  case less
  from less.prems obtain B L where BL: "unat (me_base e) = 4096 * B" "unat (me_length e) = 4096 * L"
    by (auto simp: entry_wf_def dvd_def)
  have size: "unat (bitmap_size s) * 8 \<le> 18446744073709551616" using less.prems(3) by simp
  have bounds: "4096 * B + 4096 * L \<le> 70368744177664" "i \<le> L"
    using less.prems BL by (auto simp: entry_wf_def)
  have j: "unat (of_nat (4096 * i) :: u64) = 4096 * i"
    using bounds by (simp add: unat_of_nat del: of_nat_mult)
  show ?case
  proof (cases "i < L")
    case False
    then have "\<not> of_nat (4096 * i) < me_length e"
      using j BL by (simp add: word_less_nat_alt)
    then show ?thesis using False BL by (subst unset_pages.simps) (auto simp: frame_free_def)
  next
    case True
    then have lt: "of_nat (4096 * i) < me_length e" using j BL by (simp add: word_less_nat_alt)
    let ?b = "(me_base e + of_nat (4096 * i)) div PAGE_SIZE"
    have b: "unat ?b = B + i"
      using bounds True j by (simp add: unat_div unat_word_ariths BL)
    have next_j: "of_nat (4096 * i) + PAGE_SIZE = (of_nat (4096 * Suc i) :: u64)" by simp
    let ?s = "bitmap_unset_bit s ?b"
    have free: "frame_free ?s n \<longleftrightarrow> n < unat (bitmap_size s) * 8 \<and> (frame_free s n \<or> n = B + i)" for n
      unfolding frame_free_unset_bit [OF size] b ..
    have "\<exists>s'. unset_pages e ?s (of_nat (4096 * Suc i)) = Some s' \<and>
       bitmap s' = bitmap ?s \<and> bitmap_size s' = bitmap_size ?s \<and> memmap s' = memmap ?s \<and> hhdm s' = hhdm ?s \<and>
       (\<forall>n. frame_free s' n \<longleftrightarrow> n < unat (bitmap_size ?s) * 8 \<and>
          (frame_free ?s n \<or> unat (me_base e) + 4096 * Suc i \<le> 4096 * n \<and>
             4096 * n < unat (me_base e) + unat (me_length e)))"
      by (rule less.hyps) (use less.prems True BL in auto)
    then obtain s' where s': "unset_pages e ?s (of_nat (4096 * Suc i)) = Some s'"
       "bitmap s' = bitmap s" "bitmap_size s' = bitmap_size s" "memmap s' = memmap s" "hhdm s' = hhdm s"
       "\<And>n. frame_free s' n \<longleftrightarrow> n < unat (bitmap_size s) * 8 \<and>
          (frame_free ?s n \<or> unat (me_base e) + 4096 * Suc i \<le> 4096 * n \<and>
             4096 * n < unat (me_base e) + unat (me_length e))" by auto
    have "unset_pages e s (of_nat (4096 * i)) = Some s'"
      using lt s'(1) unfolding next_j [symmetric] by (subst unset_pages.simps) simp
    moreover have "frame_free s' n \<longleftrightarrow> n < unat (bitmap_size s) * 8 \<and>
        (frame_free s n \<or> unat (me_base e) + 4096 * i \<le> 4096 * n \<and>
           4096 * n < unat (me_base e) + unat (me_length e))" for n
      using s'(6) [of n] free [of n] BL True by auto
    ultimately show ?thesis using s'(2-5) by blast
  qed
qed

text \<open>All usable regions.\<close>

lemma unset_usable_spec:
  assumes "\<And>e. e \<in> set es \<Longrightarrow> entry_wf e" "unat (bitmap_size s) * 8 \<le> 1099511627776"
  shows "\<exists>s'. unset_usable es s = Some s' \<and>
     bitmap s' = bitmap s \<and> bitmap_size s' = bitmap_size s \<and> memmap s' = memmap s \<and> hhdm s' = hhdm s \<and>
     (\<forall>n. frame_free s' n \<longleftrightarrow> n < unat (bitmap_size s) * 8 \<and>
        (frame_free s n \<or> (\<exists>e\<in>set es. usable_frame e n)))"
  using assms
proof (induction es arbitrary: s)
  case Nil
  then show ?case by (auto simp: frame_free_def)
next
  case (Cons e es)
  show ?case
  proof (cases "me_type e = LIMINE_MEMMAP_USABLE")
    case False
    then have "\<not> usable_frame e n" for n by (simp add: usable_frame_def)
    with False Cons.IH [of s] Cons.prems show ?thesis by simp
  next
    case True
    from unset_pages_spec [of e s 0] Cons.prems True obtain s1 where s1:
      "unset_pages e s 0 = Some s1" "bitmap s1 = bitmap s" "bitmap_size s1 = bitmap_size s"
      "memmap s1 = memmap s" "hhdm s1 = hhdm s"
      "\<And>n. frame_free s1 n \<longleftrightarrow> n < unat (bitmap_size s) * 8 \<and> (frame_free s n \<or> usable_frame e n)"
      by (auto simp: usable_frame_def)
    from Cons.IH [of s1] Cons.prems s1(3) obtain s2 where s2:
      "unset_usable es s1 = Some s2" "bitmap s2 = bitmap s1" "bitmap_size s2 = bitmap_size s1"
      "memmap s2 = memmap s1" "hhdm s2 = hhdm s1"
      "\<And>n. frame_free s2 n \<longleftrightarrow> n < unat (bitmap_size s1) * 8 \<and>
         (frame_free s1 n \<or> (\<exists>e\<in>set es. usable_frame e n))" by auto
    show ?thesis
      by (rule exI [of _ s2]) (use True s1 s2 in auto)
  qed
qed

text \<open>Marking frames free writes the bitmap only: \<open>above\<close> says that memory below the bitmap, and what the
  allocator does not know, is as before.\<close>

definition above :: "'a pmm_state_scheme \<Rightarrow> 'a pmm_state_scheme \<Rightarrow> bool" where
  "above s s' \<longleftrightarrow> bitmap s' = bitmap s \<and> hhdm s' = hhdm s \<and> pmm_state.more s' = pmm_state.more s \<and>
     (\<forall>x. unat x < unat (bitmap s) \<longrightarrow> mem s' x = mem s x)"

lemma above_trans: "above s t \<Longrightarrow> above t u \<Longrightarrow> above s u"
  by (simp add: above_def)

lemma unset_bit_above:
  assumes "unat b < 17179869184" "unat (bitmap s) + 2147483648 \<le> 18446744073709551616"
  shows "above s (bitmap_unset_bit s b)"
proof -
  have "unat (b div 8) < 2147483648" using assms(1) by (simp add: unat_div)
  then have "unat (bitmap s + b div 8) = unat (bitmap s) + unat (b div 8)"
    using assms(2) by (simp add: unat_word_ariths)
  then have "x \<noteq> bitmap s + b div 8" if "unat x < unat (bitmap s)" for x using that by auto
  then show ?thesis by (auto simp: above_def bitmap_unset_bit_def)
qed

lemma unset_pages_above:
  assumes "unset_pages e s j = Some s'" "entry_wf e" "me_type e = LIMINE_MEMMAP_USABLE"
    "unat (bitmap s) + 2147483648 \<le> 18446744073709551616"
  shows "above s s'"
proof -
  have "entry_wf e \<and> me_type e = LIMINE_MEMMAP_USABLE \<and> unat (bitmap s) + 2147483648 \<le> 18446744073709551616 \<longrightarrow> above s s'"
  proof (rule unset_pages.raw_induct [OF _ assms(1), of "\<lambda>e s j s'. entry_wf e \<and> me_type e = LIMINE_MEMMAP_USABLE \<and>
      unat (bitmap s) + 2147483648 \<le> 18446744073709551616 \<longrightarrow> above s s'"], intro impI, elim conjE)
    fix rec :: "limine_memmap_entry \<Rightarrow> 'a pmm_state_scheme \<Rightarrow> u64 \<Rightarrow> 'a pmm_state_scheme option" and e s j s'
    assume ih: "\<And>e s j s'. rec e s j = Some s' \<Longrightarrow> entry_wf e \<and> me_type e = LIMINE_MEMMAP_USABLE \<and>
        unat (bitmap s) + 2147483648 \<le> 18446744073709551616 \<longrightarrow> above s s'"
      and r: "(if j < me_length e then rec e (bitmap_unset_bit s ((me_base e + j) div PAGE_SIZE)) (j + PAGE_SIZE) else Some s) = Some s'"
      and e: "entry_wf e" "me_type e = LIMINE_MEMMAP_USABLE" "unat (bitmap s) + 2147483648 \<le> 18446744073709551616"
    show "above s s'"
    proof (cases "j < me_length e")
      case True
      have "unat (me_base e) + unat j < 70368744177664" using e(1,2) True by (simp add: entry_wf_def word_less_nat_alt)
      then have "unat ((me_base e + j) div PAGE_SIZE) < 17179869184" by (simp add: unat_div unat_word_ariths)
      from unset_bit_above [OF this e(3)] show ?thesis
        using ih [of e _ "j + PAGE_SIZE" s'] r True e by (auto intro: above_trans)
    next
      case False
      then show ?thesis using r by (simp add: above_def)
    qed
  qed
  then show ?thesis using assms by blast
qed

lemma unset_usable_above:
  assumes "unset_usable es s = Some s'" "\<And>e. e \<in> set es \<Longrightarrow> entry_wf e" "unat (bitmap s) + 2147483648 \<le> 18446744073709551616"
  shows "above s s'"
  using assms
proof (induction es arbitrary: s)
  case Nil
  then show ?case by (simp add: above_def)
next
  case (Cons e es)
  show ?case
  proof (cases "me_type e = LIMINE_MEMMAP_USABLE")
    case False
    then show ?thesis using Cons by simp
  next
    case True
    then obtain t where t: "unset_pages e s 0 = Some t" "unset_usable es t = Some s'"
      using Cons.prems(1) by (auto split: bind_splits)
    have "above s t" by (rule unset_pages_above [OF t(1) _ True Cons.prems(3)]) (simp add: Cons.prems(2))
    moreover from this have "above t s'" using Cons.IH [OF t(2)] Cons.prems(2,3) by (simp add: above_def)
    ultimately show ?thesis by (rule above_trans)
  qed
qed

lemma scan_memmap_fields [simp]:
  "mem (scan_memmap es s) = mem s" "memmap (scan_memmap es s) = memmap s"
  "hhdm (scan_memmap es s) = hhdm s" "bitmap (scan_memmap es s) = bitmap s" "pmm_state.more (scan_memmap es s) = pmm_state.more s"
  by (induction es arbitrary: s) auto

lemma scan_memmap_highest:
  assumes "\<And>e. e \<in> set es \<Longrightarrow> entry_wf e" "unat (highest_addr s) \<le> 70368744177664"
  shows "unat (highest_addr (scan_memmap es s)) \<le> 70368744177664"
  using assms
proof (induction es arbitrary: s)
  case (Cons e es)
  show ?case
  proof (cases "me_type e = LIMINE_MEMMAP_USABLE")
    case True
    with Cons.prems(1) [of e] have "unat (me_base e + me_length e) \<le> 70368744177664"
      by (simp add: entry_wf_def unat_word_ariths)
    then have "unat (max (highest_addr s) (me_base e + me_length e)) \<le> 70368744177664"
      using Cons.prems(2) by (simp add: max_def)
    with True Cons show ?thesis by simp
  qed (use Cons in simp)
qed simp

lemma align_up_page:
  fixes a :: u64
  assumes "unat a \<le> 18446744073709547520"
  shows "unat (ALIGN_UP a PAGE_SIZE) = (unat a + 4095) div 4096 * 4096"
proof -
  have "unat (4095 + a) = unat a + 4095" using assms by (simp add: unat_word_ariths)
  then show ?thesis by (simp add: ALIGN_UP_def unat_page_mask)
qed

text \<open>Where the bitmap goes, and what it takes from the region it goes to.\<close>

definition trim_entry :: "u64 \<Rightarrow> limine_memmap_entry \<Rightarrow> limine_memmap_entry" where
  "trim_entry n e = e\<lparr>me_length := me_length e - n, me_base := me_base e + n\<rparr>"

definition holds_bitmap :: "u64 \<Rightarrow> limine_memmap_entry \<Rightarrow> bool" where
  "holds_bitmap n e \<longleftrightarrow> me_type e = LIMINE_MEMMAP_USABLE \<and> n \<le> me_length e"

lemma place_bitmap_spec:
  assumes "\<exists>e\<in>set es. holds_bitmap (bitmap_size s) e"
  obtains pre e post where "es = pre @ e # post" "holds_bitmap (bitmap_size s) e"
    "place_bitmap es s = (pre @ trim_entry (bitmap_size s) e # post,
       s\<lparr>bitmap := me_base e + hhdm s,
         mem := kmemset (mem s) (me_base e + hhdm s) 0xFF (bitmap_size s)\<rparr>)"
proof -
  have "\<exists>pre e post. es = pre @ e # post \<and> holds_bitmap (bitmap_size s) e \<and>
    place_bitmap es s = (pre @ trim_entry (bitmap_size s) e # post,
       s\<lparr>bitmap := me_base e + hhdm s,
         mem := kmemset (mem s) (me_base e + hhdm s) 0xFF (bitmap_size s)\<rparr>)"
    using assms
  proof (induction es)
    case (Cons e es)
    show ?case
    proof (cases "holds_bitmap (bitmap_size s) e")
      case True
      then show ?thesis
        by (intro exI [of _ "[]"] exI [of _ e] exI [of _ es])
          (simp add: holds_bitmap_def trim_entry_def Let_def)
    next
      case False
      with Cons obtain pre e' post where *: "es = pre @ e' # post" "holds_bitmap (bitmap_size s) e'"
        "place_bitmap es s = (pre @ trim_entry (bitmap_size s) e' # post,
           s\<lparr>bitmap := me_base e' + hhdm s,
             mem := kmemset (mem s) (me_base e' + hhdm s) 0xFF (bitmap_size s)\<rparr>)" by auto
      show ?thesis
        by (rule exI [of _ "e # pre"], rule exI [of _ e'], rule exI [of _ post])
          (use False * in \<open>auto simp: holds_bitmap_def\<close>)
    qed
  qed simp
  then show thesis using that by blast
qed

text \<open>The size of the bitmap as a function of the memory map, computed on numbers: one bit per
  frame below the top of the usable memory, in whole pages.\<close>

fun usable_top :: "limine_memmap_entry list \<Rightarrow> nat" where
  "usable_top [] = 0"
| "usable_top (e # es) =
     (if me_type e = LIMINE_MEMMAP_USABLE then max (unat (me_base e) + unat (me_length e)) (usable_top es)
      else usable_top es)"

definition bitmap_bytes :: "limine_memmap_entry list \<Rightarrow> nat" where
  "bitmap_bytes es = (usable_top es div 4096 div 8 + 4095) div 4096 * 4096"

lemma unat_max: "unat (max a b :: u64) = max (unat a) (unat b)"
  by (simp add: max_def word_le_nat_alt)

lemma scan_memmap_top:
  assumes "\<And>e. e \<in> set es \<Longrightarrow> entry_wf e"
  shows "unat (highest_addr (scan_memmap es s)) = max (unat (highest_addr s)) (usable_top es)"
  using assms
proof (induction es arbitrary: s)
  case (Cons e es)
  have "unat (me_base e + me_length e) = unat (me_base e) + unat (me_length e)"
    if "me_type e = LIMINE_MEMMAP_USABLE"
    using Cons.prems [of e] that by (simp add: entry_wf_def unat_word_ariths)
  with Cons show ?case by (simp add: unat_max max.assoc)
qed simp

lemma usable_top_le:
  "(\<And>e. e \<in> set es \<Longrightarrow> entry_wf e) \<Longrightarrow> usable_top es \<le> 70368744177664"
  by (induction es) (auto simp: entry_wf_def)

text \<open>What the loader provides: a well-formed map of regions that do not overlap, and a higher
  half that begins above every physical address and has room for them all.\<close>

definition regions_apart :: "limine_memmap_entry \<Rightarrow> limine_memmap_entry \<Rightarrow> bool" where
  "regions_apart d e \<longleftrightarrow> me_type d \<noteq> LIMINE_MEMMAP_USABLE \<or> me_type e \<noteq> LIMINE_MEMMAP_USABLE \<or>
     unat (me_base d) + unat (me_length d) \<le> unat (me_base e) \<or>
     unat (me_base e) + unat (me_length e) \<le> unat (me_base d)"

definition boot_map_ok :: "'a pmm_state_scheme \<Rightarrow> bool" where
  "boot_map_ok s \<longleftrightarrow> highest_addr s = 0 \<and> list_all entry_wf (memmap s) \<and>
     sorted_wrt regions_apart (memmap s) \<and>
     list_ex (\<lambda>e. me_type e = LIMINE_MEMMAP_USABLE \<and> bitmap_bytes (memmap s) \<le> unat (me_length e)) (memmap s) \<and>
     4503599627370496 \<le> unat (hhdm s) \<and> unat (hhdm s) + 70368744177664 < 18446744073709551616"

text \<open>The frames that hold the bitmap itself.\<close>

definition bitmap_frame :: "'a pmm_state_scheme \<Rightarrow> nat \<Rightarrow> bool" where
  "bitmap_frame s n \<longleftrightarrow> unat (bitmap s - hhdm s) \<le> 4096 * n \<and>
     4096 * n < unat (bitmap s - hhdm s) + unat (bitmap_size s)"

lemma trim_entry_frames:
  assumes "entry_wf e" "holds_bitmap n e" "4096 dvd unat n"
  shows "entry_wf (trim_entry n e)"
    "usable_frame (trim_entry n e) k \<longleftrightarrow>
       usable_frame e k \<and> \<not> (unat (me_base e) \<le> 4096 * k \<and> 4096 * k < unat (me_base e) + unat n)"
proof -
  have u: "unat (me_base e + n) = unat (me_base e) + unat n"
    "unat (me_length e - n) = unat (me_length e) - unat n" "unat n \<le> unat (me_length e)"
    using assms(1,2)
    by (simp_all add: entry_wf_def holds_bitmap_def unat_word_ariths unat_sub word_le_nat_alt)
  show "entry_wf (trim_entry n e)"
    using assms u by (auto simp: entry_wf_def holds_bitmap_def trim_entry_def dvd_diff_nat)
  show "usable_frame (trim_entry n e) k \<longleftrightarrow>
       usable_frame e k \<and> \<not> (unat (me_base e) \<le> 4096 * k \<and> 4096 * k < unat (me_base e) + unat n)"
    using u by (auto simp: usable_frame_def trim_entry_def)
qed

lemma regions_apart_frames:
  assumes "regions_apart d e" "usable_frame e n"
  shows "\<not> usable_frame d n"
  using assms by (auto simp: regions_apart_def usable_frame_def)

text \<open>The usable frames of the map after the bitmap was taken out of region \<open>e\<close>.\<close>

lemma trimmed_map_frames:
  assumes "es = pre @ e # post" "sorted_wrt regions_apart es"
    "entry_wf e" "holds_bitmap n e" "4096 dvd unat n"
  shows "(\<exists>d\<in>set (pre @ trim_entry n e # post). usable_frame d k) \<longleftrightarrow>
      list_ex (\<lambda>d. usable_frame d k) es \<and>
      \<not> (unat (me_base e) \<le> 4096 * k \<and> 4096 * k < unat (me_base e) + unat n)"
proof -
  have apart: "\<not> usable_frame d k" if "d \<in> set pre \<or> d \<in> set post" "usable_frame e k" for d
  proof -
    have "regions_apart d e \<or> regions_apart e d"
      using assms(1,2) that(1) by (auto simp: sorted_wrt_append)
    then show ?thesis using that(2) by (auto simp: regions_apart_def usable_frame_def)
  qed
  have in_e: "usable_frame e k"
    if "unat (me_base e) \<le> 4096 * k" "4096 * k < unat (me_base e) + unat n"
    using that assms(4) by (simp add: usable_frame_def holds_bitmap_def word_le_nat_alt)
  have "(\<exists>d\<in>set (pre @ trim_entry n e # post). usable_frame d k) \<longleftrightarrow>
    (\<exists>d\<in>set pre \<union> set post. usable_frame d k) \<or> usable_frame (trim_entry n e) k" by auto
  moreover have "list_ex (\<lambda>d. usable_frame d k) es \<longleftrightarrow>
    (\<exists>d\<in>set pre \<union> set post. usable_frame d k) \<or> usable_frame e k"
    by (auto simp: assms(1) list_ex_iff)
  ultimately show ?thesis using trim_entry_frames(2) [OF assms(3-5)] apart in_e by blast
qed

text \<open>A bitmap filled with 0xFF has no free frame.\<close>

lemma full_bitmap_none_free:
  assumes "\<And>x. in_bitmap s x \<Longrightarrow> mem s x = 255"
  shows "\<not> frame_free s k"
proof -
  have "(255 :: u8) = mask 8" by (simp add: mask_numeral)
  then have "bit (255 :: u8) (k mod 8)" by (simp only: bit_mask_iff) simp
  then show ?thesis using in_bitmap_byte [of k s] assms by (auto simp: frame_free_def)
qed

lemma pmm_init_spec:
  assumes "boot_map_ok s"
  shows "\<exists>s'. pmm_init s = Some s' \<and> pmm_ok s' \<and> unat (bitmap_size s') = bitmap_bytes (memmap s) \<and>
    (\<forall>n. frame_free s' n \<longleftrightarrow> n < 8 * bitmap_bytes (memmap s) \<and>
       list_ex (\<lambda>e. usable_frame e n) (memmap s) \<and> \<not> bitmap_frame s' n) \<and>
    (unat (hhdm s) + 140737488355328 \<le> 18446744073709551616 \<longrightarrow> hhdm s' = hhdm s \<and>
       pmm_state.more s' = pmm_state.more s \<and> (\<forall>x. unat x < 4503599627370496 \<longrightarrow> mem s' x = mem s x)) \<and>
    (\<exists>e \<in> set (memmap s). me_type e = LIMINE_MEMMAP_USABLE \<and> bitmap s' = me_base e + hhdm s)"
proof -
  let ?es = "memmap s"
  have wf: "entry_wf e" if "e \<in> set ?es" for e
    using assms that by (auto simp: boot_map_ok_def list_all_iff)
  define s1 where "s1 = scan_memmap ?es s"
  define n where "n = ALIGN_UP ((highest_addr s1 div PAGE_SIZE) div 8) PAGE_SIZE"
  define s2 where "s2 = s1\<lparr>bitmap_size := n\<rparr>"
  have top: "unat (highest_addr s1) = usable_top ?es" "usable_top ?es \<le> 70368744177664"
    using scan_memmap_top [of ?es s, OF wf] usable_top_le [OF wf] assms
    by (simp_all add: s1_def boot_map_ok_def)
  then have "unat ((highest_addr s1 div PAGE_SIZE) div 8) = usable_top ?es div 4096 div 8"
    by (simp add: unat_div)
  with top have n: "unat n = bitmap_bytes ?es"
    unfolding n_def bitmap_bytes_def by (subst align_up_page) simp_all
  have n_le: "unat n \<le> 2147487744" "4096 dvd unat n"
    using top(2) unfolding n bitmap_bytes_def by auto
  have s2: "bitmap_size s2 = n" "memmap s2 = ?es" "hhdm s2 = hhdm s"
    by (simp_all add: s2_def s1_def)
  have "\<exists>e\<in>set ?es. holds_bitmap (bitmap_size s2) e"
    using assms unfolding s2 by (auto simp: boot_map_ok_def list_ex_iff holds_bitmap_def word_le_nat_alt n)
  then obtain pre e post where e: "?es = pre @ e # post" "holds_bitmap (bitmap_size s2) e"
    "place_bitmap ?es s2 = (pre @ trim_entry (bitmap_size s2) e # post,
       s2\<lparr>bitmap := me_base e + hhdm s2,
         mem := kmemset (mem s2) (me_base e + hhdm s2) 0xFF (bitmap_size s2)\<rparr>)"
    by (rule place_bitmap_spec)
  define es3 where "es3 = pre @ trim_entry n e # post"
  define s3 where "s3 = s2\<lparr>bitmap := me_base e + hhdm s,
       mem := kmemset (mem s2) (me_base e + hhdm s) 0xFF n, memmap := es3\<rparr>"
  have init: "pmm_init s = unset_usable es3 s3"
    using e(3) unfolding pmm_init_def Let_def n_def [symmetric] s1_def [symmetric] s2_def [symmetric]
    by (simp add: s1_def s2 es3_def s3_def)
  have s3: "bitmap_size s3 = n" "bitmap s3 = me_base e + hhdm s" "hhdm s3 = hhdm s"
    by (simp_all add: s3_def s2)
  have e_wf: "entry_wf e" "me_type e = LIMINE_MEMMAP_USABLE" "n \<le> me_length e"
    using wf [of e] e(1,2) by (simp_all add: holds_bitmap_def s2)
  have base_e: "unat (me_base e) + unat n \<le> 70368744177664" "4096 \<le> unat (me_base e)"
    using e_wf by (simp_all add: entry_wf_def word_le_nat_alt)
  have hh: "4503599627370496 \<le> unat (hhdm s)" "unat (hhdm s) + 70368744177664 < 18446744073709551616"
    using assms by (simp_all add: boot_map_ok_def)
  then have "unat (me_base e) + unat (hhdm s) < 18446744073709551616"
    using base_e by linarith
  then have base: "unat (bitmap s3) = unat (me_base e) + unat (hhdm s)"
    by (simp add: s3 unat_word_ariths)
  have "mem s3 x = 255" if "in_bitmap s3 x" for x
    using that by (simp add: in_bitmap_def s3) (simp add: s3_def closed_form)
  then have none: "\<not> frame_free s3 k" for k
    by (rule full_bitmap_none_free)
  have wf3: "entry_wf d" if "d \<in> set es3" for d
    using that wf e(1) trim_entry_frames(1) [OF e_wf(1) _ n_le(2)] e(2) by (auto simp: es3_def s2)
  have frames: "(\<exists>d\<in>set es3. usable_frame d k) \<longleftrightarrow>
      list_ex (\<lambda>d. usable_frame d k) ?es \<and>
      \<not> (unat (me_base e) \<le> 4096 * k \<and> 4096 * k < unat (me_base e) + unat n)" for k
    unfolding es3_def
    by (rule trimmed_map_frames) (use assms e e_wf n_le in \<open>auto simp: boot_map_ok_def s2\<close>)
  have "unat (bitmap_size s3) * 8 \<le> 1099511627776" using n_le s3 by simp
  from unset_usable_spec [of es3, OF wf3 this] obtain s' where s':
    "unset_usable es3 s3 = Some s'" "bitmap s' = bitmap s3" "bitmap_size s' = bitmap_size s3" "hhdm s' = hhdm s3"
    "\<And>k. frame_free s' k \<longleftrightarrow> k < unat (bitmap_size s3) * 8 \<and> (\<exists>d\<in>set es3. usable_frame d k)"
    using none by auto
  have bf: "bitmap_frame s' k \<longleftrightarrow>
      unat (me_base e) \<le> 4096 * k \<and> 4096 * k < unat (me_base e) + unat n" for k
    using s' s3 by (simp add: bitmap_frame_def)
  have free: "frame_free s' k \<longleftrightarrow> k < 8 * bitmap_bytes ?es \<and>
       list_ex (\<lambda>e. usable_frame e k) ?es \<and> \<not> bitmap_frame s' k" for k
    using s'(5) [of k] frames [of k] bf [of k] n s3 by auto
  have "\<not> usable_frame d 0" if "d \<in> set ?es" for d
    using wf [OF that] by (auto simp: usable_frame_def entry_wf_def)
  then have "\<not> frame_free s' 0" using free [of 0] by (auto simp: list_ex_iff)
  then have "pmm_ok s'"
    using base base_e hh n_le s' s3 by (simp add: pmm_ok_def)
  moreover have "hhdm s' = hhdm s \<and> pmm_state.more s' = pmm_state.more s \<and> (\<forall>x. unat x < 4503599627370496 \<longrightarrow> mem s' x = mem s x)"
    if top: "unat (hhdm s) + 140737488355328 \<le> 18446744073709551616"
  proof -
    have ab: "above s3 s'"
      by (rule unset_usable_above [OF s'(1) wf3]) (use base base_e top in simp_all)
    moreover have "pmm_state.more s3 = pmm_state.more s" by (simp add: s3_def s2_def s1_def)
    moreover have "mem s' x = mem s x" if "unat x < 4503599627370496" for x
    proof -
      have "\<not> in_range (bitmap s3) n x"
      proof
        assume "in_range (bitmap s3) n x"
        then have "unat (bitmap s3) \<le> unat x" using base base_e hh n_le by (subst (asm) in_range_linear) simp_all
        then show False using that base hh by simp
      qed
      then have "mem s3 x = mem s x" by (simp add: s3_def s2_def s1_def closed_form)
      moreover have "mem s' x = mem s3 x" using ab that base hh by (simp add: above_def)
      ultimately show ?thesis by simp
    qed
    ultimately show ?thesis by (simp add: above_def s3)
  qed
  moreover have "e \<in> set ?es" by (simp add: e(1))
  ultimately show ?thesis using init s' free n s3 e_wf(2) by auto
qed

lemma bitmap_shortfall:
  assumes "F = 32768 * q + r" "r < 32768"
  shows "8 * ((F div 8 + 4095) div 4096 * 4096) < F \<longleftrightarrow> 0 < r \<and> r < (8 :: nat)"
proof -
  have "F div 8 = 4096 * q + r div 8" using assms(1) by simp
  then have "(F div 8 + 4095) div 4096 = q + (r div 8 + 4095) div 4096" by simp
  moreover have "(r div 8 + 4095) div 4096 = (if r < 8 then 0 else 1)" using assms(2) by auto
  ultimately show ?thesis using assms by (auto split: if_splits)
qed

section \<open>Properties\<close>

text \<open>C2: An allocation hands out the lowest free frame: it is never frame 0, its 4096 bytes are
  zeroed, its bit alone changes state, and no other byte outside the bitmap changes; it
  returns 0, changing nothing, exactly when no frame is free.\<close>

theorem pmm_alloc_frame_correct:
  assumes "pmm_ok s" "pmm_alloc_frame s = (r, s')"
  shows "pmm_ok s' \<and> (if r = 0 then s' = s \<and> (\<forall>n. \<not> frame_free s n) else
    \<exists>n. unat r = 4096 * n \<and> frame_free s n \<and> (\<forall>k<n. \<not> frame_free s k) \<and>
      (\<forall>k. frame_free s' k \<longleftrightarrow> frame_free s k \<and> k \<noteq> n) \<and>
      (\<forall>x. in_range r PAGE_SIZE x \<longrightarrow> mem s' x = 0) \<and>
      (\<forall>x. \<not> in_range r PAGE_SIZE x \<longrightarrow> \<not> in_bitmap s x \<longrightarrow> mem s' x = mem s x))"
  using assms(1)
proof (cases rule: pmm_alloc_frame_cases)
  case none
  with assms show ?thesis by simp
next
  case (some n)
  moreover from this have "r \<noteq> 0" "unat r = 4096 * n"
    using assms(2) frame_address [OF assms(1) some(1)] by auto
  ultimately show ?thesis
    using assms(2) claim_frame_spec [OF assms(1) some(1)] by auto
qed

definition small_machine :: "unit pmm_state_scheme" where
  "small_machine = \<lparr>mem = (\<lambda>_. 1), hhdm = 0xFFFF800000000000,
     memmap = [\<lparr>me_base = 0x1000, me_length = 0x9F000, me_type = 1\<rparr>,
               \<lparr>me_base = 0x100000, me_length = 0x7F00000, me_type = 0\<rparr>],
     bitmap = 0xFFFF800000100000, usable_pages = 0, bitmap_size = 0x1000, highest_addr = 0\<rparr>"

lemma small_machine_ok: "pmm_ok small_machine"
  by (simp add: pmm_ok_def small_machine_def frame_free_def)

lemma pmm_alloc_frame_correct_witness: "\<exists>r s'. pmm_alloc_frame small_machine = (r, s') \<and> pmm_ok s'"
  using pmm_alloc_frame_correct [OF small_machine_ok]
  by (cases "pmm_alloc_frame small_machine") blast

text \<open>Freeing a frame makes exactly that frame available again and nothing else; freeing the
  frame that was just allocated restores the set of free frames.\<close>

theorem pmm_free_frame_correct:
  assumes "pmm_ok s" "0 < n" "n < unat (bitmap_size s) * 8"
  shows "pmm_ok (pmm_free_frame s (PAGE_SIZE * of_nat n)) \<and>
    (frame_free (pmm_free_frame s (PAGE_SIZE * of_nat n)) k \<longleftrightarrow> frame_free s k \<or> k = n) \<and>
    (fst (pmm_alloc_frame s) \<noteq> 0 \<longrightarrow>
      frame_free (pmm_free_frame (snd (pmm_alloc_frame s)) (fst (pmm_alloc_frame s))) k = frame_free s k)"
  using pmm_free_frame_spec [OF assms] pmm.release_alloc [OF assms(1)] by (simp add: set_eq_iff)

lemma pmm_free_frame_correct_witness:
  "\<not> frame_free small_machine 8 \<and> frame_free (pmm_free_frame small_machine (PAGE_SIZE * of_nat 8)) 8"
  using pmm_free_frame_correct [OF small_machine_ok, of 8 8]
  by (simp add: small_machine_def frame_free_def)

text \<open>C10: Initialisation succeeds on every memory map a loader may hand over.  Afterwards the
  allocatable frames are exactly the usable ones that the bitmap covers, less those that hold
  the bitmap itself.\<close>

theorem pmm_init_correct:
  assumes "boot_map_ok s"
  shows "\<exists>s'. pmm_init s = Some s' \<and> pmm_ok s' \<and> unat (bitmap_size s') = bitmap_bytes (memmap s) \<and>
    (\<forall>n. frame_free s' n \<longleftrightarrow> n < 8 * bitmap_bytes (memmap s) \<and>
       list_ex (\<lambda>e. usable_frame e n) (memmap s) \<and> \<not> bitmap_frame s' n)"
  using pmm_init_spec [OF assms] by blast

lemma pmm_init_correct_witness:
  "\<exists>s'. pmm_init small_machine = Some s' \<and> pmm_ok s' \<and> bitmap_size s' = 0x1000"
proof -
  have "boot_map_ok small_machine" "bitmap_bytes (memmap small_machine) = 0x1000"
    by (simp_all add: boot_map_ok_def small_machine_def entry_wf_def regions_apart_def bitmap_bytes_def dvd_def)
  with pmm_init_correct [of small_machine] show ?thesis by (auto simp: word_unat_eq_iff)
qed

text \<open>The size computed for the bitmap covers all memory below the highest usable address
  except when the number of frames there exceeds a multiple of 32768 by one to seven: then those
  frames lie outside the bitmap.\<close>

theorem bitmap_too_short:
  "8 * bitmap_bytes es < usable_top es div 4096 \<longleftrightarrow>
     0 < (usable_top es div 4096) mod 32768 \<and> (usable_top es div 4096) mod 32768 < 8"
  unfolding bitmap_bytes_def
  by (rule bitmap_shortfall [where q = "usable_top es div 4096 div 32768"]) simp_all

text \<open>The heap's region: when the lowest free frame begins a run of \<open>n_frames + 1\<close> free
  frames, its address is returned and exactly that run is taken.\<close>

theorem pmm_alloc_heap_base_correct:
  assumes "pmm_ok s" "first_run s a (Suc (unat n_frames))" "pmm_alloc_heap_base s n_frames = (base, s')"
  shows "base = PAGE_SIZE * of_nat a \<and> pmm_ok s' \<and>
    (\<forall>k. frame_free s' k \<longleftrightarrow> frame_free s k \<and> \<not> (a \<le> k \<and> k \<le> a + unat n_frames))"
  using pmm_alloc_heap_base_run [OF assms(1,2)] assms(3) by auto

lemma pmm_alloc_heap_base_correct_witness:
  "fst (pmm_alloc_heap_base small_machine 1) = PAGE_SIZE"
proof -
  have "first_run small_machine 1 (Suc (unat (1 :: u64)))"
    by (auto simp: first_run_def small_machine_def frame_free_def less_2_cases_iff)
  from pmm_alloc_heap_base_correct [OF small_machine_ok this prod.collapse [symmetric]]
  show ?thesis by simp
qed

end
