(* ===== verification/Vmm.thy ===== *)
theory Vmm
  imports Pmm
begin

text \<open>
  \<open>sys/src/mm/vmm.c\<close>: four-level page tables, walked and filled in by software.  A table is
  a page of 512 entries of 64 bits in physical memory, which the code reaches through the
  loader's identity map; its entry \<open>i\<close> is the 64-bit cell at \<open>table + 8 * i\<close>.

  The abstract view of an address space is the function \<open>pte\<close> from virtual addresses to
  last-level entries.  The walk may allocate tables on its way; the lemmas show that this
  never changes the view, so that every operation is an update of the view at one page.
\<close>

section \<open>State\<close>

text \<open>\<open>cr3\<close> is the processor's page-table register; \<open>tlb_flushes\<close> lists the addresses given to
  \<open>invlpg\<close>, the last one first.\<close>

record vmm_state = pmm_state +
  root_pagemap :: u64
  cr3 :: u64
  tlb_flushes :: "u64 list"

section \<open>Page-table entries\<close>

abbreviation PTE_ADDR_MASK :: u64 where "PTE_ADDR_MASK \<equiv> 0x000FFFFFFFFFF000"
abbreviation PTE_PRESENT :: u64 where "PTE_PRESENT \<equiv> 0x1"
abbreviation PTE_WRITABLE :: u64 where "PTE_WRITABLE \<equiv> 0x2"
abbreviation PTE_USER :: u64 where "PTE_USER \<equiv> 0x4"
abbreviation PTE_NX :: u64 where "PTE_NX \<equiv> 0x8000000000000000"

definition PTE_GET_ADDR :: "u64 \<Rightarrow> u64" where
  "PTE_GET_ADDR v = v AND PTE_ADDR_MASK"

definition index4 :: "u64 \<Rightarrow> u64" where "index4 virt = drop_bit 39 (virt AND push_bit 39 0x1FF)"
definition index3 :: "u64 \<Rightarrow> u64" where "index3 virt = drop_bit 30 (virt AND push_bit 30 0x1FF)"
definition index2 :: "u64 \<Rightarrow> u64" where "index2 virt = drop_bit 21 (virt AND push_bit 21 0x1FF)"
definition index1 :: "u64 \<Rightarrow> u64" where "index1 virt = drop_bit 12 (virt AND push_bit 12 0x1FF)"

section \<open>Operations\<close>

definition get_next_level :: "'a vmm_state_scheme \<Rightarrow> u64 \<Rightarrow> u64 \<Rightarrow> u64 \<times> 'a vmm_state_scheme" where
  "get_next_level s top_level index =
     (let e = ld64 (mem s) (top_level + 8 * index) in
      if e AND PTE_PRESENT \<noteq> 0 then (PTE_GET_ADDR e, s)
      else
        let (next_level, s) = pmm_alloc_frame s in
        if next_level = 0 then (0, s)
        else (next_level,
          s\<lparr>mem := st64 (mem s) (top_level + 8 * index) (next_level OR PTE_PRESENT OR PTE_WRITABLE)\<rparr>))"

text \<open>The first part of every operation: the page table for \<open>virt\<close>, 0 when a level is missing.\<close>

definition page_table_for :: "'a vmm_state_scheme \<Rightarrow> u64 \<Rightarrow> u64 \<Rightarrow> u64 \<times> 'a vmm_state_scheme" where
  "page_table_for s pml4 virt =
     (let (pml3, s) = get_next_level s pml4 (index4 virt) in
      if pml3 = 0 then (0, s)
      else
        let (pml2, s) = get_next_level s pml3 (index3 virt) in
        if pml2 = 0 then (0, s)
        else get_next_level s pml2 (index2 virt))"

definition tlb_flush_single :: "'a vmm_state_scheme \<Rightarrow> u64 \<Rightarrow> 'a vmm_state_scheme" where
  "tlb_flush_single s virt = s\<lparr>tlb_flushes := virt # tlb_flushes s\<rparr>"

definition vmm_map_page :: "'a vmm_state_scheme \<Rightarrow> u64 \<Rightarrow> u64 \<Rightarrow> u64 \<Rightarrow> u64 \<Rightarrow> 'a vmm_state_scheme" where
  "vmm_map_page s pml4 phys virt flags =
     (let (page_table, s) = page_table_for s pml4 virt in
      if page_table = 0 then s
      else
        let s = s\<lparr>mem := st64 (mem s) (page_table + 8 * index1 virt) (phys OR flags)\<rparr>
        in tlb_flush_single s virt)"

definition vmm_unmap_page :: "'a vmm_state_scheme \<Rightarrow> u64 \<Rightarrow> u64 \<Rightarrow> 'a vmm_state_scheme" where
  "vmm_unmap_page s pml4 virt =
     (let (page_table, s) = page_table_for s pml4 virt in
      if page_table = 0 then s
      else
        let s = s\<lparr>mem := st64 (mem s) (page_table + 8 * index1 virt) 0\<rparr>
        in tlb_flush_single s virt)"

definition vmm_get_phys :: "'a vmm_state_scheme \<Rightarrow> u64 \<Rightarrow> u64 \<Rightarrow> u64 \<times> 'a vmm_state_scheme" where
  "vmm_get_phys s pml4 virt =
     (let virt = PAGE_ALIGN virt;
          (page_table, s) = page_table_for s pml4 virt in
      if page_table = 0 then (0, s)
      else (PTE_GET_ADDR (ld64 (mem s) (page_table + 8 * index1 virt)), s))"

definition vmm_update_flags :: "'a vmm_state_scheme \<Rightarrow> u64 \<Rightarrow> u64 \<Rightarrow> u64 \<Rightarrow> 'a vmm_state_scheme" where
  "vmm_update_flags s pml4 virt flags =
     (let (page_table, s) = page_table_for s pml4 virt in
      if page_table = 0 then s
      else
        let a = page_table + 8 * index1 virt;
            s = s\<lparr>mem := st64 (mem s) a (ld64 (mem s) a AND NOT (0x7 OR PTE_NX))\<rparr>;
            s = s\<lparr>mem := st64 (mem s) a (ld64 (mem s) a OR flags)\<rparr>
        in tlb_flush_single s virt)"

function copy_pagemap :: "memory \<Rightarrow> u64 \<Rightarrow> u64 \<Rightarrow> u64 \<Rightarrow> memory" where
  "copy_pagemap m new_pagemap root i =
     (if i < 512 then
        copy_pagemap (st64 m (new_pagemap + 8 * i) (ld64 m (root + 8 * i))) new_pagemap root (i + 1)
      else m)"
  by pat_completeness auto
termination
  by (relation "measure (\<lambda>(m, new_pagemap, root, i). unat (512 - i))")
    (use loop_measure [where n = "512 :: u64"] in auto)

declare copy_pagemap.simps [simp del]

definition vmm_make_pml4 :: "'a vmm_state_scheme \<Rightarrow> u64 \<times> 'a vmm_state_scheme" where
  "vmm_make_pml4 s =
     (let (new_pagemap, s) = pmm_alloc_frame s
      in (new_pagemap, s\<lparr>mem := copy_pagemap (mem s) new_pagemap (root_pagemap s) 0\<rparr>))"

definition get_pml4 :: "'a vmm_state_scheme \<Rightarrow> u64" where
  "get_pml4 s = cr3 s"

definition vmm_init :: "'a vmm_state_scheme \<Rightarrow> 'a vmm_state_scheme" where
  "vmm_init s = s\<lparr>root_pagemap := cr3 s\<rparr>"

section \<open>The view of an address space\<close>

text \<open>The table an entry points to, 0 for none.\<close>

definition entry_table :: "u64 \<Rightarrow> u64" where
  "entry_table e = (if e AND PTE_PRESENT \<noteq> 0 then PTE_GET_ADDR e else 0)"

fun walk :: "memory \<Rightarrow> u64 \<Rightarrow> u64 list \<Rightarrow> u64" where
  "walk m t [] = t"
| "walk m t (i # is) = (let n = entry_table (ld64 m (t + 8 * i)) in if n = 0 then 0 else walk m n is)"

definition vpath :: "u64 \<Rightarrow> u64 list" where
  "vpath virt = [index4 virt, index3 virt, index2 virt]"

definition pte :: "memory \<Rightarrow> u64 \<Rightarrow> u64 \<Rightarrow> u64" where
  "pte m pml4 virt =
     (let t = walk m pml4 (vpath virt) in if t = 0 then 0 else ld64 m (t + 8 * index1 virt))"

text \<open>Addresses on the same page of the 48-bit address space.\<close>

definition same_page :: "u64 \<Rightarrow> u64 \<Rightarrow> bool" where
  "same_page v w \<longleftrightarrow> vpath v = vpath w \<and> index1 v = index1 w"

text \<open>A page of physical memory that the allocator does not own any more.\<close>

definition is_table :: "'a pmm_state_scheme \<Rightarrow> u64 \<Rightarrow> bool" where
  "is_table s t \<longleftrightarrow> (\<exists>k. 0 < k \<and> k < 1099511627776 \<and> t = PAGE_SIZE * of_nat k \<and> \<not> frame_free s k)"

definition table_path :: "u64 list \<Rightarrow> bool" where
  "table_path p \<longleftrightarrow> length p \<le> 3 \<and> (\<forall>i\<in>set p. i < 512)"

text \<open>The invariant of an address space: everything a walk reaches is a table, and no table
  is reached on two paths.\<close>

definition space_ok :: "'a pmm_state_scheme \<Rightarrow> u64 \<Rightarrow> bool" where
  "space_ok s pml4 \<longleftrightarrow> pmm_ok s \<and> pml4 \<noteq> 0 \<and>
     (\<forall>p. table_path p \<longrightarrow> walk (mem s) pml4 p \<noteq> 0 \<longrightarrow> is_table s (walk (mem s) pml4 p)) \<and>
     (\<forall>p q. table_path p \<longrightarrow> table_path q \<longrightarrow> walk (mem s) pml4 p \<noteq> 0 \<longrightarrow>
        walk (mem s) pml4 p = walk (mem s) pml4 q \<longrightarrow> p = q) \<and>
     (\<forall>p i. table_path (p @ [i]) \<longrightarrow> walk (mem s) pml4 p \<noteq> 0 \<longrightarrow>
        ld64 (mem s) (walk (mem s) pml4 p + 8 * i) AND PTE_PRESENT \<noteq> 0 \<longrightarrow>
        walk (mem s) pml4 (p @ [i]) \<noteq> 0)"

text \<open>A frame in use that holds no table of the address space: data.\<close>

definition data_frame :: "'a pmm_state_scheme \<Rightarrow> u64 \<Rightarrow> nat \<Rightarrow> bool" where
  "data_frame s pml4 k \<longleftrightarrow> 0 < k \<and> k < 1099511627776 \<and> \<not> frame_free s k \<and>
     (\<forall>p. table_path p \<longrightarrow> walk (mem s) pml4 p \<noteq> PAGE_SIZE * of_nat k)"

text \<open>Every table that was reached is still reached, through the same entries.\<close>

definition tables_kept :: "u64 \<Rightarrow> 'a pmm_state_scheme \<Rightarrow> 'a pmm_state_scheme \<Rightarrow> bool" where
  "tables_kept pml4 s s' \<longleftrightarrow>
     (\<forall>q. table_path q \<longrightarrow> walk (mem s) pml4 q \<noteq> 0 \<longrightarrow> walk (mem s') pml4 q = walk (mem s) pml4 q) \<and>
     (\<forall>q j. table_path (q @ [j]) \<longrightarrow> walk (mem s) pml4 (q @ [j]) \<noteq> 0 \<longrightarrow>
        ld64 (mem s') (walk (mem s) pml4 q + 8 * j) = ld64 (mem s) (walk (mem s) pml4 q + 8 * j))"

text \<open>What the walk of an operation may do: nothing to the view, to a table already reached or to
  a data frame; at most \<open>n\<close> frames are taken.\<close>

definition walk_step :: "nat \<Rightarrow> u64 \<Rightarrow> 'a pmm_state_scheme \<Rightarrow> 'a pmm_state_scheme \<Rightarrow> bool" where
  "walk_step n pml4 s s' \<longleftrightarrow> space_ok s' pml4 \<and>
     (\<forall>v. pte (mem s') pml4 v = pte (mem s) pml4 v) \<and>
     tables_kept pml4 s s' \<and>
     (\<forall>k. data_frame s pml4 k \<longrightarrow> data_frame s' pml4 k \<and>
        (\<forall>x. in_range (PAGE_SIZE * of_nat k) PAGE_SIZE x \<longrightarrow> mem s' x = mem s x)) \<and>
     (\<forall>k. frame_free s' k \<longrightarrow> frame_free s k) \<and>
     card {k. frame_free s k} \<le> card {k. frame_free s' k} + n"

section \<open>Entries and tables\<close>

lemma field_of_address: "drop_bit n (v AND push_bit n (mask k)) = take_bit k (drop_bit n (v :: u64))"
  by (rule bit_word_eqI) (auto simp: bit_simps dest: bit_imp_le_length)

lemma index_eqs:
  "index4 v = take_bit 9 (drop_bit 39 v)" "index3 v = take_bit 9 (drop_bit 30 v)"
  "index2 v = take_bit 9 (drop_bit 21 v)" "index1 v = take_bit 9 (drop_bit 12 v)"
proof -
  have m: "(0x1FF :: u64) = mask 9" by (simp add: mask_numeral)
  show "index4 v = take_bit 9 (drop_bit 39 v)" "index3 v = take_bit 9 (drop_bit 30 v)"
    "index2 v = take_bit 9 (drop_bit 21 v)" "index1 v = take_bit 9 (drop_bit 12 v)"
    unfolding index4_def index3_def index2_def index1_def m by (rule field_of_address)+
qed

lemma index_less [simp]: "index4 v < 512" "index3 v < 512" "index2 v < 512" "index1 v < 512"
proof -
  have "take_bit 9 w < (512 :: u64)" for w :: u64
    by (simp add: take_bit_eq_mod word_less_nat_alt unat_mod)
  then show "index4 v < 512" "index3 v < 512" "index2 v < 512" "index1 v < 512"
    by (simp_all only: index_eqs)
qed

lemma vpath_table_path [simp]: "table_path (vpath v)"
  by (simp add: table_path_def vpath_def)

lemma table_page:
  assumes "is_table s t"
  obtains k where "unat t = 4096 * k" "0 < k" "k < 1099511627776" "\<not> frame_free s k" "t = PAGE_SIZE * of_nat k"
proof -
  obtain k where k: "0 < k" "k < 1099511627776" "t = PAGE_SIZE * of_nat k" "\<not> frame_free s k"
    using assms by (auto simp: is_table_def)
  then have "unat t = 4096 * k" by (simp add: unat_word_ariths unat_of_nat)
  then show thesis using that k by blast
qed

lemma cell_address:
  fixes t i :: u64
  assumes "unat t = 4096 * k" "k < 1099511627776" "i < 512"
  shows "unat (t + 8 * i) = 4096 * k + 8 * unat i" "unat i < 512"
proof -
  show i: "unat i < 512" using assms(3) by (simp add: word_less_nat_alt)
  then have "unat (8 * i) = 8 * unat i" by (simp add: unat_word_ariths)
  then show "unat (t + 8 * i) = 4096 * k + 8 * unat i" using assms i by (simp add: unat_word_ariths)
qed

lemma cells_apart:
  fixes t u i j :: u64
  assumes "unat t = 4096 * k" "k < 1099511627776" "i < 512"
    "unat u = 4096 * l" "l < 1099511627776" "j < 512" "t \<noteq> u \<or> i \<noteq> j"
  shows "ranges_disjoint (t + 8 * i) 8 (u + 8 * j) 8"
proof -
  note a = cell_address [OF assms(1-3)] and b = cell_address [OF assms(4-6)]
  have "k \<noteq> l \<or> unat i \<noteq> unat j"
    using assms(1,4,7) by (auto simp: word_unat_eq_iff)
  then have ne: "512 * k + unat i \<noteq> 512 * l + unat j"
    using block_index_inj [of 512 k "unat i" l "unat j"] a(2) b(2) by blast
  show ?thesis
  proof (cases "512 * k + unat i < 512 * l + unat j")
    case True
    then show ?thesis using a b assms by (intro ranges_disjoint_linear) auto
  next
    case False
    then have "512 * l + unat j < 512 * k + unat i" using ne by simp
    then show ?thesis unfolding ranges_disjoint_sym [of "t + 8 * i"]
      using a b assms by (intro ranges_disjoint_linear) auto
  qed
qed

lemma cell_in_page:
  assumes "unat t = 4096 * k" "k < 1099511627776" "i < 512" "in_range (t + 8 * i) 8 x"
  shows "in_range t PAGE_SIZE x"
proof -
  note a = cell_address [OF assms(1-3)]
  define d where "d = x - (t + 8 * i)"
  have "unat d < 8" using assms(4) by (simp add: d_def in_range_def word_less_nat_alt)
  then have "unat (d + 8 * i) < 4096" using a(2) by (simp add: unat_word_ariths)
  moreover have "x - t = d + 8 * i" by (simp add: d_def)
  ultimately show ?thesis by (simp add: in_range_def word_less_nat_alt)
qed

lemma walk_snoc:
  assumes "t \<noteq> 0"
  shows "walk m t (p @ [i]) = (let u = walk m t p in if u = 0 then 0 else entry_table (ld64 m (u + 8 * i)))"
  using assms by (induction p arbitrary: t) (auto simp: Let_def)

lemma read_entry_write:
  assumes "is_table s t" "is_table s u" "i < 512" "j < 512"
  shows "ld64 (st64 m (u + 8 * j) v) (t + 8 * i) = (if t = u \<and> i = j then v else ld64 m (t + 8 * i))"
proof (cases "t = u \<and> i = j")
  case False
  then have "ranges_disjoint (t + 8 * i) 8 (u + 8 * j) 8"
    using assms by (metis cells_apart table_page)
  with False show ?thesis by (auto simp: cell64.rd_wr_disjoint)
qed (simp add: cell64.rd_wr_same)

text \<open>Writing an entry of a table does not touch the bitmap or another page.\<close>

lemma write_entry_page:
  assumes "is_table s t" "i < 512" "\<not> in_range t PAGE_SIZE x"
  shows "st64 m (t + 8 * i) v x = m x"
  using assms by (elim table_page) (blast intro: cell64.wr_outside dest: cell_in_page)

lemma write_entry_free:
  assumes "pmm_ok s" "is_table s t" "i < 512"
  shows "frame_free (s\<lparr>mem := st64 (mem s) (t + 8 * i) v\<rparr>) k \<longleftrightarrow> frame_free s k"
proof -
  obtain l where l: "t = PAGE_SIZE * of_nat l" "l < 1099511627776" using assms(2) by (elim table_page)
  show ?thesis
    by (rule frame_free_cong)
      (use assms l page_not_in_bitmap [OF assms(1) l(2)] write_entry_page [OF assms(2,3)] in auto)
qed

lemma write_entry_pmm_ok:
  assumes "pmm_ok s" "is_table s t" "i < 512"
  shows "pmm_ok (s\<lparr>mem := st64 (mem s) (t + 8 * i) v\<rparr>)"
  using assms(1) write_entry_free [OF assms, of v 0] by (simp add: pmm_ok_def)

text \<open>Claiming a frame keeps every page in use and every entry of a table.\<close>

lemma claim_keeps_page:
  assumes "pmm_ok s" "frame_free s n" "k < 1099511627776" "\<not> frame_free s k"
    "in_range (PAGE_SIZE * of_nat k) PAGE_SIZE x"
  shows "mem (claim_frame s n) x = mem s x"
proof -
  have "k \<noteq> n" using assms by blast
  then have "\<not> in_range (PAGE_SIZE * of_nat n) PAGE_SIZE x"
    using pages_apart [OF assms(3) frame_address(2) [OF assms(1,2)] _ assms(5)] by blast
  then show ?thesis
    using claim_frame_spec(3) [OF assms(1,2)] page_not_in_bitmap [OF assms(1,3,5)] by blast
qed

lemma claim_keeps_entry:
  assumes "pmm_ok s" "frame_free s n" "is_table s t" "i < 512"
  shows "ld64 (mem (claim_frame s n)) (t + 8 * i) = ld64 (mem s) (t + 8 * i)"
proof -
  obtain k where k: "unat t = 4096 * k" "k < 1099511627776" "\<not> frame_free s k" "t = PAGE_SIZE * of_nat k"
    using assms(3) by (elim table_page)
  show ?thesis
    by (rule cell64.rd_cong)
      (use cell_in_page [OF k(1,2) assms(4)] claim_keeps_page [OF assms(1,2) k(2,3)] k(4) in auto)
qed

section \<open>The walk with allocation\<close>

lemma page_shape:
  assumes "n < 1099511627776"
  shows "PAGE_SIZE * of_nat n = push_bit 12 (take_bit 40 (of_nat n :: u64))"
proof -
  have "take_bit 40 (of_nat n :: u64) = of_nat n"
    using assms by (simp add: take_bit_eq_mod word_unat_eq_iff unat_mod unat_of_nat)
  then show ?thesis by (simp add: push_bit_eq_mult mult.commute)
qed

lemma addr_mask_shape: "PTE_ADDR_MASK = push_bit 12 (mask 40)"
  by (simp add: mask_numeral)

lemma flags_shape: "PTE_PRESENT OR PTE_WRITABLE = mask 2"
  by (simp add: mask_numeral)

lemma page_get_addr:
  assumes "n < 1099511627776"
  shows "PTE_GET_ADDR (PAGE_SIZE * of_nat n) = PAGE_SIZE * of_nat n"
    "PTE_GET_ADDR (PAGE_SIZE * of_nat n OR PTE_PRESENT OR PTE_WRITABLE) = PAGE_SIZE * of_nat n"
  unfolding PTE_GET_ADDR_def page_shape [OF assms] addr_mask_shape flags_shape
  by (rule bit_word_eqI; auto simp: bit_simps)+

lemma entry_table_link:
  assumes "n < 1099511627776"
  shows "entry_table (PAGE_SIZE * of_nat n OR PTE_PRESENT OR PTE_WRITABLE) = PAGE_SIZE * of_nat n"
proof -
  have "bit ((PAGE_SIZE * of_nat n OR PTE_PRESENT OR PTE_WRITABLE) AND PTE_PRESENT) 0"
    unfolding flags_shape by (simp add: bit_simps)
  then have "(PAGE_SIZE * of_nat n OR PTE_PRESENT OR PTE_WRITABLE) AND PTE_PRESENT \<noteq> 0"
    by (metis bit_0_eq bot_apply bot_bool_def)
  then show ?thesis unfolding entry_table_def page_get_addr(2) [OF assms] by (rule if_P)
qed

lemma ld64_zero:
  assumes "\<And>x. in_range a 8 x \<Longrightarrow> m x = 0"
  shows "ld64 m a = 0"
proof -
  have "ld64 m a = ld64 (\<lambda>_. 0) a" by (rule cell64.rd_cong) (use assms in simp)
  then show ?thesis by (simp add: ld64_def eval_nat_numeral)
qed

text \<open>What linking a fresh page into entry \<open>i\<close> of the table on path \<open>p\<close> does to the walks.\<close>

definition link_table :: "'a pmm_state_scheme \<Rightarrow> u64 \<Rightarrow> u64 \<Rightarrow> nat \<Rightarrow> 'a pmm_state_scheme" where
  "link_table s t i n =
     (let s = claim_frame s n
      in s\<lparr>mem := st64 (mem s) (t + 8 * i) (PAGE_SIZE * of_nat n OR PTE_PRESENT OR PTE_WRITABLE)\<rparr>)"

lemma link_table_spec:
  assumes "pmm_ok s" "is_table s t" "i < 512" "frame_free s n"
  shows "pmm_ok (link_table s t i n)"
    "frame_free (link_table s t i n) k \<longleftrightarrow> frame_free s k \<and> k \<noteq> n"
    "is_table s u \<Longrightarrow> j < 512 \<Longrightarrow> ld64 (mem (link_table s t i n)) (u + 8 * j) =
       (if u = t \<and> j = i then PAGE_SIZE * of_nat n OR PTE_PRESENT OR PTE_WRITABLE else ld64 (mem s) (u + 8 * j))"
    "j < 512 \<Longrightarrow> ld64 (mem (link_table s t i n)) (PAGE_SIZE * of_nat n + 8 * j) = 0"
    "is_table s u \<Longrightarrow> is_table (link_table s t i n) u" "is_table (link_table s t i n) (PAGE_SIZE * of_nat n)"
    "\<not> is_table s (PAGE_SIZE * of_nat n)"
proof -
  note addr = frame_address [OF assms(1,4)] and claim = claim_frame_spec [OF assms(1,4)]
  have keeps: "is_table (claim_frame s n) u" if "is_table s u" for u
    using that claim(1) by (auto simp: is_table_def)
  have t': "is_table (claim_frame s n) t" using keeps assms(2) by blast
  obtain l where l: "t = PAGE_SIZE * of_nat l" "l < 1099511627776" "\<not> frame_free s l" "unat t = 4096 * l"
    using assms(2) by (elim table_page)
  have link: "link_table s t i n = (claim_frame s n)\<lparr>mem := st64 (mem (claim_frame s n)) (t + 8 * i)
      (PAGE_SIZE * of_nat n OR PTE_PRESENT OR PTE_WRITABLE)\<rparr>"
    by (simp add: link_table_def Let_def)
  show "pmm_ok (link_table s t i n)"
    unfolding link by (rule write_entry_pmm_ok [OF claim(4) t' assms(3)])
  show free: "frame_free (link_table s t i n) k \<longleftrightarrow> frame_free s k \<and> k \<noteq> n" for k
    unfolding link by (simp only: write_entry_free [OF claim(4) t' assms(3)] claim(1))
  show "is_table s u \<Longrightarrow> is_table (link_table s t i n) u" "is_table (link_table s t i n) (PAGE_SIZE * of_nat n)"
    using free addr by (auto simp: is_table_def)
  show "\<not> is_table s (PAGE_SIZE * of_nat n)"
  proof
    assume "is_table s (PAGE_SIZE * of_nat n)"
    then obtain k where "unat (PAGE_SIZE * of_nat n) = 4096 * k" "\<not> frame_free s k" by (elim table_page)
    with addr(1) assms(4) show False by simp
  qed
  show "ld64 (mem (link_table s t i n)) (u + 8 * j) =
       (if u = t \<and> j = i then PAGE_SIZE * of_nat n OR PTE_PRESENT OR PTE_WRITABLE else ld64 (mem s) (u + 8 * j))"
    if "is_table s u" "j < 512"
    using claim_keeps_entry [OF assms(1,4) that]
      read_entry_write [OF keeps [OF that(1)] t' that(2) assms(3)] by (simp add: link)
  show "ld64 (mem (link_table s t i n)) (PAGE_SIZE * of_nat n + 8 * j) = 0" if "j < 512"
  proof (rule ld64_zero)
    fix x assume "in_range (PAGE_SIZE * of_nat n + 8 * j) 8 x"
    then have x: "in_range (PAGE_SIZE * of_nat n) PAGE_SIZE x"
      using cell_in_page [OF addr(1,2) that] by blast
    moreover have "l \<noteq> n" using l(3) assms(4) by blast
    ultimately have "\<not> in_range t PAGE_SIZE x" unfolding l(1) using pages_apart addr(2) l(2) by metis
    then show "mem (link_table s t i n) x = 0"
      using claim(2) [OF x] write_entry_page [OF t' assms(3)] by (simp add: link)
  qed
qed

lemma table_path_snoc: "table_path (p @ [i]) \<longleftrightarrow> table_path p \<and> length p < 3 \<and> i < 512"
  by (auto simp: table_path_def)

lemma space_okD:
  assumes "space_ok s pml4"
  shows "pmm_ok s" "pml4 \<noteq> 0"
    "table_path p \<Longrightarrow> walk (mem s) pml4 p \<noteq> 0 \<Longrightarrow> is_table s (walk (mem s) pml4 p)"
    "table_path p \<Longrightarrow> table_path q \<Longrightarrow> walk (mem s) pml4 p \<noteq> 0 \<Longrightarrow>
       walk (mem s) pml4 p = walk (mem s) pml4 q \<Longrightarrow> p = q"
    "table_path (p @ [i]) \<Longrightarrow> walk (mem s) pml4 p \<noteq> 0 \<Longrightarrow>
       ld64 (mem s) (walk (mem s) pml4 p + 8 * i) AND PTE_PRESENT \<noteq> 0 \<Longrightarrow> walk (mem s) pml4 (p @ [i]) \<noteq> 0"
  using assms unfolding space_ok_def by blast+

lemma walk_link:
  assumes ok: "space_ok s pml4" and p: "table_path (p @ [i])" "walk (mem s) pml4 p = t" "t \<noteq> 0"
    and absent: "ld64 (mem s) (t + 8 * i) AND PTE_PRESENT = 0" and n: "frame_free s n"
    and q: "table_path q"
  shows "walk (mem (link_table s t i n)) pml4 q =
    (if q = p @ [i] then PAGE_SIZE * of_nat n
     else if take (Suc (length p)) q = p @ [i] then 0 else walk (mem s) pml4 q)"
  using q
proof (induction q rule: rev_induct)
  case Nil
  then show ?case by simp
next
  case (snoc j q)
  note okD = space_okD [OF ok]
  have pi: "table_path p" "length p < 3" "i < 512" using p(1) by (auto simp: table_path_snoc)
  have t: "is_table s t" using okD(3) [OF pi(1)] p by simp
  note link = link_table_spec [OF okD(1) t pi(3) n]
  have qj: "table_path q" "j < 512" using snoc.prems by (auto simp: table_path_snoc)
  let ?m = "mem (link_table s t i n)" and ?N = "PAGE_SIZE * of_nat n"
  have N: "?N \<noteq> 0" using frame_address [OF okD(1) n] by (metis mult_is_0 not_gr_zero unsigned_0 zero_neq_numeral)
  consider (new) "q = p @ [i]" | (under) "q \<noteq> p @ [i]" "take (Suc (length p)) q = p @ [i]"
    | (other) "take (Suc (length p)) q \<noteq> p @ [i]" by blast
  then show ?case
  proof cases
    case new
    then have "walk ?m pml4 q = ?N" using snoc.IH qj by simp
    then have "walk ?m pml4 (q @ [j]) = 0"
      using link(4) [OF qj(2)] N okD(2) by (simp add: walk_snoc entry_table_def)
    with new show ?thesis by simp
  next
    case under
    then have "walk ?m pml4 q = 0" using snoc.IH qj by simp
    then have "walk ?m pml4 (q @ [j]) = 0" using okD(2) by (simp add: walk_snoc)
    moreover have "length p < length q" using arg_cong [OF under(2), of length] by simp
    ultimately show ?thesis using under by auto
  next
    case other
    then have "q \<noteq> p @ [i]" by auto
    then have w: "walk ?m pml4 q = walk (mem s) pml4 q" using snoc.IH qj other by simp
    have pre: "take (Suc (length p)) (q @ [j]) = p @ [i] \<longleftrightarrow> q = p \<and> j = i"
    proof
      assume a: "take (Suc (length p)) (q @ [j]) = p @ [i]"
      then have "length q \<le> length p" using other by (cases "length q \<le> length p") auto
      with a show "q = p \<and> j = i" by simp
    qed simp
    show ?thesis
    proof (cases "walk (mem s) pml4 q = 0")
      case True
      then show ?thesis using w p pre okD(2) by (auto simp: walk_snoc)
    next
      case False
      then have u: "is_table s (walk (mem s) pml4 q)" using okD(3) qj by blast
      have "walk (mem s) pml4 q = t \<longleftrightarrow> q = p" using okD(4) [OF qj(1) pi(1) False] p(2) by auto
      then show ?thesis
        using w False okD(2) pre link(3) [OF u qj(2)] entry_table_link [OF frame_address(2) [OF okD(1) n]]
        by (auto simp: walk_snoc)
    qed
  qed
qed

lemma walk_append:
  "t \<noteq> 0 \<Longrightarrow> walk m t (p @ q) = (let u = walk m t p in if u = 0 then 0 else walk m u q)"
  by (induction p arbitrary: t) (auto simp: Let_def)

lemma walk_below_absent:
  assumes "t \<noteq> 0" "take k q = p" "walk m t p = 0"
  shows "walk m t q = 0"
  using walk_append [OF assms(1), of m p "drop k q"] assms(2,3) append_take_drop_id [of k q] by simp

lemma finite_free: "finite {k. frame_free s k}"
  by (rule finite_subset [of _ "{..<unat (bitmap_size s) * 8}"]) (auto simp: frame_free_def)

text \<open>Entry \<open>i\<close> of the table on path \<open>p\<close> is absent and frame \<open>n\<close> is about to fill it.\<close>

definition linkable :: "'a pmm_state_scheme \<Rightarrow> u64 \<Rightarrow> u64 list \<Rightarrow> u64 \<Rightarrow> nat \<Rightarrow> bool" where
  "linkable s pml4 p i n \<longleftrightarrow> space_ok s pml4 \<and> table_path (p @ [i]) \<and> walk (mem s) pml4 p \<noteq> 0 \<and>
     ld64 (mem s) (walk (mem s) pml4 p + 8 * i) AND PTE_PRESENT = 0 \<and> frame_free s n"

lemma linkableD:
  assumes "linkable s pml4 p i n"
  shows "space_ok s pml4" "pmm_ok s" "table_path (p @ [i])" "table_path p" "i < 512" "frame_free s n"
    "is_table s (walk (mem s) pml4 p)" "walk (mem s) pml4 p \<noteq> 0" "walk (mem s) pml4 (p @ [i]) = 0"
    "PAGE_SIZE * of_nat n \<noteq> (0 :: u64)" "n < 1099511627776"
proof -
  show *: "space_ok s pml4" "table_path (p @ [i])" "frame_free s n" "walk (mem s) pml4 p \<noteq> 0"
    using assms by (simp_all add: linkable_def)
  show ok: "pmm_ok s" and p: "table_path p" "i < 512"
    using * by (auto simp: table_path_snoc dest: space_okD)
  show "is_table s (walk (mem s) pml4 p)" by (rule space_okD(3) [OF *(1) p(1) *(4)])
  show "walk (mem s) pml4 (p @ [i]) = 0"
    using assms space_okD(2) [OF *(1)] by (simp add: linkable_def walk_snoc entry_table_def)
  show n: "n < 1099511627776" using frame_address(2) [OF ok *(3)] .
  show "PAGE_SIZE * of_nat n \<noteq> (0 :: u64)"
    using frame_address [OF ok *(3)] by (metis mult_is_0 not_gr_zero unsigned_0 zero_neq_numeral)
qed

definition linked :: "'a pmm_state_scheme \<Rightarrow> u64 \<Rightarrow> u64 list \<Rightarrow> u64 \<Rightarrow> nat \<Rightarrow> 'a pmm_state_scheme" where
  "linked s pml4 p i n = link_table s (walk (mem s) pml4 p) i n"

lemma linked_spec:
  assumes "linkable s pml4 p i n"
  shows "pmm_ok (linked s pml4 p i n)"
    "frame_free (linked s pml4 p i n) k \<longleftrightarrow> frame_free s k \<and> k \<noteq> n"
    "j < 512 \<Longrightarrow> ld64 (mem (linked s pml4 p i n)) (PAGE_SIZE * of_nat n + 8 * j) = 0"
    "is_table s u \<Longrightarrow> is_table (linked s pml4 p i n) u"
    "is_table (linked s pml4 p i n) (PAGE_SIZE * of_nat n)"
    "\<not> is_table s (PAGE_SIZE * of_nat n)"
  using link_table_spec [OF linkableD(2,7,5,6) [OF assms]] by (simp_all add: linked_def)

lemma linked_walk:
  assumes l: "linkable s pml4 p i n" and q: "table_path q"
  shows "walk (mem (linked s pml4 p i n)) pml4 q =
    (if q = p @ [i] then PAGE_SIZE * of_nat n else walk (mem s) pml4 q)"
proof -
  note D = linkableD [OF l]
  have "walk (mem s) pml4 q = 0" if "take (Suc (length p)) q = p @ [i]"
    by (rule walk_below_absent [OF space_okD(2) [OF D(1)] that D(9)])
  with walk_link [OF D(1,3) refl D(8) _ D(6) q] l show ?thesis by (simp add: linked_def linkable_def)
qed

lemma linked_entry:
  assumes l: "linkable s pml4 p i n" and q: "table_path q" "j < 512" "walk (mem s) pml4 q \<noteq> 0"
  shows "ld64 (mem (linked s pml4 p i n)) (walk (mem s) pml4 q + 8 * j) =
    (if q = p \<and> j = i then PAGE_SIZE * of_nat n OR PTE_PRESENT OR PTE_WRITABLE
     else ld64 (mem s) (walk (mem s) pml4 q + 8 * j))"
proof -
  note D = linkableD [OF l]
  have "is_table s (walk (mem s) pml4 q)" using space_okD(3) [OF D(1) q(1,3)] .
  moreover have "walk (mem s) pml4 q = walk (mem s) pml4 p \<longleftrightarrow> q = p"
    using space_okD(4) [OF D(1) q(1) D(4) q(3)] by blast
  ultimately show ?thesis
    using link_table_spec(3) [OF D(2,7,5,6)] q(2) by (simp only: linked_def)
qed

lemma linked_pte:
  assumes l: "linkable s pml4 p i n"
  shows "pte (mem (linked s pml4 p i n)) pml4 v = pte (mem s) pml4 v"
proof (cases "vpath v = p @ [i]")
  case True
  then show ?thesis using linked_walk [OF l, of "vpath v"] linkableD(3,9,10) [OF l] linked_spec(3) [OF l]
    by (simp add: pte_def Let_def)
next
  case False
  have "vpath v \<noteq> p" using linkableD(3) [OF l] by (auto simp: table_path_def vpath_def)
  with False show ?thesis
    using linked_walk [OF l, of "vpath v"] linked_entry [OF l, of "vpath v" "index1 v"]
    by (cases "walk (mem s) pml4 (vpath v) = 0") (simp_all add: pte_def)
qed

lemma linked_space_ok:
  assumes l: "linkable s pml4 p i n"
  shows "space_ok (linked s pml4 p i n) pml4"
proof -
  note D = linkableD [OF l] and okD = space_okD [OF linkableD(1) [OF l]]
  let ?s = "linked s pml4 p i n" and ?N = "PAGE_SIZE * of_nat n :: u64"
  note w = linked_walk [OF l]
  have new: "walk (mem s) pml4 q \<noteq> ?N" if "table_path q" for q
    using okD(3) [OF that] D(10) linked_spec(6) [OF l] by metis
  have tables: "is_table ?s (walk (mem ?s) pml4 q)" if "table_path q" "walk (mem ?s) pml4 q \<noteq> 0" for q
    using that w [OF that(1)] linked_spec(4,5) [OF l] okD(3) [OF that(1)] by (cases "q = p @ [i]") auto
  have unique: "q = r" if "table_path q" "table_path r" "walk (mem ?s) pml4 q \<noteq> 0"
      "walk (mem ?s) pml4 q = walk (mem ?s) pml4 r" for q r
    using that w [OF that(1)] w [OF that(2)] new [OF that(1)] new [OF that(2)] okD(4) [OF that(1,2)]
    by (auto split: if_splits)
  have present: "walk (mem ?s) pml4 (q @ [j]) \<noteq> 0"
    if a: "table_path (q @ [j])" "walk (mem ?s) pml4 q \<noteq> 0"
      "ld64 (mem ?s) (walk (mem ?s) pml4 q + 8 * j) AND PTE_PRESENT \<noteq> 0" for q j
  proof -
    have qj: "table_path q" "j < 512" using a(1) by (auto simp: table_path_snoc)
    have "q \<noteq> p @ [i]" using a(3) linked_spec(3) [OF l qj(2)] w [OF qj(1)] by auto
    then have "walk (mem ?s) pml4 q = walk (mem s) pml4 q" using w [OF qj(1)] by simp
    then show ?thesis
      using a w [OF a(1)] linked_entry [OF l qj] okD(5) [OF a(1)] D(10)
      by (cases "q = p \<and> j = i") auto
  qed
  show ?thesis
    unfolding space_ok_def using linked_spec(1) [OF l] okD(2) tables unique present by blast
qed

lemma linked_data_frame:
  assumes l: "linkable s pml4 p i n" and d: "data_frame s pml4 k"
  shows "data_frame (linked s pml4 p i n) pml4 k"
    "in_range (PAGE_SIZE * of_nat k) PAGE_SIZE x \<Longrightarrow> mem (linked s pml4 p i n) x = mem s x"
proof -
  note D = linkableD [OF l]
  let ?t = "walk (mem s) pml4 p"
  have k: "k < 1099511627776" "\<not> frame_free s k" "PAGE_SIZE * of_nat k \<noteq> ?t" "k \<noteq> n"
    using d D by (auto simp: data_frame_def)
  have "PAGE_SIZE * of_nat k \<noteq> (PAGE_SIZE * of_nat n :: u64)"
    using unat_frame [OF k(1)] unat_frame [OF D(11)] k(4) by (metis mult_cancel_left zero_neq_numeral)
  then show "data_frame (linked s pml4 p i n) pml4 k"
    using d linked_walk [OF l] linked_spec(2) [OF l] by (simp add: data_frame_def)
  assume x: "in_range (PAGE_SIZE * of_nat k) PAGE_SIZE x"
  obtain m where m: "?t = PAGE_SIZE * of_nat m" "m < 1099511627776" using D(7) by (elim table_page)
  have out: "\<not> in_range ?t PAGE_SIZE x" using pages_apart [OF k(1) m(2) _ x] k(3) m(1) by auto
  have t: "is_table (claim_frame s n) ?t"
    using D(7) claim_frame_spec(1) [OF D(2,6)] by (auto simp: is_table_def)
  show "mem (linked s pml4 p i n) x = mem s x"
    using write_entry_page [OF t D(5) out] claim_keeps_page [OF D(2,6) k(1,2) x]
    by (simp add: linked_def link_table_def Let_def)
qed

lemma linked_tables_kept:
  assumes l: "linkable s pml4 p i n"
  shows "tables_kept pml4 s (linked s pml4 p i n)"
  unfolding tables_kept_def
proof (intro conjI allI impI)
  show "walk (mem (linked s pml4 p i n)) pml4 q = walk (mem s) pml4 q"
    if "table_path q" "walk (mem s) pml4 q \<noteq> 0" for q
    using linked_walk [OF l that(1)] that(2) linkableD(9) [OF l] by auto
  show "ld64 (mem (linked s pml4 p i n)) (walk (mem s) pml4 q + 8 * j) = ld64 (mem s) (walk (mem s) pml4 q + 8 * j)"
    if "table_path (q @ [j])" "walk (mem s) pml4 (q @ [j]) \<noteq> 0" for q j
    using that linked_entry [OF l, of q j] linkableD(9) [OF l] space_okD(2) [OF linkableD(1) [OF l]]
    by (auto simp: table_path_snoc walk_snoc Let_def split: if_splits)
qed

lemma linked_walk_step:
  assumes l: "linkable s pml4 p i n"
  shows "walk_step 1 pml4 s (linked s pml4 p i n)"
proof -
  have "card {k. frame_free s k} \<le> card {k. frame_free (linked s pml4 p i n) k} + 1"
  proof -
    have "{k. frame_free s k} = insert n {k. frame_free (linked s pml4 p i n) k}"
      using linked_spec(2) [OF l] linkableD(6) [OF l] by auto
    then show ?thesis by (simp add: card_insert_if finite_free)
  qed
  then show ?thesis
    using linked_space_ok [OF l] linked_pte [OF l] linked_data_frame [OF l] linked_spec(2) [OF l]
      linked_tables_kept [OF l]
    unfolding walk_step_def by blast
qed

lemma walk_nonzero_prefix: "t \<noteq> 0 \<Longrightarrow> walk m t (q @ [j]) \<noteq> 0 \<Longrightarrow> walk m t q \<noteq> 0"
  by (auto simp: walk_snoc)

lemma tables_kept_trans:
  assumes "pml4 \<noteq> 0" "tables_kept pml4 s s'" "tables_kept pml4 s' s''"
  shows "tables_kept pml4 s s''"
  unfolding tables_kept_def
proof (intro conjI allI impI)
  show "walk (mem s'') pml4 q = walk (mem s) pml4 q" if "table_path q" "walk (mem s) pml4 q \<noteq> 0" for q
    using assms(2,3) that unfolding tables_kept_def by metis
  show "ld64 (mem s'') (walk (mem s) pml4 q + 8 * j) = ld64 (mem s) (walk (mem s) pml4 q + 8 * j)"
    if a: "table_path (q @ [j])" "walk (mem s) pml4 (q @ [j]) \<noteq> 0" for q j
  proof -
    have "walk (mem s') pml4 q = walk (mem s) pml4 q" "walk (mem s') pml4 (q @ [j]) \<noteq> 0"
      using assms(2) a walk_nonzero_prefix [OF assms(1) a(2)]
      by (auto simp: tables_kept_def table_path_snoc)
    then show ?thesis using assms(2,3) a unfolding tables_kept_def by metis
  qed
qed

lemma walk_step_refl: "space_ok s pml4 \<Longrightarrow> walk_step 0 pml4 s s"
  by (simp add: walk_step_def tables_kept_def)

lemma walk_step_trans:
  assumes "walk_step m pml4 s s'" "walk_step n pml4 s' s''"
  shows "walk_step (m + n) pml4 s s''"
proof -
  have "pml4 \<noteq> 0" using assms(1) by (auto simp: walk_step_def dest: space_okD(2))
  then have "tables_kept pml4 s s''"
    using tables_kept_trans assms unfolding walk_step_def by blast
  moreover have "data_frame s'' pml4 k \<and> (\<forall>x. in_range (PAGE_SIZE * of_nat k) PAGE_SIZE x \<longrightarrow> mem s'' x = mem s x)"
    if "data_frame s pml4 k" for k
    using assms that unfolding walk_step_def by metis
  ultimately show ?thesis using assms unfolding walk_step_def by simp
qed

lemma walk_step_mono: "walk_step m pml4 s s' \<Longrightarrow> m \<le> n \<Longrightarrow> walk_step n pml4 s s'"
  by (auto simp: walk_step_def)

lemma walk_stepD:
  assumes "walk_step n pml4 s s'"
  shows "space_ok s' pml4" "pte (mem s') pml4 v = pte (mem s) pml4 v"
    "table_path q \<Longrightarrow> walk (mem s) pml4 q \<noteq> 0 \<Longrightarrow> walk (mem s') pml4 q = walk (mem s) pml4 q"
    "data_frame s pml4 k \<Longrightarrow> data_frame s' pml4 k"
    "data_frame s pml4 k \<Longrightarrow> in_range (PAGE_SIZE * of_nat k) PAGE_SIZE x \<Longrightarrow> mem s' x = mem s x"
    "card {k. frame_free s k} \<le> card {k. frame_free s' k} + n"
    "tables_kept pml4 s s'"
  using assms unfolding walk_step_def tables_kept_def by auto

text \<open>One level: the result is the table that the walk finds there afterwards, and it is 0 only
  when memory has run out.\<close>

lemma get_next_level_step:
  assumes ok: "space_ok s pml4" and p: "table_path (p @ [i])" "walk (mem s) pml4 p = t" "t \<noteq> 0"
    and r: "get_next_level s t i = (u, s')"
  shows "walk_step 1 pml4 s s'" "walk (mem s') pml4 (p @ [i]) = u"
    "u = 0 \<Longrightarrow> {k. frame_free s k} = {} \<and> s' = s"
proof -
  let ?e = "ld64 (mem s) (t + 8 * i)"
  have "walk_step 1 pml4 s s' \<and> walk (mem s') pml4 (p @ [i]) = u \<and>
      (u = 0 \<longrightarrow> {k. frame_free s k} = {} \<and> s' = s)"
  proof (cases "?e AND PTE_PRESENT = 0")
    case False
    then have "u = PTE_GET_ADDR ?e" "s' = s" using r by (auto simp: get_next_level_def)
    moreover have "walk (mem s) pml4 (p @ [i]) = PTE_GET_ADDR ?e"
      using False p space_okD(2) [OF ok] by (simp add: walk_snoc entry_table_def)
    moreover have "walk (mem s) pml4 (p @ [i]) \<noteq> 0" using space_okD(5) [OF ok p(1)] p False by simp
    ultimately show ?thesis using walk_step_mono [OF walk_step_refl [OF ok], of 1] by simp
  next
    case True
    from space_okD(1) [OF ok] show ?thesis
    proof (cases rule: pmm_alloc_frame_cases)
      case none
      then have "u = 0" "s' = s" using r True by (auto simp: get_next_level_def)
      moreover have "walk (mem s) pml4 (p @ [i]) = 0"
        using True p space_okD(2) [OF ok] by (simp add: walk_snoc entry_table_def)
      ultimately show ?thesis using none walk_step_mono [OF walk_step_refl [OF ok], of 1] by simp
    next
      case (some n)
      have l: "linkable s pml4 p i n" using ok p True some(1) by (simp add: linkable_def)
      have "s' = linked s pml4 p i n" "u = PAGE_SIZE * of_nat n"
        using r True some(3) linkableD(10) [OF l] p(2)
        by (auto simp: get_next_level_def linked_def link_table_def Let_def)
      then show ?thesis
        using linked_walk_step [OF l] linked_walk [OF l p(1)] linkableD(10) [OF l] by simp
    qed
  qed
  then show "walk_step 1 pml4 s s'" "walk (mem s') pml4 (p @ [i]) = u"
    "u = 0 \<Longrightarrow> {k. frame_free s k} = {} \<and> s' = s" by simp_all
qed

text \<open>The two lower levels of the walk.\<close>

definition lower_levels :: "'a vmm_state_scheme \<Rightarrow> u64 \<Rightarrow> u64 \<Rightarrow> u64 \<times> 'a vmm_state_scheme" where
  "lower_levels s pml3 virt =
     (let (pml2, s) = get_next_level s pml3 (index3 virt) in
      if pml2 = 0 then (0, s) else get_next_level s pml2 (index2 virt))"

lemma page_table_for_levels:
  "page_table_for s pml4 virt =
     (let (pml3, s) = get_next_level s pml4 (index4 virt) in
      if pml3 = 0 then (0, s) else lower_levels s pml3 virt)"
  unfolding page_table_for_def lower_levels_def by (rule refl)

lemma lower_levels_step:
  assumes ok: "space_ok s pml4" and t: "walk (mem s) pml4 [index4 virt] = t" "t \<noteq> 0"
    and r: "lower_levels s t virt = (u, s')"
  shows "walk_step 2 pml4 s s' \<and> walk (mem s') pml4 (vpath virt) = u \<and> (u = 0 \<longrightarrow> card {k. frame_free s k} < 2)"
proof -
  have p: "table_path ([index4 virt] @ [index3 virt])"
    "table_path ([index4 virt, index3 virt] @ [index2 virt])" by (simp_all add: table_path_def)
  obtain u2 s2 where g2: "get_next_level s t (index3 virt) = (u2, s2)" by (cases "get_next_level s t (index3 virt)")
  note s2 = get_next_level_step [OF ok p(1) t g2]
  show ?thesis
  proof (cases "u2 = 0")
    case True
    then have "u = 0" "s' = s2" using r g2 by (auto simp: lower_levels_def)
    moreover have "walk (mem s2) pml4 (vpath virt) = 0"
      by (rule walk_below_absent [OF space_okD(2) [OF ok], of 2])
        (use s2(2) True in \<open>simp_all add: vpath_def del: walk.simps\<close>)
    ultimately show ?thesis using s2 True walk_step_mono [OF s2(1), of 2] by simp
  next
    case False
    have g1: "get_next_level s2 u2 (index2 virt) = (u, s')" using r g2 False by (auto simp: lower_levels_def)
    have w2: "walk (mem s2) pml4 [index4 virt, index3 virt] = u2" using s2(2) by (simp del: walk.simps)
    note s1 = get_next_level_step [OF walk_stepD(1) [OF s2(1)] p(2) w2 False g1]
    have "card {k. frame_free s k} < 2" if "u = 0"
      using s1(3) [OF that] walk_stepD(6) [OF s2(1)] by simp
    with walk_step_trans [OF s2(1) s1(1)] s1(2) show ?thesis
      by (simp add: vpath_def numeral_2_eq_2 del: walk.simps)
  qed
qed

lemma page_table_for_step:
  assumes ok: "space_ok s pml4" and r: "page_table_for s pml4 virt = (u, s')"
  shows "walk_step 3 pml4 s s'" "walk (mem s') pml4 (vpath virt) = u"
    "u = 0 \<Longrightarrow> card {k. frame_free s k} < 3"
proof -
  obtain u3 s3 where g3: "get_next_level s pml4 (index4 virt) = (u3, s3)" by (cases "get_next_level s pml4 (index4 virt)")
  have nil: "walk (mem s) pml4 [] = pml4" "pml4 \<noteq> 0" using space_okD(2) [OF ok] by simp_all
  have p: "table_path ([] @ [index4 virt])" by (simp add: table_path_def)
  note s3 = get_next_level_step [OF ok p nil g3]
  have "walk_step 3 pml4 s s' \<and> walk (mem s') pml4 (vpath virt) = u \<and> (u = 0 \<longrightarrow> card {k. frame_free s k} < 3)"
  proof (cases "u3 = 0")
    case True
    then have "u = 0" "s' = s3" using r g3 by (auto simp: page_table_for_def)
    moreover have "walk (mem s3) pml4 (vpath virt) = 0"
      by (rule walk_below_absent [OF nil(2), of 1])
        (use s3(2) True in \<open>simp_all add: vpath_def del: walk.simps\<close>)
    ultimately show ?thesis using s3 True walk_step_mono [OF s3(1), of 3] by simp
  next
    case False
    have w3: "walk (mem s3) pml4 [index4 virt] = u3" using s3(2) by (simp del: walk.simps)
    have "lower_levels s3 u3 virt = (u, s')" using r g3 False by (simp add: page_table_for_levels)
    from lower_levels_step [OF walk_stepD(1) [OF s3(1)] w3 False this] walk_step_trans [OF s3(1)] walk_stepD(6) [OF s3(1)]
    show ?thesis by (fastforce simp: numeral_3_eq_3 numeral_2_eq_2)
  qed
  then show "walk_step 3 pml4 s s'" "walk (mem s') pml4 (vpath virt) = u"
    "u = 0 \<Longrightarrow> card {k. frame_free s k} < 3" by simp_all
qed

section \<open>Writing a last-level entry\<close>

text \<open>The last-level table of an address, and the state after a write to its entry there.\<close>

definition write_pte :: "'a pmm_state_scheme \<Rightarrow> u64 \<Rightarrow> u64 \<Rightarrow> u64 \<Rightarrow> 'a pmm_state_scheme" where
  "write_pte s pml4 virt e =
     s\<lparr>mem := st64 (mem s) (walk (mem s) pml4 (vpath virt) + 8 * index1 virt) e\<rparr>"

lemma write_pte_entry:
  assumes ok: "space_ok s pml4" and t: "walk (mem s) pml4 (vpath virt) \<noteq> 0"
    and q: "table_path q" "walk (mem s) pml4 q \<noteq> 0" "j < 512"
  shows "ld64 (mem (write_pte s pml4 virt e)) (walk (mem s) pml4 q + 8 * j) =
    (if q = vpath virt \<and> j = index1 virt then e else ld64 (mem s) (walk (mem s) pml4 q + 8 * j))"
proof -
  note okD = space_okD [OF ok]
  have "walk (mem s) pml4 q = walk (mem s) pml4 (vpath virt) \<longleftrightarrow> q = vpath virt"
    using okD(4) [OF q(1) vpath_table_path q(2)] by blast
  with read_entry_write [OF okD(3) [OF q(1,2)] okD(3) [OF vpath_table_path t] q(3) index_less(4)]
  show ?thesis by (simp add: write_pte_def)
qed

lemma write_pte_walk:
  assumes ok: "space_ok s pml4" and t: "walk (mem s) pml4 (vpath virt) \<noteq> 0" and q: "table_path q"
  shows "walk (mem (write_pte s pml4 virt e)) pml4 q = walk (mem s) pml4 q"
  using q
proof (induction q rule: rev_induct)
  case (snoc j q)
  then have qj: "table_path q" "j < 512" "length q < 3" by (auto simp: table_path_snoc)
  then have "q \<noteq> vpath virt" by (auto simp: vpath_def)
  then show ?case
    using snoc.IH [OF qj(1)] write_pte_entry [OF ok t qj(1) _ qj(2)] space_okD(2) [OF ok]
    by (auto simp: walk_snoc Let_def)
qed simp

lemma write_pte_free:
  assumes ok: "space_ok s pml4" and t: "walk (mem s) pml4 (vpath virt) \<noteq> 0"
  shows "frame_free (write_pte s pml4 virt e) k \<longleftrightarrow> frame_free s k"
  unfolding write_pte_def
  by (rule write_entry_free) (use space_okD(1) [OF ok] space_okD(3) [OF ok vpath_table_path t] in simp_all)

lemma write_pte_kept:
  assumes ok: "space_ok s pml4" and t: "walk (mem s) pml4 (vpath virt) \<noteq> 0"
  shows "tables_kept pml4 s (write_pte s pml4 virt e)"
  unfolding tables_kept_def
proof (intro conjI allI impI)
  show "walk (mem (write_pte s pml4 virt e)) pml4 q = walk (mem s) pml4 q" if "table_path q" for q
    by (rule write_pte_walk [OF ok t that])
  show "ld64 (mem (write_pte s pml4 virt e)) (walk (mem s) pml4 q + 8 * j) = ld64 (mem s) (walk (mem s) pml4 q + 8 * j)"
    if a: "table_path (q @ [j])" "walk (mem s) pml4 (q @ [j]) \<noteq> 0" for q j
    using write_pte_entry [OF ok t, of q j e] a walk_nonzero_prefix [OF space_okD(2) [OF ok] a(2)]
    by (auto simp: table_path_snoc vpath_def)
qed

lemma write_pte_space_ok:
  assumes ok: "space_ok s pml4" and t: "walk (mem s) pml4 (vpath virt) \<noteq> 0"
  shows "space_ok (write_pte s pml4 virt e) pml4"
proof -
  note okD = space_okD [OF ok]
  let ?s = "write_pte s pml4 virt e"
  note w = write_pte_walk [OF ok t, of _ e]
  have "pmm_ok ?s" unfolding write_pte_def
    by (rule write_entry_pmm_ok) (use okD(1) okD(3) [OF vpath_table_path t] in simp_all)
  moreover have "is_table ?s (walk (mem ?s) pml4 q)" if "table_path q" "walk (mem ?s) pml4 q \<noteq> 0" for q
    using okD(3) [OF that(1)] that w [OF that(1)] by (simp add: is_table_def write_pte_free [OF ok t])
  moreover have "q = r" if "table_path q" "table_path r" "walk (mem ?s) pml4 q \<noteq> 0"
      "walk (mem ?s) pml4 q = walk (mem ?s) pml4 r" for q r
    using that okD(4) [OF that(1,2)] w by simp
  moreover have "walk (mem ?s) pml4 (q @ [j]) \<noteq> 0"
    if a: "table_path (q @ [j])" "walk (mem ?s) pml4 q \<noteq> 0"
      "ld64 (mem ?s) (walk (mem ?s) pml4 q + 8 * j) AND PTE_PRESENT \<noteq> 0" for q j
  proof -
    have qj: "table_path q" "j < 512" "q \<noteq> vpath virt"
      using a(1) by (auto simp: table_path_snoc vpath_def)
    then show ?thesis
      using a w [OF qj(1)] w [OF a(1)] write_pte_entry [OF ok t qj(1) _ qj(2)] okD(5) [OF a(1)] by simp
  qed
  ultimately show ?thesis
    unfolding space_ok_def using okD(2) by blast
qed

lemma write_pte_view:
  assumes ok: "space_ok s pml4" and t: "walk (mem s) pml4 (vpath virt) \<noteq> 0"
  shows "pte (mem (write_pte s pml4 virt e)) pml4 v = (if same_page virt v then e else pte (mem s) pml4 v)"
  using write_pte_walk [OF ok t, of "vpath v" e] write_pte_entry [OF ok t, of "vpath v" "index1 v" e] t
  by (auto simp: pte_def Let_def same_page_def)

lemma write_pte_data_frame:
  assumes ok: "space_ok s pml4" and t: "walk (mem s) pml4 (vpath virt) \<noteq> 0" and d: "data_frame s pml4 k"
  shows "data_frame (write_pte s pml4 virt e) pml4 k"
    "in_range (PAGE_SIZE * of_nat k) PAGE_SIZE x \<Longrightarrow> mem (write_pte s pml4 virt e) x = mem s x"
proof -
  let ?t = "walk (mem s) pml4 (vpath virt)"
  show "data_frame (write_pte s pml4 virt e) pml4 k"
    using d write_pte_walk [OF ok t] write_pte_free [OF ok t] by (simp add: data_frame_def)
  have tab: "is_table s ?t" by (rule space_okD(3) [OF ok vpath_table_path t])
  then obtain l where l: "?t = PAGE_SIZE * of_nat l" "l < 1099511627776" by (elim table_page)
  have k: "k < 1099511627776" "PAGE_SIZE * of_nat k \<noteq> ?t"
    using d by (auto simp: data_frame_def dest: spec [of _ "vpath virt"])
  assume x: "in_range (PAGE_SIZE * of_nat k) PAGE_SIZE x"
  have "\<not> in_range ?t PAGE_SIZE x" using pages_apart [OF k(1) l(2) _ x] k(2) l(1) by auto
  then show "mem (write_pte s pml4 virt e) x = mem s x"
    using write_entry_page [OF tab index_less(4)] by (simp add: write_pte_def)
qed

text \<open>What an operation that succeeds does to an address space: the view changes at one page, the
  data frames stay as they are, and at most three frames become tables.\<close>

definition pte_update :: "u64 \<Rightarrow> u64 \<Rightarrow> u64 \<Rightarrow> 'a pmm_state_scheme \<Rightarrow> 'a pmm_state_scheme \<Rightarrow> bool" where
  "pte_update pml4 virt e s s' \<longleftrightarrow> space_ok s' pml4 \<and>
     (\<forall>v. pte (mem s') pml4 v = (if same_page virt v then e else pte (mem s) pml4 v)) \<and>
     tables_kept pml4 s s' \<and>
     (\<forall>k. data_frame s pml4 k \<longrightarrow> data_frame s' pml4 k \<and>
        (\<forall>x. in_range (PAGE_SIZE * of_nat k) PAGE_SIZE x \<longrightarrow> mem s' x = mem s x)) \<and>
     (\<forall>k. frame_free s' k \<longrightarrow> frame_free s k) \<and>
     card {k. frame_free s k} \<le> card {k. frame_free s' k} + 3"

lemma walk_then_write:
  assumes st: "walk_step 3 pml4 s s1" and t: "walk (mem s1) pml4 (vpath virt) \<noteq> 0"
  shows "pte_update pml4 virt e s (write_pte s1 pml4 virt e)"
proof -
  note ok = walk_stepD(1) [OF st]
  have free: "frame_free (write_pte s1 pml4 virt e) = frame_free s1"
    by (rule ext) (rule write_pte_free [OF ok t])
  have data: "mem (write_pte s1 pml4 virt e) x = mem s x"
    if "data_frame s pml4 k" "in_range (PAGE_SIZE * of_nat k) PAGE_SIZE x" for k x
    using write_pte_data_frame(2) [OF ok t walk_stepD(4) [OF st that(1)] that(2)]
      walk_stepD(5) [OF st that] by simp
  show ?thesis
    unfolding pte_update_def free
    using write_pte_view [OF ok t] write_pte_space_ok [OF ok t] data
      write_pte_data_frame(1) [OF ok t walk_stepD(4) [OF st]] walk_stepD(2,6) [OF st] st
      tables_kept_trans [OF space_okD(2) [OF ok] walk_stepD(7) [OF st] write_pte_kept [OF ok t]]
    by (simp add: walk_step_def)
qed

text \<open>The address has its last-level table already, or there is memory for all three levels.\<close>

definition has_room :: "'a pmm_state_scheme \<Rightarrow> u64 \<Rightarrow> u64 \<Rightarrow> bool" where
  "has_room s pml4 virt \<longleftrightarrow> walk (mem s) pml4 (vpath virt) \<noteq> 0 \<or> 3 \<le> card {k. frame_free s k}"

lemma page_table_for_room:
  assumes "space_ok s pml4" "has_room s pml4 virt" "page_table_for s pml4 virt = (u, s')"
  shows "u \<noteq> 0"
proof -
  note st = page_table_for_step [OF assms(1,3)]
  show ?thesis
    using assms(2) st walk_stepD(3) [OF st(1) vpath_table_path] by (auto simp: has_room_def)
qed

lemma pte_update_tlb:
  "pte_update pml4 virt e s (tlb_flush_single s' w) \<longleftrightarrow> pte_update pml4 virt e s s'"
proof -
  have f: "frame_free (tlb_flush_single s' w) k \<longleftrightarrow> frame_free s' k" for k
    by (rule frame_free_cong) (simp_all add: tlb_flush_single_def)
  have m: "mem (tlb_flush_single s' w) = mem s'" by (simp add: tlb_flush_single_def)
  have "pmm_ok (tlb_flush_single s' w) \<longleftrightarrow> pmm_ok s'"
    unfolding pmm_ok_def f by (simp add: tlb_flush_single_def)
  then have "space_ok (tlb_flush_single s' w) pml4 \<longleftrightarrow> space_ok s' pml4"
    by (simp add: space_ok_def is_table_def f m)
  then show ?thesis by (simp add: pte_update_def data_frame_def tables_kept_def f m)
qed

lemma pte_updateD:
  assumes "pte_update pml4 virt e s s'"
  shows "space_ok s' pml4" "pte (mem s') pml4 v = (if same_page virt v then e else pte (mem s) pml4 v)"
    "table_path q \<Longrightarrow> walk (mem s) pml4 q \<noteq> 0 \<Longrightarrow> walk (mem s') pml4 q = walk (mem s) pml4 q"
    "data_frame s pml4 k \<Longrightarrow> data_frame s' pml4 k"
    "data_frame s pml4 k \<Longrightarrow> in_range (PAGE_SIZE * of_nat k) PAGE_SIZE x \<Longrightarrow> mem s' x = mem s x"
    "frame_free s' k \<Longrightarrow> frame_free s k"
    "card {k. frame_free s k} \<le> card {k. frame_free s' k} + 3"
    "tables_kept pml4 s s'"
  using assms unfolding pte_update_def tables_kept_def by auto

lemma same_page_pte: "same_page v w \<Longrightarrow> pte m pml4 v = pte m pml4 w"
  by (simp add: same_page_def pte_def Let_def)

text \<open>A second write to the same entry.\<close>

lemma write_again:
  assumes up: "pte_update pml4 virt e s s1" and t: "walk (mem s1) pml4 (vpath virt) \<noteq> 0"
  shows "pte_update pml4 virt e' s (write_pte s1 pml4 virt e')"
proof -
  note ok = pte_updateD(1) [OF up]
  have free: "frame_free (write_pte s1 pml4 virt e') = frame_free s1"
    by (rule ext) (rule write_pte_free [OF ok t])
  have data: "mem (write_pte s1 pml4 virt e') x = mem s x"
    if "data_frame s pml4 k" "in_range (PAGE_SIZE * of_nat k) PAGE_SIZE x" for k x
    using write_pte_data_frame(2) [OF ok t pte_updateD(4) [OF up that(1)] that(2)]
      pte_updateD(5) [OF up that] by simp
  show ?thesis
    unfolding pte_update_def free
    using write_pte_view [OF ok t] write_pte_space_ok [OF ok t] data
      write_pte_data_frame(1) [OF ok t pte_updateD(4) [OF up]] pte_updateD(2,7) [OF up] up
      tables_kept_trans [OF space_okD(2) [OF ok] pte_updateD(8) [OF up] write_pte_kept [OF ok t]]
    by (simp add: pte_update_def)
qed

lemma walk_step_pte_update:
  assumes "walk_step 3 pml4 s s'" "pte (mem s) pml4 virt = e"
  shows "pte_update pml4 virt e s s'"
  using assms same_page_pte [of virt _ "mem s" pml4] unfolding walk_step_def pte_update_def by auto

section \<open>The operations on the view\<close>

lemma vmm_map_page_step:
  assumes ok: "space_ok s pml4"
  shows "has_room s pml4 virt \<Longrightarrow> pte_update pml4 virt (phys OR flags) s (vmm_map_page s pml4 phys virt flags)"
    "pte_update pml4 virt (phys OR flags) s (vmm_map_page s pml4 phys virt flags) \<or>
     walk_step 3 pml4 s (vmm_map_page s pml4 phys virt flags)"
proof -
  obtain u s1 where r: "page_table_for s pml4 virt = (u, s1)" by (cases "page_table_for s pml4 virt")
  note st = page_table_for_step [OF ok r]
  have "pte_update pml4 virt (phys OR flags) s (vmm_map_page s pml4 phys virt flags)" if "u \<noteq> 0"
    using walk_then_write [OF st(1), of virt "phys OR flags"] st(2) that
    by (simp add: vmm_map_page_def r pte_update_tlb write_pte_def)
  moreover have "vmm_map_page s pml4 phys virt flags = s1" if "u = 0"
    using that by (simp add: vmm_map_page_def r)
  ultimately show "has_room s pml4 virt \<Longrightarrow> pte_update pml4 virt (phys OR flags) s (vmm_map_page s pml4 phys virt flags)"
    "pte_update pml4 virt (phys OR flags) s (vmm_map_page s pml4 phys virt flags) \<or>
     walk_step 3 pml4 s (vmm_map_page s pml4 phys virt flags)"
    using page_table_for_room [OF ok _ r] st(1) by auto
qed

lemma vmm_unmap_page_step:
  assumes ok: "space_ok s pml4"
  shows "pte_update pml4 virt 0 s (vmm_unmap_page s pml4 virt)"
proof -
  obtain u s1 where r: "page_table_for s pml4 virt = (u, s1)" by (cases "page_table_for s pml4 virt")
  note st = page_table_for_step [OF ok r]
  show ?thesis
  proof (cases "u = 0")
    case True
    then have "pte (mem s) pml4 virt = 0"
      using st(2) walk_stepD(2) [OF st(1), of virt] by (simp add: pte_def)
    with True st(1) show ?thesis by (simp add: vmm_unmap_page_def r walk_step_pte_update)
  next
    case False
    then show ?thesis
      using walk_then_write [OF st(1), of virt 0] st(2)
      by (simp add: vmm_unmap_page_def r pte_update_tlb write_pte_def)
  qed
qed

lemma vmm_update_flags_step:
  assumes ok: "space_ok s pml4" and room: "has_room s pml4 virt"
  shows "pte_update pml4 virt ((pte (mem s) pml4 virt AND NOT (7 OR PTE_NX)) OR flags) s
           (vmm_update_flags s pml4 virt flags)"
proof -
  obtain u s1 where r: "page_table_for s pml4 virt = (u, s1)" by (cases "page_table_for s pml4 virt")
  note st = page_table_for_step [OF ok r]
  have u: "u \<noteq> 0" by (rule page_table_for_room [OF ok room r])
  have t: "walk (mem s1) pml4 (vpath virt) \<noteq> 0" using st(2) u by simp
  let ?old = "ld64 (mem s1) (u + 8 * index1 virt)"
  have old: "?old = pte (mem s) pml4 virt"
    using walk_stepD(2) [OF st(1), of virt] st(2) u by (simp add: pte_def)
  let ?e1 = "pte (mem s) pml4 virt AND NOT (7 OR PTE_NX)"
  let ?s2 = "write_pte s1 pml4 virt ?e1"
  have w: "walk (mem ?s2) pml4 (vpath virt) = u"
    using write_pte_walk [OF walk_stepD(1) [OF st(1)] t vpath_table_path] st(2) by simp
  have up: "pte_update pml4 virt ?e1 s ?s2" by (rule walk_then_write [OF st(1) t])
  have "vmm_update_flags s pml4 virt flags = tlb_flush_single (write_pte ?s2 pml4 virt (?e1 OR flags)) virt"
    using u st(2) w old
    by (simp add: vmm_update_flags_def r Let_def write_pte_def cell64.rd_wr_same)
  then show ?thesis using write_again [OF up] w u by (simp add: pte_update_tlb)
qed

lemma page_align_same_page: "same_page (PAGE_ALIGN v) v"
proof -
  have m: "(4095 :: u64) = mask 12" by (simp add: mask_numeral)
  have "take_bit 9 (drop_bit n (PAGE_ALIGN v)) = take_bit 9 (drop_bit n v)" if "12 \<le> n" for n
    unfolding PAGE_ALIGN_def ALIGN_DOWN_def using that
    by (intro bit_word_eqI) (auto simp: bit_simps m dest: bit_imp_le_length)
  then show ?thesis by (simp add: same_page_def vpath_def index_eqs)
qed

lemma vmm_get_phys_step:
  assumes ok: "space_ok s pml4" and r: "vmm_get_phys s pml4 virt = (phys, s')"
  shows "phys = PTE_GET_ADDR (pte (mem s) pml4 virt)" "walk_step 3 pml4 s s'"
proof -
  let ?v = "PAGE_ALIGN virt"
  obtain u s1 where t: "page_table_for s pml4 ?v = (u, s1)" by (cases "page_table_for s pml4 ?v")
  note st = page_table_for_step [OF ok t]
  have "pte (mem s) pml4 virt = pte (mem s1) pml4 ?v"
    using walk_stepD(2) [OF st(1), of ?v] same_page_pte [OF page_align_same_page [of virt]] by metis
  then show "phys = PTE_GET_ADDR (pte (mem s) pml4 virt)" "walk_step 3 pml4 s s'"
    using r st by (auto simp: vmm_get_phys_def t Let_def pte_def PTE_GET_ADDR_def split: if_splits)
qed

section \<open>The contract of an address space\<close>

text \<open>What the clients of the page tables rely on: a view from addresses to entries, updated at one
  page by each operation, and a count of the frames that are left.\<close>

locale address_space =
  fixes ok :: "'s \<Rightarrow> bool" and view :: "'s \<Rightarrow> u64 \<Rightarrow> u64" and frames :: "'s \<Rightarrow> nat"
    and map_page :: "'s \<Rightarrow> u64 \<Rightarrow> u64 \<Rightarrow> u64 \<Rightarrow> 's" and unmap_page :: "'s \<Rightarrow> u64 \<Rightarrow> 's"
    and get_phys :: "'s \<Rightarrow> u64 \<Rightarrow> u64 \<times> 's"
  assumes ok_map: "ok s \<Longrightarrow> ok (map_page s p v f)"
    and view_map: "ok s \<Longrightarrow> 3 \<le> frames s \<Longrightarrow>
      view (map_page s p v f) w = (if same_page v w then p OR f else view s w)"
    and view_map_other: "ok s \<Longrightarrow> \<not> same_page v w \<Longrightarrow> view (map_page s p v f) w = view s w"
    and frames_map: "ok s \<Longrightarrow> frames s \<le> frames (map_page s p v f) + 3"
    and ok_unmap: "ok s \<Longrightarrow> ok (unmap_page s v)"
    and view_unmap: "ok s \<Longrightarrow> view (unmap_page s v) w = (if same_page v w then 0 else view s w)"
    and phys_view: "ok s \<Longrightarrow> fst (get_phys s v) = PTE_GET_ADDR (view s v)"
    and ok_phys: "ok s \<Longrightarrow> ok (snd (get_phys s v))"
    and view_phys: "ok s \<Longrightarrow> view (snd (get_phys s v)) w = view s w"
begin

text \<open>The address written by a mapping is read back from every address of the page.\<close>

lemma phys_of_map:
  assumes "ok s" "3 \<le> frames s" "same_page v w"
  shows "fst (get_phys (map_page s p v f) w) = PTE_GET_ADDR (p OR f)"
  using assms by (simp add: phys_view ok_map view_map)

text \<open>Unmapping a fresh mapping restores the view.\<close>

lemma unmap_of_map:
  assumes "ok s" "view s v = 0" "\<And>w. same_page v w \<Longrightarrow> view s w = view s v"
  shows "view (unmap_page (map_page s p v f) v) w = view s w"
  using assms by (simp add: view_unmap ok_map view_map_other)

end

interpretation vmm: address_space "\<lambda>s. space_ok s pml4" "\<lambda>s. pte (mem s) pml4"
  "\<lambda>s. card {k. frame_free s k}" "\<lambda>s. vmm_map_page s pml4" "\<lambda>s. vmm_unmap_page s pml4"
  "\<lambda>s. vmm_get_phys s pml4" for pml4
proof unfold_locales
  fix s :: "'a vmm_state_scheme" and p v f w :: u64
  assume ok: "space_ok s pml4"
  note map = vmm_map_page_step [OF ok, of v p f] and unmap = vmm_unmap_page_step [OF ok, of v]
  note phys = vmm_get_phys_step [OF ok prod.collapse [symmetric], of v]
  show "space_ok (vmm_map_page s pml4 p v f) pml4"
    using map(2) by (auto dest: pte_updateD(1) walk_stepD(1))
  show "3 \<le> card {k. frame_free s k} \<Longrightarrow> pte (mem (vmm_map_page s pml4 p v f)) pml4 w =
      (if same_page v w then p OR f else pte (mem s) pml4 w)"
    using map(1) by (simp add: has_room_def pte_updateD(2))
  show "\<not> same_page v w \<Longrightarrow> pte (mem (vmm_map_page s pml4 p v f)) pml4 w = pte (mem s) pml4 w"
    using map(2) by (metis pte_updateD(2) walk_stepD(2))
  show "card {k. frame_free s k} \<le> card {k. frame_free (vmm_map_page s pml4 p v f) k} + 3"
    using map(2) by (auto dest: pte_updateD(7) walk_stepD(6))
  show "space_ok (vmm_unmap_page s pml4 v) pml4"
    "pte (mem (vmm_unmap_page s pml4 v)) pml4 w = (if same_page v w then 0 else pte (mem s) pml4 w)"
    using pte_updateD(1,2) [OF unmap] by auto
  show "fst (vmm_get_phys s pml4 v) = PTE_GET_ADDR (pte (mem s) pml4 v)"
    "space_ok (snd (vmm_get_phys s pml4 v)) pml4"
    "pte (mem (snd (vmm_get_phys s pml4 v))) pml4 w = pte (mem s) pml4 w"
    using phys walk_stepD(1,2) [OF phys(2)] by auto
qed

section \<open>A new address space\<close>

lemma copy_pagemap_outside:
  assumes "unat new = 4096 * k" "k < 1099511627776" "\<not> in_range new PAGE_SIZE x"
  shows "copy_pagemap m new root i x = m x"
  using assms
proof (induction m new root i rule: copy_pagemap.induct)
  case (1 m new root i)
  then show ?case
    using cell64.wr_outside [of "new + 8 * i" x m] cell_in_page [OF "1.prems"(1,2)]
    by (subst copy_pagemap.simps) (cases "i < 512"; auto)
qed

lemma copy_pagemap_entry:
  assumes "unat new = 4096 * k" "k < 1099511627776" "unat root = 4096 * l" "l < 1099511627776"
    "new \<noteq> root" "j < 512"
  shows "ld64 (copy_pagemap m new root i) (new + 8 * j) =
    (if i \<le> j then ld64 m (root + 8 * j) else ld64 m (new + 8 * j))"
  using assms
proof (induction m new root i rule: copy_pagemap.induct)
  case (1 m new root i)
  show ?case
  proof (cases "i < 512")
    case True
    let ?m = "st64 m (new + 8 * i) (ld64 m (root + 8 * i))"
    have "ld64 ?m (root + 8 * j) = ld64 m (root + 8 * j)"
      using cells_apart [OF "1.prems"(3,4,6) "1.prems"(1,2) True] "1.prems"(5)
      by (auto simp: cell64.rd_wr_disjoint)
    moreover have "ld64 ?m (new + 8 * j) = (if i = j then ld64 m (root + 8 * i) else ld64 m (new + 8 * j))"
      using cells_apart [OF "1.prems"(1,2,6) "1.prems"(1,2) True]
      by (auto simp: cell64.rd_wr_disjoint cell64.rd_wr_same)
    moreover have "i + 1 \<le> j \<longleftrightarrow> i < j" by (rule Suc_le_iff_less [OF True])
    ultimately show ?thesis
      using "1.IH" [OF True "1.prems"] True by (subst copy_pagemap.simps) auto
  next
    case False
    then show ?thesis using "1.prems"(6) by (subst copy_pagemap.simps) auto
  qed
qed

lemma walk_cong:
  assumes "t \<noteq> 0" "table_path q"
    "\<And>q j. table_path q \<Longrightarrow> walk m t q \<noteq> 0 \<Longrightarrow> j < 512 \<Longrightarrow>
       ld64 m' (walk m t q + 8 * j) = ld64 m (walk m t q + 8 * j)"
  shows "walk m' t q = walk m t q"
  using assms(2)
proof (induction q rule: rev_induct)
  case (snoc j q)
  then show ?case using assms(1) assms(3) [of q j] by (auto simp: walk_snoc table_path_snoc Let_def)
qed simp

text \<open>The state after \<open>vmm_make_pml4\<close>, when frame \<open>n\<close> is the lowest free one.\<close>

lemma make_pml4_memory:
  assumes ok: "space_ok s (root_pagemap s)" and n: "frame_free s n" "\<forall>k<n. \<not> frame_free s k"
    and r: "vmm_make_pml4 s = (new, s')"
  shows "new = PAGE_SIZE * of_nat n" "pmm_ok s'" "frame_free s' k \<longleftrightarrow> frame_free s k \<and> k \<noteq> n"
    "j < 512 \<Longrightarrow> ld64 (mem s') (new + 8 * j) = ld64 (mem s) (root_pagemap s + 8 * j)"
    "is_table s u \<Longrightarrow> j < 512 \<Longrightarrow> ld64 (mem s') (u + 8 * j) = ld64 (mem s) (u + 8 * j)"
    "root_pagemap s' = root_pagemap s"
proof -
  note okD = space_okD [OF ok]
  note addr = frame_address [OF okD(1) n(1)] and claim = claim_frame_spec [OF okD(1) n(1)]
  have R: "is_table s (root_pagemap s)" using okD(3) [of "[]"] okD(2) by (simp add: table_path_def)
  then obtain l where l: "unat (root_pagemap s) = 4096 * l" "l < 1099511627776" "\<not> frame_free s l"
    by (elim table_page)
  have alloc: "pmm_alloc_frame s = (PAGE_SIZE * of_nat n, claim_frame s n)"
    using alloc_loop_first [OF okD(1) n(1), of 0] n(2) by (simp add: pmm_alloc_frame_def)
  have more: "root_pagemap (claim_frame s n) = root_pagemap s"
    by (simp add: claim_frame_def bitmap_set_bit_def Let_def)
  show new: "new = PAGE_SIZE * of_nat n" using r alloc by (simp add: vmm_make_pml4_def)
  have s': "s' = (claim_frame s n)\<lparr>mem := copy_pagemap (mem (claim_frame s n)) new (root_pagemap s) 0\<rparr>"
    using r alloc more by (simp add: vmm_make_pml4_def new)
  have new_page: "unat new = 4096 * n" "n < 1099511627776" using addr new by simp_all
  note out = copy_pagemap_outside [OF new_page]
  show free: "frame_free s' k \<longleftrightarrow> frame_free s k \<and> k \<noteq> n" for k
  proof -
    have "mem s' x = mem (claim_frame s n) x" if "in_bitmap (claim_frame s n) x" for x
      using out [of x] page_not_in_bitmap [OF claim(4) addr(2), of x] new that s' by auto
    then have "frame_free s' k \<longleftrightarrow> frame_free (claim_frame s n) k"
      by (intro frame_free_cong) (use s' in simp_all)
    then show ?thesis using claim(1) by simp
  qed
  show "pmm_ok s'" using claim(4) free [of 0] okD(1) s' by (simp add: pmm_ok_def)
  show "root_pagemap s' = root_pagemap s" using s' more by simp
  have "new \<noteq> root_pagemap s" using l new_page n(1) by auto
  then show "ld64 (mem s') (new + 8 * j) = ld64 (mem s) (root_pagemap s + 8 * j)" if "j < 512"
    using copy_pagemap_entry [OF new_page l(1,2) _ that] claim_keeps_entry [OF okD(1) n(1) R that]
    by (simp add: s')
  show "ld64 (mem s') (u + 8 * j) = ld64 (mem s) (u + 8 * j)" if u: "is_table s u" "j < 512"
  proof -
    obtain k where k: "unat u = 4096 * k" "k < 1099511627776" "\<not> frame_free s k" "u = PAGE_SIZE * of_nat k"
      using u(1) by (elim table_page)
    have "k \<noteq> n" using k(3) n(1) by blast
    then have "mem s' x = mem (claim_frame s n) x" if "in_range (u + 8 * j) 8 x" for x
      using out pages_apart [OF k(2) addr(2)] cell_in_page [OF k(1,2) u(2) that] k(4) new s' by simp
    then have "ld64 (mem s') (u + 8 * j) = ld64 (mem (claim_frame s n)) (u + 8 * j)"
      by (intro cell64.rd_cong)
    then show ?thesis using claim_keeps_entry [OF okD(1) n(1) u] by simp
  qed
qed

lemma make_pml4_walks:
  assumes ok: "space_ok s (root_pagemap s)" and n: "frame_free s n" "\<forall>k<n. \<not> frame_free s k"
    and r: "vmm_make_pml4 s = (new, s')" and q: "table_path q"
  shows "walk (mem s') (root_pagemap s) q = walk (mem s) (root_pagemap s) q"
    "walk (mem s') new q = (if q = [] then new else walk (mem s) (root_pagemap s) q)"
proof -
  note okD = space_okD [OF ok] and mk = make_pml4_memory [OF ok n r]
  show root: "walk (mem s') (root_pagemap s) q = walk (mem s) (root_pagemap s) q"
    by (rule walk_cong [OF okD(2) q]) (use mk(5) okD(3) in blast)
  show "walk (mem s') new q = (if q = [] then new else walk (mem s) (root_pagemap s) q)"
  proof (cases q)
    case (Cons i r)
    have i: "i < 512" using q Cons by (simp add: table_path_def)
    have "is_table s (root_pagemap s)" using okD(3) [of "[]"] okD(2) by (simp add: table_path_def)
    then have "walk (mem s') new q = walk (mem s') (root_pagemap s) q"
      using mk(4,5) i by (simp add: Cons)
    then show ?thesis using root Cons by simp
  qed simp
qed

lemma make_pml4_space:
  assumes ok: "space_ok s (root_pagemap s)" and n: "frame_free s n" "\<forall>k<n. \<not> frame_free s k"
    and r: "vmm_make_pml4 s = (new, s')"
  shows "space_ok s' new" "pte (mem s') new v = pte (mem s) (root_pagemap s) v"
    "pte (mem s') (root_pagemap s) v = pte (mem s) (root_pagemap s) v"
proof -
  note okD = space_okD [OF ok] and mk = make_pml4_memory [OF ok n r] and w = make_pml4_walks [OF ok n r]
  let ?R = "root_pagemap s"
  note addr = frame_address [OF okD(1) n(1)]
  have new: "new \<noteq> 0" using addr mk(1) by (metis mult_is_0 not_gr_zero unsigned_0 zero_neq_numeral)
  have newtab: "is_table s' new" using addr mk(1,3) by (auto simp: is_table_def)
  have keep: "is_table s' u" if "is_table s u" for u
    using that mk(3) by (auto simp: is_table_def)
  have fresh: "walk (mem s) ?R q \<noteq> new" if path: "table_path q" for q
  proof
    assume a: "walk (mem s) ?R q = new"
    then obtain k where "unat new = 4096 * k" "\<not> frame_free s k"
      using okD(3) [OF path] new by (metis table_page)
    then show False using addr(1) mk(1) n(1) by simp
  qed
  have tables: "is_table s' (walk (mem s') new q)" if "table_path q" "walk (mem s') new q \<noteq> 0" for q
    using w(2) [OF that(1)] newtab keep okD(3) [OF that(1)] that(2) by (cases "q = []") auto
  have unique: "q = q'" if "table_path q" "table_path q'" "walk (mem s') new q \<noteq> 0"
      "walk (mem s') new q = walk (mem s') new q'" for q q'
    using that w(2) [OF that(1)] w(2) [OF that(2)] fresh [OF that(1)] fresh [OF that(2)] okD(4) [OF that(1,2)]
    by (auto split: if_splits)
  have present: "walk (mem s') new (q @ [j]) \<noteq> 0"
    if a: "table_path (q @ [j])" "walk (mem s') new q \<noteq> 0"
      "ld64 (mem s') (walk (mem s') new q + 8 * j) AND PTE_PRESENT \<noteq> 0" for q j
  proof -
    have qj: "table_path q" "j < 512" using a(1) by (auto simp: table_path_snoc)
    have "walk (mem s) ?R q \<noteq> 0" using a(2) w(2) [OF qj(1)] okD(2) by (auto split: if_splits)
    moreover have "ld64 (mem s') (walk (mem s') new q + 8 * j) = ld64 (mem s) (walk (mem s) ?R q + 8 * j)"
      using mk(4,5) qj w(2) [OF qj(1)] okD(3) [OF qj(1)] calculation by (cases "q = []") auto
    ultimately have "walk (mem s) ?R (q @ [j]) \<noteq> 0" using okD(5) [OF a(1)] a(3) by simp
    then show ?thesis using w(2) [OF a(1)] by simp
  qed
  show "space_ok s' new"
    unfolding space_ok_def using mk(2) new tables unique present by blast
  have ne: "vpath v \<noteq> []" by (simp add: vpath_def)
  have "ld64 (mem s') (walk (mem s) ?R (vpath v) + 8 * index1 v) = ld64 (mem s) (walk (mem s) ?R (vpath v) + 8 * index1 v)"
    if "walk (mem s) ?R (vpath v) \<noteq> 0"
    by (rule mk(5)) (use okD(3) [OF vpath_table_path that] in simp_all)
  then show "pte (mem s') new v = pte (mem s) ?R v" "pte (mem s') ?R v = pte (mem s) ?R v"
    using w(1,2) [OF vpath_table_path] ne by (auto simp: pte_def Let_def)
qed

lemma make_pml4_alloc:
  assumes ok: "space_ok s (root_pagemap s)" and r: "vmm_make_pml4 s = (new, s')" "new \<noteq> 0"
  obtains n where "frame_free s n" "\<forall>k<n. \<not> frame_free s k"
  using space_okD(1) [OF ok]
  by (cases rule: pmm_alloc_frame_cases) (use r that in \<open>auto simp: vmm_make_pml4_def\<close>)

text \<open>The root page of the kernel is a data frame of a new address space, and the two spaces
  reach the same tables below every top-level entry.\<close>

lemma make_pml4_root_data:
  assumes ok: "space_ok s (root_pagemap s)" and n: "frame_free s n" "\<forall>k<n. \<not> frame_free s k"
    and r: "vmm_make_pml4 s = (new, s')"
  obtains l where "data_frame s' new l" "root_pagemap s = PAGE_SIZE * of_nat l" "unat (root_pagemap s) = 4096 * l"
proof -
  note okD = space_okD [OF ok] and mk = make_pml4_memory [OF ok n r] and w = make_pml4_walks(2) [OF ok n r]
  have R: "is_table s (root_pagemap s)" using okD(3) [of "[]"] okD(2) by (simp add: table_path_def)
  then obtain l where l: "unat (root_pagemap s) = 4096 * l" "0 < l" "l < 1099511627776" "\<not> frame_free s l"
    "root_pagemap s = PAGE_SIZE * of_nat l" by (elim table_page)
  have "new \<noteq> root_pagemap s" using l mk(1) frame_address(1) [OF okD(1) n(1)] n(1) by auto
  moreover have "walk (mem s) (root_pagemap s) q \<noteq> root_pagemap s" if "table_path q" "q \<noteq> []" for q
    using okD(4) [of "[]" q] that okD(2) by (auto simp: table_path_def)
  ultimately have "data_frame s' new l"
    using l mk(3) w by (auto simp: data_frame_def)
  with that l show thesis by blast
qed

lemma mapping_is_shared:
  assumes ok: "space_ok s (root_pagemap s)" and r: "vmm_make_pml4 s = (new, s1)" "new \<noteq> 0"
    and present: "walk (mem s) (root_pagemap s) [index4 virt] \<noteq> 0"
    and room: "has_room s1 new virt"
  shows "pte (mem (vmm_map_page s1 new phys virt flags)) (root_pagemap s) virt = phys OR flags"
proof -
  obtain n where n: "frame_free s n" "\<forall>k<n. \<not> frame_free s k" by (rule make_pml4_alloc [OF ok r])
  note okD = space_okD [OF ok] and mk = make_pml4_memory [OF ok n r(1)] and w = make_pml4_walks [OF ok n r(1)]
  have ok1: "space_ok s1 new" by (rule make_pml4_space(1) [OF ok n r(1)])
  let ?s2 = "vmm_map_page s1 new phys virt flags" and ?R = "root_pagemap s"
  have up: "pte_update new virt (phys OR flags) s1 ?s2" by (rule vmm_map_page_step(1) [OF ok1 room])
  obtain l where l: "data_frame s1 new l" "?R = PAGE_SIZE * of_nat l" "unat ?R = 4096 * l"
    by (rule make_pml4_root_data [OF ok n r(1)])
  have l_lt: "l < 1099511627776" using l(1) by (simp add: data_frame_def)
  have R: "is_table s ?R" using okD(3) [of "[]"] okD(2) by (simp add: table_path_def)
  have p4: "table_path [index4 virt]" by (simp add: table_path_def)
  have "ld64 (mem ?s2) (?R + 8 * index4 virt) = ld64 (mem s1) (?R + 8 * index4 virt)"
    by (rule cell64.rd_cong)
      (use pte_updateD(5) [OF up l(1)] cell_in_page [OF l(3) l_lt index_less(1)] l(2) in auto)
  then have root_entry: "ld64 (mem ?s2) (?R + 8 * index4 virt) = ld64 (mem s) (?R + 8 * index4 virt)"
    using mk(5) [OF R index_less(1)] by simp
  have "walk (mem s1) new [index4 virt] = walk (mem s) ?R [index4 virt]" using w(2) [OF p4] by simp
  then have "walk (mem ?s2) new [index4 virt] = walk (mem s) ?R [index4 virt]"
    using pte_updateD(3) [OF up p4] present by simp
  then have "entry_table (ld64 (mem ?s2) (new + 8 * index4 virt)) =
      entry_table (ld64 (mem ?s2) (?R + 8 * index4 virt))"
    using root_entry by (simp add: Let_def split: if_splits)
  then have "pte (mem ?s2) ?R virt = pte (mem ?s2) new virt"
    using okD(2) r(2) by (simp add: pte_def vpath_def)
  also have "\<dots> = phys OR flags" using pte_updateD(2) [OF up, of virt] by (simp add: same_page_def)
  finally show ?thesis .
qed

section \<open>Access from user mode\<close>

text \<open>The processor lets user code use an address only if every entry of the walk, at all four
  levels, is present and has its user bit set.\<close>

definition user_entry :: "u64 \<Rightarrow> bool" where
  "user_entry e \<longleftrightarrow> e AND PTE_PRESENT \<noteq> 0 \<and> e AND PTE_USER \<noteq> 0"

definition user_accessible :: "memory \<Rightarrow> u64 \<Rightarrow> u64 \<Rightarrow> bool" where
  "user_accessible m pml4 virt \<longleftrightarrow>
     user_entry (ld64 m (pml4 + 8 * index4 virt)) \<and>
     user_entry (ld64 m (walk m pml4 [index4 virt] + 8 * index3 virt)) \<and>
     user_entry (ld64 m (walk m pml4 [index4 virt, index3 virt] + 8 * index2 virt)) \<and>
     user_entry (pte m pml4 virt)"

text \<open>\<open>get_next_level\<close> never sets the user bit, so a mapping whose top-level entry was absent
  stays closed to user code, whatever flags it is given.\<close>

lemma link_not_user: "\<not> user_entry (PAGE_SIZE * of_nat n OR PTE_PRESENT OR PTE_WRITABLE)"
proof -
  have four: "bit (4 :: u64) j \<longleftrightarrow> j = 2" for j
    using bit_exp_iff [where 'a = "64 word", of 2 j] by auto
  have page: "PAGE_SIZE * of_nat n = (push_bit 12 (of_nat n) :: u64)"
    by (simp add: push_bit_eq_mult mult.commute)
  have "(PAGE_SIZE * of_nat n OR PTE_PRESENT OR PTE_WRITABLE) AND PTE_USER = 0"
    unfolding flags_shape page by (rule bit_word_eqI) (auto simp: bit_simps four simp del: bit_numeral_word_iff)
  then show ?thesis by (simp add: user_entry_def)
qed

lemma map_page_not_user:
  assumes ok: "space_ok s pml4" and absent: "walk (mem s) pml4 [index4 virt] = 0"
  shows "\<not> user_accessible (mem (vmm_map_page s pml4 phys virt flags)) pml4 virt"
proof -
  let ?s' = "vmm_map_page s pml4 phys virt flags"
  obtain u3 s3 where g3: "get_next_level s pml4 (index4 virt) = (u3, s3)" by (cases "get_next_level s pml4 (index4 virt)")
  have nil: "walk (mem s) pml4 [] = pml4" "pml4 \<noteq> 0" using space_okD(2) [OF ok] by simp_all
  have p: "table_path ([] @ [index4 virt])" by (simp add: table_path_def)
  note s3 = get_next_level_step [OF ok p nil g3]
  have e: "ld64 (mem s) (pml4 + 8 * index4 virt) AND PTE_PRESENT = 0"
    using space_okD(5) [OF ok p] absent nil by auto
  show ?thesis
  proof (cases "u3 = 0")
    case True
    then have "?s' = s" using s3(3) g3 by (simp add: vmm_map_page_def page_table_for_def)
    then show ?thesis using e by (simp add: user_accessible_def user_entry_def)
  next
    case False
    have "\<not> user_entry (ld64 (mem s3) (pml4 + 8 * index4 virt))"
      using space_okD(1) [OF ok]
    proof (cases rule: pmm_alloc_frame_cases)
      case none
      then show ?thesis using g3 e False by (auto simp: get_next_level_def)
    next
      case (some n)
      have "linkable s pml4 [] (index4 virt) n" using ok p some(1) nil e by (simp add: linkable_def)
      then show ?thesis
        using g3 e some(3) linkableD(10) [of s pml4 "[]" "index4 virt" n] link_not_user [of n]
        by (auto simp: get_next_level_def Let_def cell64.rd_wr_same)
    qed
    moreover have "ld64 (mem ?s') (pml4 + 8 * index4 virt) = ld64 (mem s3) (pml4 + 8 * index4 virt)"
    proof -
      have w3: "walk (mem s3) pml4 [index4 virt] = u3" using s3(2) by (simp del: walk.simps)
      obtain u s1 where r: "lower_levels s3 u3 virt = (u, s1)" by (cases "lower_levels s3 u3 virt")
      note st = lower_levels_step [OF walk_stepD(1) [OF s3(1)] w3 False r]
      have "page_table_for s pml4 virt = (u, s1)" using g3 r False by (simp add: page_table_for_levels)
      then have "mem ?s' = (if u = 0 then mem s1 else mem (write_pte s1 pml4 virt (phys OR flags)))"
        using st by (simp add: vmm_map_page_def write_pte_def tlb_flush_single_def)
      moreover have "tables_kept pml4 s3 s1" using st by (blast dest: walk_stepD(7))
      moreover have "tables_kept pml4 s3 (write_pte s1 pml4 virt (phys OR flags))" if "u \<noteq> 0"
        using st that tables_kept_trans [OF nil(2)] write_pte_kept [of s1 pml4 virt] walk_stepD(1,7) by metis
      ultimately show ?thesis using w3 False p nil unfolding tables_kept_def
        by (metis append_Nil walk.simps(1))
    qed
    ultimately show ?thesis by (simp add: user_accessible_def)
  qed
qed

section \<open>A concrete machine\<close>

text \<open>Empty tables: a root page of zeroes at 0x8000 (frame 8, in use) and a bitmap whose bytes are
  all 1 in the higher half.\<close>

definition boot_machine :: "vmm_state" where
  "boot_machine = \<lparr>mem = (\<lambda>x. if x < 0x10000000000000 then 0 else 1), hhdm = 0xFFFF800000000000,
     memmap = [], bitmap = 0xFFFF800000100000, usable_pages = 0, bitmap_size = 0x1000, highest_addr = 0,
     root_pagemap = 0x8000, cr3 = 0x8000, tlb_flushes = []\<rparr>"

lemma boot_machine_free: "frame_free boot_machine n \<longleftrightarrow> n < 32768 \<and> n mod 8 \<noteq> 0"
proof (cases "n < 32768")
  case True
  have "\<not> 0xFFFF800000100000 + of_nat (n div 8) < (0x10000000000000 :: u64)"
    using True by (simp add: word_less_nat_alt unat_word_ariths unat_of_nat)
  with True show ?thesis by (simp add: frame_free_def boot_machine_def bit_1_iff)
qed (simp add: frame_free_def boot_machine_def)

lemma boot_machine_ok: "pmm_ok boot_machine"
  unfolding pmm_ok_def boot_machine_free by (simp add: boot_machine_def)

lemma boot_machine_zero:
  assumes "j < 512"
  shows "ld64 (mem boot_machine) (0x8000 + 8 * j) = 0"
proof (rule ld64_zero)
  fix x assume "in_range (0x8000 + 8 * j) 8 x"
  then have page: "in_range 0x8000 PAGE_SIZE x" using cell_in_page [of "0x8000" 8 j] assms by simp
  define d where "d = x - 0x8000"
  have d: "x = d + 0x8000" "unat d < 4096"
    using page by (simp_all add: d_def in_range_def word_less_nat_alt)
  then have "unat x < 40960" by (simp add: unat_word_ariths)
  then show "mem boot_machine x = 0" by (simp add: boot_machine_def word_less_nat_alt)
qed

lemma boot_machine_walk:
  "table_path p \<Longrightarrow> walk (mem boot_machine) 0x8000 p = (if p = [] then 0x8000 else 0)"
  by (cases p) (simp_all add: table_path_def boot_machine_zero entry_table_def)

lemma boot_machine_space: "space_ok boot_machine 0x8000"
  unfolding space_ok_def
proof (intro conjI allI impI)
  show "pmm_ok boot_machine" "(0x8000 :: u64) \<noteq> 0" using boot_machine_ok by simp_all
  show "is_table boot_machine (walk (mem boot_machine) 0x8000 p)"
    if "table_path p" "walk (mem boot_machine) 0x8000 p \<noteq> 0" for p
    using that by (auto simp: boot_machine_walk is_table_def boot_machine_free intro!: exI [of _ 8] split: if_splits)
  show "p = q" if "table_path p" "table_path q" "walk (mem boot_machine) 0x8000 p \<noteq> 0"
    "walk (mem boot_machine) 0x8000 p = walk (mem boot_machine) 0x8000 q" for p q
    using that by (auto simp: boot_machine_walk split: if_splits)
  show "walk (mem boot_machine) 0x8000 (p @ [i]) \<noteq> 0"
    if "table_path (p @ [i])" "walk (mem boot_machine) 0x8000 p \<noteq> 0"
      "ld64 (mem boot_machine) (walk (mem boot_machine) 0x8000 p + 8 * i) AND PTE_PRESENT \<noteq> 0" for p i
    using that by (auto simp: boot_machine_walk table_path_snoc boot_machine_zero split: if_splits)
qed

lemma boot_machine_many_free: "100 \<le> card {k. frame_free boot_machine k}"
proof -
  have "card ((\<lambda>i. 8 * i + 1) ` {..<100::nat}) \<le> card {k. frame_free boot_machine k}"
    by (rule card_mono) (auto simp: finite_free, simp_all add: boot_machine_free)
  moreover have "card ((\<lambda>i. 8 * i + 1) ` {..<100::nat}) = 100"
    by (subst card_image) (auto simp: inj_on_def)
  ultimately show ?thesis by simp
qed

lemma boot_machine_room: "has_room boot_machine 0x8000 virt"
  using boot_machine_many_free by (simp add: has_room_def)

text \<open>The operations leave the registers of the memory manager alone.\<close>

lemma vmm_alloc_fields [simp]:
  fixes s :: "'a vmm_state_scheme"
  shows "root_pagemap (snd (pmm_alloc_frame s)) = root_pagemap s" "cr3 (snd (pmm_alloc_frame s)) = cr3 s"
    "tlb_flushes (snd (pmm_alloc_frame s)) = tlb_flushes s"
    "vmm_state.more (snd (pmm_alloc_frame s)) = vmm_state.more s"
  by (subst pmm_alloc_frame_mem, simp)+

lemma vmm_walk_fields [simp]:
  "root_pagemap (snd (get_next_level s t i)) = root_pagemap s" "cr3 (snd (get_next_level s t i)) = cr3 s"
  "bitmap_size (snd (get_next_level s t i)) = bitmap_size s" "bitmap (snd (get_next_level s t i)) = bitmap s"
  "vmm_state.more (snd (get_next_level s t i)) = vmm_state.more s"
  "root_pagemap (snd (page_table_for s t v)) = root_pagemap s" "cr3 (snd (page_table_for s t v)) = cr3 s"
  "bitmap_size (snd (page_table_for s t v)) = bitmap_size s" "bitmap (snd (page_table_for s t v)) = bitmap s"
  "vmm_state.more (snd (page_table_for s t v)) = vmm_state.more s"
  by (simp_all add: page_table_for_def get_next_level_def Let_def case_prod_beta)

lemma vmm_op_fields [simp]:
  "root_pagemap (vmm_map_page s t p v f) = root_pagemap s" "cr3 (vmm_map_page s t p v f) = cr3 s"
  "bitmap_size (vmm_map_page s t p v f) = bitmap_size s" "bitmap (vmm_map_page s t p v f) = bitmap s"
  "vmm_state.more (vmm_map_page s t p v f) = vmm_state.more s"
  "cr3 (vmm_unmap_page s t v) = cr3 s" "bitmap_size (vmm_unmap_page s t v) = bitmap_size s"
  "bitmap (vmm_unmap_page s t v) = bitmap s" "vmm_state.more (vmm_unmap_page s t v) = vmm_state.more s"
  "cr3 (snd (vmm_get_phys s t v)) = cr3 s" "bitmap_size (snd (vmm_get_phys s t v)) = bitmap_size s"
  "bitmap (snd (vmm_get_phys s t v)) = bitmap s" "vmm_state.more (snd (vmm_get_phys s t v)) = vmm_state.more s"
  by (simp_all add: vmm_map_page_def vmm_unmap_page_def vmm_get_phys_def tlb_flush_single_def Let_def case_prod_beta)

section \<open>Properties\<close>

text \<open>C1: Mapping a page sets the entry of exactly that page in the view of the address space to
  \<open>phys | flags\<close>; every other address keeps its entry, every frame that holds no table keeps its
  contents, present upper-level entries are not touched and the invariant of the tables is kept.\<close>

theorem vmm_map_page_correct:
  assumes "space_ok s pml4" "has_room s pml4 virt" "s' = vmm_map_page s pml4 phys virt flags"
  shows "space_ok s' pml4 \<and>
    (\<forall>v. pte (mem s') pml4 v = (if same_page virt v then phys OR flags else pte (mem s) pml4 v)) \<and>
    (\<forall>k x. data_frame s pml4 k \<longrightarrow> in_range (PAGE_SIZE * of_nat k) PAGE_SIZE x \<longrightarrow> mem s' x = mem s x) \<and>
    tables_kept pml4 s s'"
proof -
  have "pte_update pml4 virt (phys OR flags) s s'" using vmm_map_page_step(1) [OF assms(1,2)] assms(3) by simp
  then show ?thesis unfolding pte_update_def by blast
qed

lemma vmm_map_page_correct_witness:
  "pte (mem (vmm_map_page boot_machine 0x8000 0x5000 0x40000000 3)) 0x8000 0x40000FFF = 0x5003"
  using vmm_map_page_correct [OF boot_machine_space boot_machine_room refl]
  by (simp add: same_page_def vpath_def index_eqs take_bit_eq_mod)

text \<open>\<open>vmm_get_phys\<close> reads back the frame that \<open>vmm_map_page\<close> mapped, from every address of
  the page.\<close>

theorem vmm_get_phys_of_map:
  assumes "space_ok s pml4" "3 \<le> card {k. frame_free s k}" "same_page virt v"
    "phys AND PTE_ADDR_MASK = phys" "flags AND PTE_ADDR_MASK = 0"
  shows "fst (vmm_get_phys (vmm_map_page s pml4 phys virt flags) pml4 v) = phys"
proof -
  have "PTE_GET_ADDR (phys OR flags) = phys"
    unfolding PTE_GET_ADDR_def by (simp add: bit.conj_disj_distrib2 assms(4,5))
  with vmm.phys_of_map [OF assms(1-3)] show ?thesis by simp
qed

lemma vmm_get_phys_of_map_witness:
  "fst (vmm_get_phys (vmm_map_page boot_machine 0x8000 0x5000 0x40000000 3) 0x8000 0x40000123) = 0x5000"
  by (rule vmm_get_phys_of_map [OF boot_machine_space])
    (use boot_machine_many_free in \<open>simp_all add: same_page_def vpath_def index_eqs take_bit_eq_mod\<close>)

text \<open>C27: Unmapping clears the entry of exactly that page, whether or not its tables existed.\<close>

theorem vmm_unmap_page_correct:
  assumes "space_ok s pml4"
  shows "pte_update pml4 virt 0 s (vmm_unmap_page s pml4 virt)"
  using assms by (rule vmm_unmap_page_step)

lemma vmm_unmap_page_correct_witness:
  "pte_update 0x8000 0x1234 0 boot_machine (vmm_unmap_page boot_machine 0x8000 0x1234)"
  by (rule vmm_unmap_page_correct [OF boot_machine_space])

text \<open>Updating flags replaces the present, writable, user and no-execute bits of the page's
  entry by the given flags and keeps its address bits.\<close>

theorem vmm_update_flags_correct:
  assumes "space_ok s pml4" "has_room s pml4 virt"
  shows "pte_update pml4 virt ((pte (mem s) pml4 virt AND NOT (7 OR PTE_NX)) OR flags) s
           (vmm_update_flags s pml4 virt flags)"
  using assms by (rule vmm_update_flags_step)

lemma vmm_update_flags_correct_witness:
  "pte (mem (vmm_update_flags boot_machine 0x8000 0x1000 5)) 0x8000 0x1000 = 5"
proof -
  have "pte (mem boot_machine) 0x8000 0x1000 = 0"
    by (simp only: pte_def boot_machine_walk [OF vpath_table_path]) (simp add: vpath_def)
  with vmm_update_flags_correct [OF boot_machine_space boot_machine_room, of "0x1000" 5]
  show ?thesis using pte_updateD(2) [of "0x8000" "0x1000" 5 boot_machine] by (simp add: same_page_def)
qed

text \<open>C15: A new address space is well formed and translates every address as the kernel's own
  does, and making it does not disturb the kernel's.\<close>

theorem vmm_make_pml4_correct:
  assumes "space_ok s (root_pagemap s)" "vmm_make_pml4 s = (new, s')" "new \<noteq> 0"
  shows "space_ok s' new \<and> (\<forall>v. pte (mem s') new v = pte (mem s) (root_pagemap s) v \<and>
    pte (mem s') (root_pagemap s) v = pte (mem s) (root_pagemap s) v)"
proof -
  obtain n where n: "frame_free s n" "\<forall>k<n. \<not> frame_free s k" by (rule make_pml4_alloc [OF assms])
  show ?thesis using make_pml4_space [OF assms(1) n assms(2)] by blast
qed

lemma boot_machine_make_pml4:
  assumes "space_ok s 0x8000" "root_pagemap s = 0x8000" "4 \<le> card {k. frame_free s k}"
  obtains new s' where "vmm_make_pml4 s = (new, s')" "new \<noteq> 0" "has_room s' new v"
proof -
  obtain new s' where r: "vmm_make_pml4 s = (new, s')" by (cases "vmm_make_pml4 s")
  have ok: "space_ok s (root_pagemap s)" using assms(1,2) by simp
  from space_okD(1) [OF ok] show thesis
  proof (cases rule: pmm_alloc_frame_cases)
    case none
    then show ?thesis using assms(3) by simp
  next
    case (some n)
    have n: "\<forall>k<n. \<not> frame_free s k" using some(2) by blast
    note mk = make_pml4_memory [OF ok some(1) n r]
    have "{k. frame_free s k} = insert n {k. frame_free s' k}" using mk(3) some(1) by auto
    then have "has_room s' new v" using assms(3) by (simp add: has_room_def card_insert_if finite_free split: if_splits)
    moreover have "new \<noteq> 0"
      using mk(1) frame_address [OF space_okD(1) [OF ok] some(1)]
      by (metis mult_is_0 not_gr_zero unsigned_0 zero_neq_numeral)
    ultimately show ?thesis using that r by blast
  qed
qed

lemma vmm_make_pml4_correct_witness:
  "\<exists>new s'. vmm_make_pml4 boot_machine = (new, s') \<and> new \<noteq> 0 \<and> space_ok s' new"
proof -
  have root: "root_pagemap boot_machine = 0x8000" by (simp add: boot_machine_def)
  obtain new s' where r: "vmm_make_pml4 boot_machine = (new, s')" "new \<noteq> 0"
    by (rule boot_machine_make_pml4 [OF boot_machine_space root]) (use boot_machine_many_free in auto)
  from vmm_make_pml4_correct [of boot_machine new s'] boot_machine_space root r show ?thesis by auto
qed

text \<open>C16: Address spaces are not separate: a page mapped into a new space, under a top-level entry
  that the kernel's root page has, appears in the kernel's own address space as well.\<close>

theorem mapping_leaks_into_root:
  assumes "space_ok s (root_pagemap s)" "vmm_make_pml4 s = (new, s1)" "new \<noteq> 0"
    "walk (mem s) (root_pagemap s) [index4 virt] \<noteq> 0" "has_room s1 new virt"
  shows "pte (mem (vmm_map_page s1 new phys virt flags)) (root_pagemap s) virt = phys OR flags"
  using assms by (rule mapping_is_shared)

lemma mapping_leaks_into_root_witness:
  "\<exists>(s :: vmm_state) new s1. root_pagemap s = 0x8000 \<and> vmm_make_pml4 s = (new, s1) \<and>
     pte (mem (vmm_map_page s1 new 0x5000 0x1000 7)) 0x8000 0x1000 = 0x5007"
proof -
  let ?s = "vmm_map_page boot_machine 0x8000 0x9000 0x2000 3"
  have up: "pte_update 0x8000 0x2000 (0x9000 OR 3) boot_machine ?s"
    by (rule vmm_map_page_step(1) [OF boot_machine_space boot_machine_room])
  have root: "root_pagemap ?s = 0x8000" by (simp add: boot_machine_def)
  have ok: "space_ok ?s (root_pagemap ?s)" using pte_updateD(1) [OF up] root by simp
  have idx: "index4 0x1000 = index4 0x2000" by (simp add: index_eqs)
  have "pte (mem ?s) 0x8000 0x2000 \<noteq> 0" using pte_updateD(2) [OF up, of "0x2000"] by (simp add: same_page_def)
  then have "walk (mem ?s) 0x8000 (vpath 0x2000) \<noteq> 0" by (auto simp: pte_def)
  then have present: "walk (mem ?s) (root_pagemap ?s) [index4 0x1000] \<noteq> 0"
    unfolding idx root by (auto simp: vpath_def Let_def split: if_splits)
  have "4 \<le> card {k. frame_free ?s k}" using pte_updateD(7) [OF up] boot_machine_many_free by simp
  then obtain new s1 where r: "vmm_make_pml4 ?s = (new, s1)" "new \<noteq> 0" "has_room s1 new 0x1000"
    using boot_machine_make_pml4 pte_updateD(1) [OF up] root by blast
  have "pte (mem (vmm_map_page s1 new 0x5000 0x1000 7)) 0x8000 0x1000 = 0x5007"
    using mapping_leaks_into_root [OF ok r(1,2) present r(3), of "0x5000" 7] root by simp
  then show ?thesis using r(1) root by blast
qed

text \<open>C28: The walk creates intermediate tables without the user bit, so a page mapped below a fresh
  top-level entry is not accessible from user mode even when it is mapped with \<open>PTE_USER\<close>.\<close>

theorem fresh_mapping_not_user:
  assumes "space_ok s pml4" "walk (mem s) pml4 [index4 virt] = 0"
  shows "\<not> user_accessible (mem (vmm_map_page s pml4 phys virt flags)) pml4 virt"
  using assms by (rule map_page_not_user)

lemma fresh_mapping_not_user_witness:
  "\<not> user_accessible (mem (vmm_map_page boot_machine 0x8000 0x5000 0x1000 7)) 0x8000 0x1000"
  by (rule fresh_mapping_not_user [OF boot_machine_space]) (simp add: boot_machine_walk table_path_def del: walk.simps)

end
