(* ===== verification/Mmap.thy ===== *)
theory Mmap
  imports Vmm
begin

text \<open>
  \<open>sys/src/mm/mmap.c\<close>: mapping and unmapping runs of fresh pages, on top of the frame
  allocator and the page tables.  The loop counter is 32 bits wide and its bound 64, so the
  result of \<open>mmap\<close> has type \<open>option\<close>: with a bound above 2^32 the loop ends only when memory
  runs out.  \<open>errno_t\<close> is a 16-bit integer (\<open>sys/include/lib/errno.h\<close>).
\<close>

section \<open>Operations\<close>

abbreviation ENOMEM :: u16 where "ENOMEM \<equiv> 2"

abbreviation PROT_EXEC :: u32 where "PROT_EXEC \<equiv> 1"
abbreviation PROT_READ :: u32 where "PROT_READ \<equiv> 2"
abbreviation PROT_WRITE :: u32 where "PROT_WRITE \<equiv> 4"
abbreviation PROT_USER :: u32 where "PROT_USER \<equiv> 8"

definition get_flags_from_prot :: "u32 \<Rightarrow> u64" where
  "get_flags_from_prot prot =
     (let pte_flags = 0;
          pte_flags = (if prot AND PROT_EXEC = 0 then pte_flags OR PTE_NX else pte_flags);
          pte_flags = (if prot AND PROT_WRITE \<noteq> 0 then pte_flags OR PTE_WRITABLE else pte_flags);
          pte_flags = (if prot AND PROT_READ \<noteq> 0 then pte_flags OR PTE_PRESENT else pte_flags);
          pte_flags = (if prot AND PROT_USER \<noteq> 0 then pte_flags OR PTE_USER else pte_flags)
      in pte_flags)"

partial_function (option) mmap_loop ::
    "'a vmm_state_scheme \<Rightarrow> u64 \<Rightarrow> u64 \<Rightarrow> u64 \<Rightarrow> u64 \<Rightarrow> u32 \<Rightarrow> (u16 \<times> 'a vmm_state_scheme) option" where
  "mmap_loop s top_level virt n_pages pte_flags i =
     (if ucast i < n_pages then
        (let (phys, s) = pmm_alloc_frame s in
         if phys = 0 then Some (- ENOMEM, s)
         else mmap_loop (vmm_map_page s top_level phys (PAGE_ALIGN virt) pte_flags) top_level
                (virt + PAGE_SIZE) n_pages pte_flags (i + 1))
      else Some (0, s))"

definition mmap_at ::
    "'a vmm_state_scheme \<Rightarrow> u64 \<Rightarrow> u64 \<Rightarrow> u64 \<Rightarrow> u32 \<Rightarrow> (u16 \<times> 'a vmm_state_scheme) option" where
  "mmap_at s top_level virt n_pages prot = mmap_loop s top_level virt n_pages (get_flags_from_prot prot) 0"

definition mmap :: "'a vmm_state_scheme \<Rightarrow> u64 \<Rightarrow> u64 \<Rightarrow> u32 \<Rightarrow> (u16 \<times> 'a vmm_state_scheme) option" where
  "mmap s virt n_pages prot = mmap_loop s (get_pml4 s) virt n_pages (get_flags_from_prot prot) 0"

definition munmap :: "'a vmm_state_scheme \<Rightarrow> u64 \<Rightarrow> 'a vmm_state_scheme" where
  "munmap s virt =
     (let top_level = get_pml4 s;
          (phys, s) = vmm_get_phys s top_level (PAGE_ALIGN virt);
          s = vmm_unmap_page s top_level (PAGE_ALIGN virt)
      in pmm_free_frame s phys)"

definition munmap_any :: "'a vmm_state_scheme \<Rightarrow> u64 \<Rightarrow> 'a vmm_state_scheme" where
  "munmap_any s virt = vmm_unmap_page s (get_pml4 s) (PAGE_ALIGN virt)"

section \<open>Pages by number\<close>

definition page_of :: "u64 \<Rightarrow> nat" where
  "page_of v = unat v div 4096 mod 68719476736"

lemma same_page_iff: "same_page v w \<longleftrightarrow> page_of v = page_of w"
proof -
  have t: "unat (take_bit k (drop_bit n x)) = unat x div 2 ^ n mod 2 ^ k" for k n and x :: u64
    by (simp only: unsigned_take_bit_eq unsigned_drop_bit_eq)
      (simp add: take_bit_eq_mod drop_bit_eq_div unsigned_less)
  have "same_page v w \<longleftrightarrow> take_bit 36 (drop_bit 12 v) = take_bit 36 (drop_bit 12 w)"
  proof
    assume a: "take_bit 36 (drop_bit 12 v) = take_bit 36 (drop_bit 12 w)"
    have "take_bit 9 (drop_bit (12 + k) v) = take_bit 9 (drop_bit (12 + k) w)" if "k \<le> 27" for k
    proof (rule bit_word_eqI)
      fix n assume "n < LENGTH(64)"
      show "bit (take_bit 9 (drop_bit (12 + k) v)) n = bit (take_bit 9 (drop_bit (12 + k) w)) n"
        using arg_cong [OF a, of "\<lambda>x. bit x (k + n)"] that by (auto simp: bit_simps ac_simps)
    qed
    from this [of 0] this [of 9] this [of 18] this [of 27] show "same_page v w"
      by (simp add: same_page_def vpath_def index_eqs)
  next
    assume s: "same_page v w"
    show "take_bit 36 (drop_bit 12 v) = take_bit 36 (drop_bit 12 w)"
    proof (rule bit_word_eqI)
      fix n assume "n < LENGTH(64)"
      have e: "bit (take_bit 9 (drop_bit m v)) j = bit (take_bit 9 (drop_bit m w)) j"
        if "m \<in> {12, 21, 30, 39}" for m j
        using s that by (auto simp: same_page_def vpath_def index_eqs)
      consider "n < 9" | "9 \<le> n" "n < 18" | "18 \<le> n" "n < 27" | "27 \<le> n" "n < 36" | "36 \<le> n" by linarith
      then show "bit (take_bit 36 (drop_bit 12 v)) n = bit (take_bit 36 (drop_bit 12 w)) n"
        using e [of 12 n] e [of 21 "n - 9"] e [of 30 "n - 18"] e [of 39 "n - 27"]
        by cases (auto simp: bit_simps)
    qed
  qed
  also have "\<dots> \<longleftrightarrow> page_of v = page_of w"
    using t [of 36 12 v] t [of 36 12 w] by (simp add: word_unat_eq_iff page_of_def)
  finally show ?thesis .
qed

lemma page_of_align: "page_of (PAGE_ALIGN v) = page_of v"
  using page_align_same_page same_page_iff by blast

lemma page_of_add:
  assumes "page_of v + j < 68719476736"
  shows "page_of (v + 4096 * of_nat j) = page_of v + j"
proof -
  have "unat (4096 * of_nat j :: u64) = 4096 * j" using assms by (simp add: unat_word_ariths unat_of_nat)
  then have "unat (v + 4096 * of_nat j) = (unat v + 4096 * j) mod (4096 * 4503599627370496)"
    by (simp add: unat_word_ariths)
  moreover have "x mod (4096 * c) div 4096 = x div 4096 mod c" for x c :: nat
    by (simp add: mod_mult2_eq)
  ultimately have "unat (v + 4096 * of_nat j) div 4096 = (unat v + 4096 * j) div 4096 mod 4503599627370496"
    by metis
  then have "unat (v + 4096 * of_nat j) div 4096 = (unat v div 4096 + j) mod 4503599627370496"
    by (simp add: add.commute)
  moreover have "x mod 4503599627370496 mod 68719476736 = x mod 68719476736" for x :: nat
    by (rule mod_mod_cancel) (simp add: dvd_def)
  ultimately have "page_of (v + 4096 * of_nat j) = (unat v div 4096 + j) mod 68719476736"
    by (simp add: page_of_def)
  also have "\<dots> = (page_of v + j) mod 68719476736" by (simp add: page_of_def mod_add_left_eq)
  finally show ?thesis using assms by simp
qed

section \<open>One fresh page\<close>

text \<open>An allocation by itself is a step of the kind a walk makes, and the new frame is data.\<close>

lemma claim_walk_step:
  assumes ok: "space_ok s pml4" and n: "frame_free s n"
  shows "walk_step 1 pml4 s (claim_frame s n)" "data_frame (claim_frame s n) pml4 n"
proof -
  note okD = space_okD [OF ok] and claim = claim_frame_spec [OF space_okD(1) [OF ok] n]
  let ?s = "claim_frame s n"
  have entry: "ld64 (mem ?s) (walk (mem s) pml4 q + 8 * j) = ld64 (mem s) (walk (mem s) pml4 q + 8 * j)"
    if "table_path q" "walk (mem s) pml4 q \<noteq> 0" "j < 512" for q j
    by (rule claim_keeps_entry [OF okD(1) n okD(3) [OF that(1,2)] that(3)])
  have w: "walk (mem ?s) pml4 q = walk (mem s) pml4 q" if "table_path q" for q
    by (rule walk_cong [OF okD(2) that]) (use entry in blast)
  have tab: "is_table ?s (walk (mem s) pml4 q)" if "table_path q" "walk (mem s) pml4 q \<noteq> 0" for q
    using okD(3) [OF that] claim(1) by (auto simp: is_table_def)
  have space: "space_ok ?s pml4"
    unfolding space_ok_def
  proof (intro conjI allI impI)
    show "pmm_ok ?s" "pml4 \<noteq> 0" by (fact claim(4) okD(2))+
    show "is_table ?s (walk (mem ?s) pml4 p)" if "table_path p" "walk (mem ?s) pml4 p \<noteq> 0" for p
      using that w tab by simp
    show "p = q" if "table_path p" "table_path q" "walk (mem ?s) pml4 p \<noteq> 0"
      "walk (mem ?s) pml4 p = walk (mem ?s) pml4 q" for p q
      using that w okD(4) by simp
    show "walk (mem ?s) pml4 (p @ [i]) \<noteq> 0" if a: "table_path (p @ [i])" "walk (mem ?s) pml4 p \<noteq> 0"
      "ld64 (mem ?s) (walk (mem ?s) pml4 p + 8 * i) AND PTE_PRESENT \<noteq> 0" for p i
      using a w entry [of p i] okD(5) [OF a(1)] by (simp add: table_path_snoc)
  qed
  have view: "pte (mem ?s) pml4 v = pte (mem s) pml4 v" for v
    using w [OF vpath_table_path] entry [OF vpath_table_path _ index_less(4)] by (simp add: pte_def Let_def)
  have kept: "tables_kept pml4 s ?s"
    using w entry walk_nonzero_prefix [OF okD(2)] unfolding tables_kept_def
    by (simp add: table_path_snoc)
  have data: "data_frame ?s pml4 k" "in_range (PAGE_SIZE * of_nat k) PAGE_SIZE x \<Longrightarrow> mem ?s x = mem s x"
    if "data_frame s pml4 k" for k x
    using that w claim(1) claim_keeps_page [OF okD(1) n] by (auto simp: data_frame_def)
  have "{k. frame_free s k} = insert n {k. frame_free ?s k}" using claim(1) n by auto
  then have "card {k. frame_free s k} \<le> card {k. frame_free ?s k} + 1"
    by (simp add: card_insert_if finite_free)
  with space view kept data claim(1) show "walk_step 1 pml4 s ?s"
    unfolding walk_step_def by blast
  have "walk (mem s) pml4 p \<noteq> PAGE_SIZE * of_nat n" if path: "table_path p" for p
  proof
    assume a: "walk (mem s) pml4 p = PAGE_SIZE * of_nat n"
    moreover have "PAGE_SIZE * of_nat n \<noteq> (0 :: u64)"
      using frame_address [OF okD(1) n] by (metis mult_is_0 not_gr_zero unsigned_0 zero_neq_numeral)
    ultimately obtain k where "unat (PAGE_SIZE * of_nat n) = 4096 * k" "\<not> frame_free s k"
      using okD(3) [OF path] by (metis table_page)
    then show False using frame_address(1) [OF okD(1) n] n by simp
  qed
  then show "data_frame ?s pml4 n"
    using w claim(1) frame_address [OF okD(1) n] by (simp add: data_frame_def)
qed

text \<open>What \<open>mmap\<close> promises for \<open>k\<close> pages from \<open>virt\<close> on: they are backed by distinct, zeroed
  frames that were free and are now taken, and nothing else is remapped or overwritten.\<close>

definition region_mapped ::
    "u64 \<Rightarrow> u64 \<Rightarrow> u64 \<Rightarrow> nat list \<Rightarrow> 'a pmm_state_scheme \<Rightarrow> 'a pmm_state_scheme \<Rightarrow> bool" where
  "region_mapped pml4 virt flags fs s s' \<longleftrightarrow> space_ok s' pml4 \<and> distinct fs \<and>
     (\<forall>v. pte (mem s') pml4 v =
        (if page_of virt \<le> page_of v \<and> page_of v < page_of virt + length fs
         then PAGE_SIZE * of_nat (fs ! (page_of v - page_of virt)) OR flags else pte (mem s) pml4 v)) \<and>
     (\<forall>n\<in>set fs. frame_free s n \<and> data_frame s' pml4 n \<and>
        (\<forall>x. in_range (PAGE_SIZE * of_nat n) PAGE_SIZE x \<longrightarrow> mem s' x = 0)) \<and>
     (\<forall>k. data_frame s pml4 k \<longrightarrow> data_frame s' pml4 k \<and>
        (\<forall>x. in_range (PAGE_SIZE * of_nat k) PAGE_SIZE x \<longrightarrow> mem s' x = mem s x)) \<and>
     (\<forall>k. frame_free s' k \<longrightarrow> frame_free s k) \<and>
     card {k. frame_free s k} \<le> card {k. frame_free s' k} + 4 * length fs"

lemma mmap_one_page:
  assumes ok: "space_ok s pml4" and room: "4 \<le> card {k. frame_free s k}"
  obtains n where "pmm_alloc_frame s = (PAGE_SIZE * of_nat n, claim_frame s n)"
    "PAGE_SIZE * of_nat n \<noteq> (0 :: u64)"
    "region_mapped pml4 virt flags [n] s
       (vmm_map_page (claim_frame s n) pml4 (PAGE_SIZE * of_nat n) (PAGE_ALIGN virt) flags)"
  using space_okD(1) [OF ok]
proof (cases rule: pmm_alloc_frame_cases)
  case none
  then show ?thesis using room by simp
next
  case (some n)
  note st = claim_walk_step [OF ok some(1)] and okD = space_okD [OF ok]
  have nz: "PAGE_SIZE * of_nat n \<noteq> (0 :: u64)"
    using frame_address [OF okD(1) some(1)] by (metis mult_is_0 not_gr_zero unsigned_0 zero_neq_numeral)
  have "has_room (claim_frame s n) pml4 (PAGE_ALIGN virt)"
    using walk_stepD(6) [OF st(1)] room by (simp add: has_room_def)
  note up = vmm_map_page_step(1) [OF walk_stepD(1) [OF st(1)] this, of "PAGE_SIZE * of_nat n" flags]
  let ?s = "vmm_map_page (claim_frame s n) pml4 (PAGE_SIZE * of_nat n) (PAGE_ALIGN virt) flags"
  have zero: "mem ?s x = 0" if "in_range (PAGE_SIZE * of_nat n) PAGE_SIZE x" for x
    using pte_updateD(5) [OF up st(2) that] claim_frame_spec(2) [OF okD(1) some(1) that] by simp
  have data: "data_frame ?s pml4 k" "in_range (PAGE_SIZE * of_nat k) PAGE_SIZE x \<Longrightarrow> mem ?s x = mem s x"
    if "data_frame s pml4 k" for k x
    using pte_updateD(4,5) [OF up walk_stepD(4) [OF st(1) that]] walk_stepD(5) [OF st(1) that] by auto
  have view: "pte (mem ?s) pml4 v = (if page_of virt = page_of v then PAGE_SIZE * of_nat n OR flags else pte (mem s) pml4 v)" for v
    using pte_updateD(2) [OF up] walk_stepD(2) [OF st(1)] by (simp add: same_page_iff page_of_align)
  have free: "frame_free ?s k \<Longrightarrow> frame_free s k" for k
    using pte_updateD(6) [OF up] st(1) by (auto simp: walk_step_def)
  have "region_mapped pml4 virt flags [n] s ?s"
    unfolding region_mapped_def
    using pte_updateD(1) [OF up] pte_updateD(4) [OF up st(2)] zero data view free some(1)
      pte_updateD(7) [OF up] walk_stepD(6) [OF st(1)]
    by auto
  with some(3) nz show ?thesis by (rule that)
qed

lemma region_mapped_Cons:
  assumes "region_mapped pml4 virt flags [n] s s1" "region_mapped pml4 virt' flags fs s1 s2"
    "page_of virt' = Suc (page_of virt)"
  shows "region_mapped pml4 virt flags (n # fs) s s2"
proof -
  have n: "frame_free s n" "data_frame s1 pml4 n"
    "\<And>x. in_range (PAGE_SIZE * of_nat n) PAGE_SIZE x \<Longrightarrow> mem s1 x = 0"
    and view1: "\<And>v. pte (mem s1) pml4 v =
      (if page_of v = page_of virt then PAGE_SIZE * of_nat n OR flags else pte (mem s) pml4 v)"
    and keep1: "\<And>k. data_frame s pml4 k \<Longrightarrow> data_frame s1 pml4 k \<and>
        (\<forall>x. in_range (PAGE_SIZE * of_nat k) PAGE_SIZE x \<longrightarrow> mem s1 x = mem s x)"
    and free1: "\<And>k. frame_free s1 k \<Longrightarrow> frame_free s k"
    and card1: "card {k. frame_free s k} \<le> card {k. frame_free s1 k} + 4"
    using assms(1) unfolding region_mapped_def by (auto simp: less_Suc_eq_le order.antisym)
  have fs: "space_ok s2 pml4" "distinct fs"
    "\<And>k. k \<in> set fs \<Longrightarrow> frame_free s1 k \<and> data_frame s2 pml4 k \<and>
        (\<forall>x. in_range (PAGE_SIZE * of_nat k) PAGE_SIZE x \<longrightarrow> mem s2 x = 0)"
    and view2: "\<And>v. pte (mem s2) pml4 v =
        (if page_of virt' \<le> page_of v \<and> page_of v < page_of virt' + length fs
         then PAGE_SIZE * of_nat (fs ! (page_of v - page_of virt')) OR flags else pte (mem s1) pml4 v)"
    and keep2: "\<And>k. data_frame s1 pml4 k \<Longrightarrow> data_frame s2 pml4 k \<and>
        (\<forall>x. in_range (PAGE_SIZE * of_nat k) PAGE_SIZE x \<longrightarrow> mem s2 x = mem s1 x)"
    and free2: "\<And>k. frame_free s2 k \<Longrightarrow> frame_free s1 k"
    and card2: "card {k. frame_free s1 k} \<le> card {k. frame_free s2 k} + 4 * length fs"
    using assms(2) unfolding region_mapped_def by blast+
  have dist: "distinct (n # fs)" using fs(2,3) n(2) by (auto simp: data_frame_def)
  have view: "pte (mem s2) pml4 v =
      (if page_of virt \<le> page_of v \<and> page_of v < page_of virt + length (n # fs)
       then PAGE_SIZE * of_nat ((n # fs) ! (page_of v - page_of virt)) OR flags else pte (mem s) pml4 v)" for v
    using view1 [of v] view2 [of v] assms(3) by (auto simp: nth_Cons' Suc_diff_Suc)
  have new: "\<forall>k\<in>set (n # fs). frame_free s k \<and> data_frame s2 pml4 k \<and>
        (\<forall>x. in_range (PAGE_SIZE * of_nat k) PAGE_SIZE x \<longrightarrow> mem s2 x = 0)"
    using n keep2 [OF n(2)] fs(3) free1 by auto
  have keep: "data_frame s2 pml4 k \<and> (\<forall>x. in_range (PAGE_SIZE * of_nat k) PAGE_SIZE x \<longrightarrow> mem s2 x = mem s x)"
    if "data_frame s pml4 k" for k
    using keep1 [OF that] keep2 [of k] by auto
  show ?thesis
    unfolding region_mapped_def using fs(1) dist view new keep free1 free2 card1 card2 by auto
qed

lemma ucast_counter_less:
  fixes i :: u32 and n :: u64
  assumes "unat n < 4294967296"
  shows "ucast i < n \<longleftrightarrow> unat i < unat n" "unat i < unat n \<Longrightarrow> unat (i + 1) = Suc (unat i)"
proof -
  show "ucast i < n \<longleftrightarrow> unat i < unat n" by (simp add: word_less_nat_alt)
  show "unat i < unat n \<Longrightarrow> unat (i + 1) = Suc (unat i)"
    using assms by (simp add: unat_word_ariths)
qed

lemma mmap_loop_spec:
  assumes "space_ok s pml4" "unat n_pages < 4294967296" "unat n_pages = unat i + k"
    "4 * k \<le> card {k. frame_free s k}" "page_of virt + k < 68719476736"
  shows "\<exists>fs s'. mmap_loop s pml4 virt n_pages flags i = Some (0, s') \<and> length fs = k \<and>
    region_mapped pml4 virt flags fs s s'"
  using assms
proof (induction k arbitrary: s i virt)
  case 0
  then have "mmap_loop s pml4 virt n_pages flags i = Some (0, s)"
    by (subst mmap_loop.simps) (simp add: ucast_counter_less)
  then show ?case using 0 by (intro exI [of _ "[]"] exI [of _ s]) (auto simp: region_mapped_def)
next
  case (Suc k)
  have lt: "unat i < unat n_pages" using Suc.prems by simp
  obtain n where n: "pmm_alloc_frame s = (PAGE_SIZE * of_nat n, claim_frame s n)" "PAGE_SIZE * of_nat n \<noteq> (0 :: u64)"
    "region_mapped pml4 virt flags [n] s
       (vmm_map_page (claim_frame s n) pml4 (PAGE_SIZE * of_nat n) (PAGE_ALIGN virt) flags)"
    using mmap_one_page [OF Suc.prems(1)] Suc.prems(4) by auto
  let ?s1 = "vmm_map_page (claim_frame s n) pml4 (PAGE_SIZE * of_nat n) (PAGE_ALIGN virt) flags"
  have next_page: "page_of (virt + PAGE_SIZE) = Suc (page_of virt)"
    using page_of_add [of virt 1] Suc.prems(5) by simp
  have "\<exists>fs s'. mmap_loop ?s1 pml4 (virt + PAGE_SIZE) n_pages flags (i + 1) = Some (0, s') \<and> length fs = k \<and>
    region_mapped pml4 (virt + PAGE_SIZE) flags fs ?s1 s'"
  proof (rule Suc.IH)
    show "space_ok ?s1 pml4" "4 * k \<le> card {k. frame_free ?s1 k}"
      using n(3) Suc.prems(4) by (simp_all add: region_mapped_def)
    show "unat n_pages = unat (i + 1) + k"
      using Suc.prems(3) ucast_counter_less(2) [OF Suc.prems(2) lt] by simp
  qed (use Suc.prems next_page in simp_all)
  then obtain fs s' where fs: "mmap_loop ?s1 pml4 (virt + PAGE_SIZE) n_pages flags (i + 1) = Some (0, s')"
    "length fs = k" "region_mapped pml4 (virt + PAGE_SIZE) flags fs ?s1 s'" by blast
  have "mmap_loop s pml4 virt n_pages flags i = Some (0, s')"
    using n fs(1) lt ucast_counter_less(1) [OF Suc.prems(2)] by (subst mmap_loop.simps) simp
  with region_mapped_Cons [OF n(3) fs(3) next_page] fs(2) show ?case
    by (intro exI [of _ "n # fs"] exI [of _ s']) simp
qed

text \<open>The loop leaves the registers of the memory manager and everything above it alone.\<close>

lemma mmap_loop_fields:
  assumes "mmap_loop s t virt n flags i = Some (e, s')"
  shows "vmm_state.more s' = vmm_state.more s \<and> cr3 s' = cr3 s \<and> root_pagemap s' = root_pagemap s"
proof -
  have "vmm_state.more (snd y) = vmm_state.more s \<and> cr3 (snd y) = cr3 s \<and> root_pagemap (snd y) = root_pagemap s"
    if "mmap_loop s t virt n flags i = Some y" for y
  proof (rule mmap_loop.raw_induct [OF _ that, of "\<lambda>s _ _ _ _ _ y.
      vmm_state.more (snd y) = vmm_state.more s \<and> cr3 (snd y) = cr3 s \<and> root_pagemap (snd y) = root_pagemap s"])
    fix loop and s :: "'a vmm_state_scheme" and t virt n flags i y
    assume IH: "\<And>s t virt n flags i y. loop s t virt n flags i = Some y \<Longrightarrow>
        vmm_state.more (snd y) = vmm_state.more s \<and> cr3 (snd y) = cr3 s \<and> root_pagemap (snd y) = root_pagemap s"
      and step: "(if ucast i < n then
          let (phys, s) = pmm_alloc_frame s
          in if phys = 0 then Some (- ENOMEM, s)
             else loop (vmm_map_page s t phys (PAGE_ALIGN virt) flags) t (virt + PAGE_SIZE) n flags (i + 1)
        else Some (0, s)) = Some y"
    show "vmm_state.more (snd y) = vmm_state.more s \<and> cr3 (snd y) = cr3 s \<and> root_pagemap (snd y) = root_pagemap s"
      using step IH by (auto simp: case_prod_beta Let_def split: if_splits)
  qed
  from this [OF assms] show ?thesis by simp
qed

section \<open>What mapping leaves alone\<close>

text \<open>Physical memory ends at 2^52.  Above it only the bytes of the bitmap are written.\<close>

definition high_kept :: "'a pmm_state_scheme \<Rightarrow> 'a pmm_state_scheme \<Rightarrow> bool" where
  "high_kept s s' \<longleftrightarrow> bitmap s' = bitmap s \<and> bitmap_size s' = bitmap_size s \<and>
     (\<forall>x. 4503599627370496 \<le> unat x \<longrightarrow> \<not> in_bitmap s x \<longrightarrow> mem s' x = mem s x)"

lemma high_kept_refl [simp]: "high_kept s s"
  by (simp add: high_kept_def)

lemma high_kept_trans: "high_kept s t \<Longrightarrow> high_kept t u \<Longrightarrow> high_kept s u"
  by (auto simp: high_kept_def in_bitmap_def)

lemma page_below_high:
  assumes "unat t = 4096 * k" "k < 1099511627776" "in_range t PAGE_SIZE x"
  shows "unat x < 4503599627370496"
  using assms in_range_linear [of t PAGE_SIZE x] by simp

lemma write_entry_high:
  assumes "is_table s t" "i < 512"
  shows "high_kept s (s\<lparr>mem := st64 (mem s) (t + 8 * i) v\<rparr>)"
proof -
  obtain k where k: "unat t = 4096 * k" "k < 1099511627776" using assms(1) by (rule table_page)
  have "st64 (mem s) (t + 8 * i) v x = mem s x" if "4503599627370496 \<le> unat x" for x
    using page_below_high [OF k cell_in_page [OF k assms(2)]] that by (intro cell64.wr_outside) fastforce
  then show ?thesis by (simp add: high_kept_def)
qed

lemma alloc_high:
  assumes "pmm_ok s"
  shows "high_kept s (snd (pmm_alloc_frame s))"
  using assms
proof (cases rule: pmm_alloc_frame_cases)
  case (some n)
  note n = frame_address [OF assms some(1)]
  show ?thesis
    using claim_frame_spec(3) [OF assms some(1)] page_below_high [OF n(1,2)] some(3) pmm_alloc_fields [of s]
    by (fastforce simp: high_kept_def)
qed simp

lemma get_next_level_high:
  assumes ok: "space_ok s pml4" and p: "table_path (p @ [i])" "walk (mem s) pml4 p = t" "t \<noteq> 0"
  shows "high_kept s (snd (get_next_level s t i))"
proof -
  have t: "is_table s t" "i < 512" "pmm_ok s"
    using space_okD(1,3) [OF ok] p by (auto simp: table_path_snoc)
  have claim: "is_table (snd (pmm_alloc_frame s)) t"
    using t(3)
  proof (cases rule: pmm_alloc_frame_cases)
    case (some n)
    then show ?thesis using t(1) claim_frame_spec(1) [OF t(3) some(1)] by (auto simp: is_table_def)
  qed (use t(1) in simp)
  show ?thesis
    using high_kept_trans [OF alloc_high [OF t(3)] write_entry_high [OF claim t(2)]] alloc_high [OF t(3)]
    by (auto simp: get_next_level_def Let_def case_prod_beta)
qed

lemma page_table_for_high:
  assumes ok: "space_ok s pml4"
  shows "high_kept s (snd (page_table_for s pml4 virt))"
proof -
  obtain u3 s3 where g3: "get_next_level s pml4 (index4 virt) = (u3, s3)" by (cases "get_next_level s pml4 (index4 virt)")
  obtain u2 s2 where g2: "get_next_level s3 u3 (index3 virt) = (u2, s2)" by (cases "get_next_level s3 u3 (index3 virt)")
  have nil: "walk (mem s) pml4 [] = pml4" "pml4 \<noteq> 0" using space_okD(2) [OF ok] by simp_all
  have p: "table_path ([] @ [index4 virt])" "table_path ([index4 virt] @ [index3 virt])"
    "table_path ([index4 virt, index3 virt] @ [index2 virt])" by (simp_all add: table_path_def)
  note s3 = get_next_level_step [OF ok p(1) nil g3] get_next_level_high [OF ok p(1) nil]
  show ?thesis
  proof (cases "u3 = 0")
    case True
    then show ?thesis using s3(4) g3 by (simp add: page_table_for_def)
  next
    case u3: False
    have w3: "walk (mem s3) pml4 [index4 virt] = u3" using s3(2) by (simp del: walk.simps)
    note s2 = get_next_level_step [OF walk_stepD(1) [OF s3(1)] p(2) w3 u3 g2]
      get_next_level_high [OF walk_stepD(1) [OF s3(1)] p(2) w3 u3]
    have two: "high_kept s s2" using high_kept_trans s3(4) s2(4) g3 g2 by fastforce
    show ?thesis
    proof (cases "u2 = 0")
      case True
      then show ?thesis using two g3 g2 u3 by (simp add: page_table_for_def)
    next
      case False
      have w2: "walk (mem s2) pml4 [index4 virt, index3 virt] = u2" using s2(2) by (simp del: walk.simps)
      from high_kept_trans [OF two get_next_level_high [OF walk_stepD(1) [OF s2(1)] p(3) w2 False]]
      show ?thesis using False g3 g2 u3 by (simp add: page_table_for_def)
    qed
  qed
qed

lemma vmm_map_page_high:
  assumes ok: "space_ok s pml4"
  shows "high_kept s (vmm_map_page s pml4 phys virt flags)"
proof -
  obtain u s' where r: "page_table_for s pml4 virt = (u, s')" by (cases "page_table_for s pml4 virt")
  note st = page_table_for_step [OF ok r] and h = page_table_for_high [OF ok, of virt]
  show ?thesis
  proof (cases "u = 0")
    case False
    have "is_table s' u"
      using space_okD(3) [OF walk_stepD(1) [OF st(1)] vpath_table_path, of virt] st(2) False by simp
    from high_kept_trans [OF _ write_entry_high [OF this index_less(4)]] h r False
    show ?thesis by (simp add: vmm_map_page_def tlb_flush_single_def high_kept_def)
  qed (use h r in \<open>simp add: vmm_map_page_def\<close>)
qed

lemma mmap_loop_high:
  assumes "space_ok s pml4" "unat n_pages < 4294967296" "unat n_pages = unat i + k"
    "4 * k \<le> card {k. frame_free s k}" "page_of virt + k < 68719476736"
    "mmap_loop s pml4 virt n_pages flags i = Some (e, s')"
  shows "high_kept s s'"
  using assms
proof (induction k arbitrary: s i virt)
  case 0
  then have "mmap_loop s pml4 virt n_pages flags i = Some (0, s)"
    by (subst mmap_loop.simps) (simp add: ucast_counter_less)
  then show ?case using 0 by simp
next
  case (Suc k)
  have lt: "unat i < unat n_pages" using Suc.prems by simp
  obtain n where n: "pmm_alloc_frame s = (PAGE_SIZE * of_nat n, claim_frame s n)" "PAGE_SIZE * of_nat n \<noteq> (0 :: u64)"
    "region_mapped pml4 virt flags [n] s
       (vmm_map_page (claim_frame s n) pml4 (PAGE_SIZE * of_nat n) (PAGE_ALIGN virt) flags)"
    using mmap_one_page [OF Suc.prems(1)] Suc.prems(4) by auto
  let ?s1 = "vmm_map_page (claim_frame s n) pml4 (PAGE_SIZE * of_nat n) (PAGE_ALIGN virt) flags"
  have free: "frame_free s n" using n(3) by (simp add: region_mapped_def)
  have next_page: "page_of (virt + PAGE_SIZE) = Suc (page_of virt)"
    using page_of_add [of virt 1] Suc.prems(5) by simp
  have step: "high_kept s ?s1"
    using high_kept_trans [OF alloc_high [OF space_okD(1) [OF Suc.prems(1)]]]
      vmm_map_page_high [OF walk_stepD(1) [OF claim_walk_step(1) [OF Suc.prems(1) free]]] n(1) by simp
  have "mmap_loop ?s1 pml4 (virt + PAGE_SIZE) n_pages flags (i + 1) = Some (e, s')"
    using Suc.prems(6) n(1,2) lt ucast_counter_less(1) [OF Suc.prems(2)] by (subst (asm) mmap_loop.simps) simp
  then have "high_kept ?s1 s'"
  proof (rule Suc.IH [rotated 5])
    show "space_ok ?s1 pml4" "4 * k \<le> card {k. frame_free ?s1 k}"
      using n(3) Suc.prems(4) by (simp_all add: region_mapped_def)
    show "unat n_pages = unat (i + 1) + k"
      using Suc.prems(3) ucast_counter_less(2) [OF Suc.prems(2) lt] by simp
  qed (use Suc.prems next_page in simp_all)
  with step show ?case by (rule high_kept_trans)
qed

section \<open>Unmapping\<close>

text \<open>When all tables exist, the walk changes nothing.\<close>

lemma get_next_level_present:
  assumes "entry_table (ld64 (mem s) (t + 8 * i)) \<noteq> 0"
  shows "get_next_level s t i = (entry_table (ld64 (mem s) (t + 8 * i)), s)"
  using assms by (simp add: get_next_level_def entry_table_def Let_def split: if_splits)

lemma page_table_for_present:
  assumes "walk (mem s) pml4 (vpath virt) \<noteq> 0"
  shows "page_table_for s pml4 virt = (walk (mem s) pml4 (vpath virt), s)"
proof -
  let ?e = "\<lambda>t i. entry_table (ld64 (mem s) (t + 8 * i))"
  let ?u3 = "?e pml4 (index4 virt)" let ?u2 = "?e ?u3 (index3 virt)" let ?u1 = "?e ?u2 (index2 virt)"
  have "?u3 \<noteq> 0" "?u2 \<noteq> 0" "?u1 \<noteq> 0" "walk (mem s) pml4 (vpath virt) = ?u1"
    using assms by (auto simp: vpath_def Let_def split: if_splits)
  then show ?thesis
    using get_next_level_present [of s pml4 "index4 virt"] get_next_level_present [of s ?u3 "index3 virt"]
      get_next_level_present [of s ?u2 "index2 virt"]
    by (simp add: page_table_for_def)
qed

text \<open>Changes confined to the bitmap leave an address space as it is, unless they free a table.\<close>

lemma space_ok_tables_same:
  assumes ok: "space_ok s pml4" and ok': "pmm_ok s'"
    and same: "\<And>q x. table_path q \<Longrightarrow> walk (mem s) pml4 q \<noteq> 0 \<Longrightarrow>
      in_range (walk (mem s) pml4 q) PAGE_SIZE x \<Longrightarrow> mem s' x = mem s x"
    and free: "\<And>k. frame_free s' k \<Longrightarrow> frame_free s k \<or> data_frame s pml4 k"
  shows "space_ok s' pml4" "pte (mem s') pml4 v = pte (mem s) pml4 v"
    "table_path p \<Longrightarrow> walk (mem s') pml4 p = walk (mem s) pml4 p"
proof -
  note okD = space_okD [OF ok]
  have entry: "ld64 (mem s') (walk (mem s) pml4 q + 8 * j) = ld64 (mem s) (walk (mem s) pml4 q + 8 * j)"
    if q: "table_path q" "walk (mem s) pml4 q \<noteq> 0" "j < 512" for q j
  proof -
    obtain k where k: "unat (walk (mem s) pml4 q) = 4096 * k" "k < 1099511627776"
      using okD(3) [OF q(1,2)] by (elim table_page)
    show ?thesis
      by (rule cell64.rd_cong) (use same [OF q(1,2)] cell_in_page [OF k q(3)] in auto)
  qed
  have w: "walk (mem s') pml4 q = walk (mem s) pml4 q" if "table_path q" for q
    by (rule walk_cong [OF okD(2) that]) (use entry in blast)
  have tab: "is_table s' (walk (mem s) pml4 q)" if q: "table_path q" "walk (mem s) pml4 q \<noteq> 0" for q
  proof -
    obtain k where "0 < k" "k < 1099511627776" "walk (mem s) pml4 q = PAGE_SIZE * of_nat k" "\<not> frame_free s k"
      using okD(3) [OF q] by (auto simp: is_table_def)
    moreover have "\<not> data_frame s pml4 k" using calculation(3) q(1) by (auto simp: data_frame_def)
    ultimately show ?thesis using free by (auto simp: is_table_def)
  qed
  show "space_ok s' pml4"
    unfolding space_ok_def
  proof (intro conjI allI impI)
    show "pmm_ok s'" "pml4 \<noteq> 0" by (fact ok' okD(2))+
    show "is_table s' (walk (mem s') pml4 p)" if "table_path p" "walk (mem s') pml4 p \<noteq> 0" for p
      using that w tab by simp
    show "p = q" if "table_path p" "table_path q" "walk (mem s') pml4 p \<noteq> 0"
      "walk (mem s') pml4 p = walk (mem s') pml4 q" for p q
      using that w okD(4) by simp
    show "walk (mem s') pml4 (p @ [i]) \<noteq> 0" if a: "table_path (p @ [i])" "walk (mem s') pml4 p \<noteq> 0"
      "ld64 (mem s') (walk (mem s') pml4 p + 8 * i) AND PTE_PRESENT \<noteq> 0" for p i
      using a w entry [of p i] okD(5) [OF a(1)] by (simp add: table_path_snoc)
  qed
  show "pte (mem s') pml4 v = pte (mem s) pml4 v"
    using w [OF vpath_table_path] entry [OF vpath_table_path _ index_less(4)] by (simp add: pte_def Let_def)
  show "walk (mem s') pml4 p = walk (mem s) pml4 p" if "table_path p" using that by (rule w)
qed

lemma space_ok_bitmap_change:
  assumes ok: "space_ok s pml4" and ok': "pmm_ok s'"
    and same: "\<And>x. \<not> in_bitmap s x \<Longrightarrow> mem s' x = mem s x"
    and free: "\<And>k. frame_free s' k \<Longrightarrow> frame_free s k \<or> data_frame s pml4 k"
  shows "space_ok s' pml4" "pte (mem s') pml4 v = pte (mem s) pml4 v"
proof -
  have tables: "mem s' x = mem s x" if q: "table_path q" "walk (mem s) pml4 q \<noteq> 0"
    "in_range (walk (mem s) pml4 q) PAGE_SIZE x" for q x
  proof -
    obtain k where k: "k < 1099511627776" "walk (mem s) pml4 q = PAGE_SIZE * of_nat k"
      using space_okD(3) [OF ok q(1,2)] by (elim table_page)
    then show ?thesis using same page_not_in_bitmap [OF space_okD(1) [OF ok] k(1)] q(3) by auto
  qed
  show "space_ok s' pml4" "pte (mem s') pml4 v = pte (mem s) pml4 v"
    by (rule space_ok_tables_same [OF ok ok']; use tables free in blast)+
qed

text \<open>A byte written to a data frame leaves the tables, the allocator and every other byte alone.\<close>

lemma data_write:
  fixes b :: u8
  assumes ok: "space_ok s pml4" and d: "data_frame s pml4 n" and a: "in_range (PAGE_SIZE * of_nat n) PAGE_SIZE a"
  defines "s' \<equiv> s\<lparr>mem := (mem s)(a := b)\<rparr>"
  shows "space_ok s' pml4" "pte (mem s') pml4 v = pte (mem s) pml4 v"
    "data_frame s' pml4 k \<longleftrightarrow> data_frame s pml4 k" "frame_free s' k \<longleftrightarrow> frame_free s k"
proof -
  note okD = space_okD [OF ok]
  have n: "n < 1099511627776" "\<And>p. table_path p \<Longrightarrow> walk (mem s) pml4 p \<noteq> PAGE_SIZE * of_nat n"
    using d by (auto simp: data_frame_def)
  have same: "mem s' x = mem s x" if q: "table_path q" "walk (mem s) pml4 q \<noteq> 0"
    "in_range (walk (mem s) pml4 q) PAGE_SIZE x" for q x
  proof -
    obtain k where k: "k < 1099511627776" "walk (mem s) pml4 q = PAGE_SIZE * of_nat k"
      using okD(3) [OF q(1,2)] by (elim table_page)
    then have "x \<noteq> a" using pages_apart [OF n(1) k(1) _ a] n(2) [OF q(1)] q(3) by auto
    then show ?thesis by (simp add: s'_def)
  qed
  have free: "frame_free s' k \<longleftrightarrow> frame_free s k" for k
    by (rule frame_free_cong)
      (use page_not_in_bitmap [OF okD(1) n(1)] a in \<open>auto simp: s'_def\<close>)
  have ok': "pmm_ok s'" using okD(1) free [of 0] by (simp add: pmm_ok_def s'_def)
  show "space_ok s' pml4" "pte (mem s') pml4 v = pte (mem s) pml4 v"
    by (rule space_ok_tables_same [OF ok ok']; use same free in blast)+
  show "frame_free s' k \<longleftrightarrow> frame_free s k" by (rule free)
  have "walk (mem s') pml4 p = walk (mem s) pml4 p" if "table_path p" for p
    by (rule space_ok_tables_same(3) [OF ok ok']; use same free that in blast)
  then show "data_frame s' pml4 k \<longleftrightarrow> data_frame s pml4 k" by (auto simp: data_frame_def free)
qed

lemma free_frame_outside:
  assumes "pmm_ok s" "n < unat (bitmap_size s) * 8" "\<not> in_bitmap s x"
  shows "mem (pmm_free_frame s (PAGE_SIZE * of_nat n)) x = mem s x"
proof -
  have n: "n < 1099511627776" using assms(2) pmm_ok_size(2) [OF assms(1)] by simp
  have "unat (PAGE_SIZE * of_nat n div PAGE_SIZE) = n" using unat_frame [OF n] by (simp add: unat_div)
  then show ?thesis
    using in_bitmap_byte [OF assms(2)] assms(3)
    by (auto simp: pmm_free_frame_def bitmap_unset_bit_def word_div_8)
qed

text \<open>Unmapping a page that maps a data frame.\<close>

lemma munmap_step:
  assumes ok: "space_ok s (cr3 s)" and d: "data_frame s (cr3 s) n" "n < unat (bitmap_size s) * 8"
    and e: "PTE_GET_ADDR (pte (mem s) (cr3 s) virt) = PAGE_SIZE * of_nat n"
  shows "space_ok (munmap s virt) (cr3 s)"
    "pte (mem (munmap s virt)) (cr3 s) v = (if same_page virt v then 0 else pte (mem s) (cr3 s) v)"
    "frame_free (munmap s virt) k \<longleftrightarrow> frame_free s k \<or> k = n"
proof -
  let ?c = "cr3 s" and ?v = "PAGE_ALIGN virt"
  have n: "0 < n" "n < 1099511627776" using d by (auto simp: data_frame_def)
  have nz: "PAGE_SIZE * of_nat n \<noteq> (0 :: u64)"
    using unat_frame [OF n(2)] n(1) by (metis mult_is_0 not_gr_zero unsigned_0 zero_neq_numeral)
  have same: "same_page ?v virt" by (rule page_align_same_page)
  have pv: "pte (mem s) ?c ?v = pte (mem s) ?c virt" by (rule same_page_pte [OF same])
  have "walk (mem s) ?c (vpath ?v) \<noteq> 0"
    using e nz pv by (auto simp: pte_def PTE_GET_ADDR_def)
  note present = page_table_for_present [OF this]
  have align: "PAGE_ALIGN ?v = ?v" by (simp add: PAGE_ALIGN_def ALIGN_DOWN_def and.assoc)
  have phys: "vmm_get_phys s ?c ?v = (PAGE_SIZE * of_nat n, s)"
    using present e pv \<open>walk (mem s) ?c (vpath ?v) \<noteq> 0\<close>
    by (simp add: vmm_get_phys_def align pte_def Let_def)
  let ?s1 = "vmm_unmap_page s ?c ?v"
  have eq: "munmap s virt = pmm_free_frame ?s1 (PAGE_SIZE * of_nat n)"
    by (simp add: munmap_def get_pml4_def phys)
  note up = vmm_unmap_page_step [OF ok, of ?v]
  have free1: "frame_free ?s1 k \<longleftrightarrow> frame_free s k" for k
  proof -
    have "frame_free (tlb_flush_single s' w) k \<longleftrightarrow> frame_free s' k" for s' :: "'a vmm_state_scheme" and w
      by (rule frame_free_cong) (simp_all add: tlb_flush_single_def)
    then show ?thesis
      using write_pte_free [OF ok \<open>walk (mem s) ?c (vpath ?v) \<noteq> 0\<close>, of 0]
        \<open>walk (mem s) ?c (vpath ?v) \<noteq> 0\<close>
      by (simp add: vmm_unmap_page_def present write_pte_def)
  qed
  have ok1: "space_ok ?s1 ?c" and d1: "data_frame ?s1 ?c n" and size: "bitmap_size ?s1 = bitmap_size s"
    using pte_updateD(1,4) [OF up] d(1) by simp_all
  have lim: "n < unat (bitmap_size ?s1) * 8" using d(2) by simp
  note fr = pmm_free_frame_spec [OF space_okD(1) [OF ok1] n(1) lim]
  have free: "frame_free (munmap s virt) k \<longleftrightarrow> frame_free s k \<or> k = n" for k
    unfolding eq using fr(1) free1 by blast
  then show "frame_free (munmap s virt) k \<longleftrightarrow> frame_free s k \<or> k = n" .
  have "frame_free (munmap s virt) k \<Longrightarrow> frame_free ?s1 k \<or> data_frame ?s1 ?c k" for k
    using free free1 d1 by blast
  note change = space_ok_bitmap_change [OF ok1 fr(2) free_frame_outside [OF space_okD(1) [OF ok1] lim] this [unfolded eq]]
  show "space_ok (munmap s virt) ?c" unfolding eq by (rule change(1))
  show "pte (mem (munmap s virt)) ?c v = (if same_page virt v then 0 else pte (mem s) ?c v)"
    using change(2) [of v] pte_updateD(2) [OF up, of v] same by (simp add: eq same_page_def)
qed

text \<open>Unmapping a page that is not mapped.\<close>

lemma munmap_absent:
  assumes ok: "space_ok s (cr3 s)" and size: "0 < bitmap_size s"
    and e: "pte (mem s) (cr3 s) virt = 0"
  shows "frame_free (munmap s virt) 0" "fst (pmm_alloc_frame (munmap s virt)) = 0"
    "\<not> pmm_ok (munmap s virt)"
proof -
  let ?c = "cr3 s" and ?v = "PAGE_ALIGN virt"
  obtain phys s1 where g: "vmm_get_phys s ?c ?v = (phys, s1)" by (cases "vmm_get_phys s ?c ?v")
  note ph = vmm_get_phys_step [OF ok g]
  let ?s2 = "vmm_unmap_page s1 ?c ?v"
  have "pte (mem s) ?c ?v = 0" using e same_page_pte [OF page_align_same_page] by metis
  then have "phys = 0" using ph(1) by (simp add: PTE_GET_ADDR_def)
  then have eq: "munmap s virt = bitmap_unset_bit ?s2 0"
    by (simp add: munmap_def get_pml4_def g pmm_free_frame_def)
  have ok2: "space_ok ?s2 ?c"
    by (rule pte_updateD(1) [OF vmm_unmap_page_step [OF walk_stepD(1) [OF ph(2)]]])
  have "bitmap_size s1 = bitmap_size s" using g by (metis snd_conv vmm_op_fields(11))
  then have sz: "0 < unat (bitmap_size ?s2)" "unat (bitmap_size ?s2) * 8 \<le> 18446744073709551616"
    using size pmm_ok_size(2) [OF space_okD(1) [OF ok2]] by (simp_all add: word_less_nat_alt)
  show f: "frame_free (munmap s virt) 0"
    unfolding eq using sz by (simp add: frame_free_unset_bit)
  then show "\<not> pmm_ok (munmap s virt)" by (simp add: pmm_ok_def)
  have "bitmap_test (munmap s virt) 0 = 0" using f by (simp add: bitmap_test_zero frame_free_def)
  moreover have "0 < bitmap_size (munmap s virt) * 8"
  proof -
    have "unat (bitmap_size ?s2 * 8) = unat (bitmap_size ?s2) * 8"
      by (rule pmm_ok_size(1) [OF space_okD(1) [OF ok2]])
    then show ?thesis using sz(1) by (simp add: eq word_less_nat_alt)
  qed
  ultimately show "fst (pmm_alloc_frame (munmap s virt)) = 0"
    unfolding pmm_alloc_frame_def by (subst pmm_alloc_loop.simps) (simp add: Let_def)
qed

section \<open>Properties\<close>



text \<open>C29: Unmapping a page that maps a data frame clears exactly its entry and gives exactly that
  frame back to the allocator.\<close>

theorem munmap_correct:
  assumes "space_ok s (cr3 s)" "data_frame s (cr3 s) n" "n < unat (bitmap_size s) * 8"
    "PTE_GET_ADDR (pte (mem s) (cr3 s) virt) = PAGE_SIZE * of_nat n"
  shows "space_ok (munmap s virt) (cr3 s) \<and>
    (\<forall>v. pte (mem (munmap s virt)) (cr3 s) v = (if same_page virt v then 0 else pte (mem s) (cr3 s) v)) \<and>
    (\<forall>k. frame_free (munmap s virt) k \<longleftrightarrow> frame_free s k \<or> k = n)"
  using munmap_step [OF assms] by blast

lemma munmap_correct_witness:
  "\<exists>(s :: vmm_state) n. \<not> frame_free s n \<and> frame_free (munmap s 0x7000) n"
proof -
  have "4 \<le> card {k. frame_free boot_machine k}" using boot_machine_many_free by simp
  then obtain n where n: "pmm_alloc_frame boot_machine = (PAGE_SIZE * of_nat n, claim_frame boot_machine n)"
    "region_mapped 0x8000 0x7000 (PTE_PRESENT OR PTE_WRITABLE) [n] boot_machine
       (vmm_map_page (claim_frame boot_machine n) 0x8000 (PAGE_SIZE * of_nat n) (PAGE_ALIGN 0x7000)
         (PTE_PRESENT OR PTE_WRITABLE))"
    by (rule mmap_one_page [OF boot_machine_space, where virt = "0x7000" and flags = "PTE_PRESENT OR PTE_WRITABLE"])
  let ?s = "vmm_map_page (claim_frame boot_machine n) 0x8000 (PAGE_SIZE * of_nat n) (PAGE_ALIGN 0x7000)
         (PTE_PRESENT OR PTE_WRITABLE)"
  have f: "frame_free boot_machine n" and d: "data_frame ?s 0x8000 n" and ok: "space_ok ?s 0x8000"
    and e: "pte (mem ?s) 0x8000 0x7000 = PAGE_SIZE * of_nat n OR PTE_PRESENT OR PTE_WRITABLE"
    using n(2) by (simp_all add: region_mapped_def)
  have c: "cr3 ?s = 0x8000" by (simp add: claim_frame_def bitmap_set_bit_def Let_def boot_machine_def)
  have lim: "n < unat (bitmap_size ?s) * 8" using f by (simp add: frame_free_def)
  have "PTE_GET_ADDR (pte (mem ?s) 0x8000 0x7000) = PAGE_SIZE * of_nat n"
    unfolding e using d by (intro page_get_addr(2)) (simp add: data_frame_def)
  then have "frame_free (munmap ?s 0x7000) n"
    using munmap_correct [of ?s n "0x7000"] ok d c lim by simp
  moreover have "\<not> frame_free ?s n" using d by (simp add: data_frame_def)
  ultimately show ?thesis by blast
qed

text \<open>Unmapping a page that is not mapped breaks the allocator: it frees frame 0, and the next
  allocation takes frame 0 and reports failure although free frames remain.\<close>

theorem munmap_absent_frees_zero:
  assumes "space_ok s (cr3 s)" "0 < bitmap_size s" "pte (mem s) (cr3 s) virt = 0"
  shows "frame_free (munmap s virt) 0 \<and> \<not> pmm_ok (munmap s virt) \<and>
    fst (pmm_alloc_frame (munmap s virt)) = 0"
  using munmap_absent [OF assms] by blast

lemma munmap_absent_frees_zero_witness: "fst (pmm_alloc_frame (munmap boot_machine 0x7000)) = 0"
proof -
  have "pte (mem boot_machine) (cr3 boot_machine) 0x7000 = 0"
    using boot_machine_walk [OF vpath_table_path, of "0x7000"]
    by (simp only: pte_def boot_machine_def) (simp add: vpath_def boot_machine_def)
  with munmap_absent_frees_zero [of boot_machine "0x7000"] boot_machine_space show ?thesis
    by (simp add: boot_machine_def)
qed

end
