(* ===== verification/Heap.thy ===== *)
theory Heap
  imports Mmap
begin

text \<open>
  \<open>sys/src/mm/heap.c\<close>: the kernel heap.  A block is a header of 24 bytes (magic number at
  offset 0, the one-bit field \<open>state\<close> at 4, size at 8, pointer to the next block at 16)
  followed by its data.  \<open>heap_head\<close> is the newest block; the pointer \<open>heap_tail\<close> is where the
  search for a free block starts.

  A failed assertion ends in \<open>kpanic\<close>, which stops the processor: the result is \<open>None\<close>.
\<close>

section \<open>State and operations\<close>

record heap_state = vmm_state +
  heap_head :: u64
  heap_tail :: u64
  heap_size :: u64
  bytes_allocated :: u64

abbreviation USED :: u8 where "USED \<equiv> 0"
abbreviation FREE :: u8 where "FREE \<equiv> 1"
abbreviation MAGIC :: u32 where "MAGIC \<equiv> 0x0CA7F00D"
abbreviation sizeof_heapblk :: u64 where "sizeof_heapblk \<equiv> 24"

definition DATA_START :: "u64 \<Rightarrow> u64" where
  "DATA_START mem_block = mem_block + sizeof_heapblk"

definition blk_magic :: "memory \<Rightarrow> u64 \<Rightarrow> u32" where "blk_magic m b = ld32 m b"
definition blk_state :: "memory \<Rightarrow> u64 \<Rightarrow> u8" where "blk_state m b = ld8 m (b + 4) AND 1"
definition blk_size :: "memory \<Rightarrow> u64 \<Rightarrow> u64" where "blk_size m b = ld64 m (b + 8)"
definition blk_next :: "memory \<Rightarrow> u64 \<Rightarrow> u64" where "blk_next m b = ld64 m (b + 16)"

definition set_state :: "memory \<Rightarrow> u64 \<Rightarrow> u8 \<Rightarrow> memory" where
  "set_state m b v = st8 m (b + 4) ((ld8 m (b + 4) AND NOT 1) OR v)"

partial_function (option) first_fit_loop :: "memory \<Rightarrow> u64 \<Rightarrow> u64 \<Rightarrow> u64 option" where
  "first_fit_loop m block sz =
     (if block \<noteq> 0 then
        (if blk_state m block = FREE \<and> sz \<le> blk_size m block then Some block
         else first_fit_loop m (blk_next m block) sz)
      else Some 0)"

definition first_fit :: "'a heap_state_scheme \<Rightarrow> u64 \<Rightarrow> u64 option" where
  "first_fit s sz = first_fit_loop (mem s) (heap_tail s) sz"

definition create_heap :: "'a heap_state_scheme \<Rightarrow> u64 \<Rightarrow> u64 \<Rightarrow> 'a heap_state_scheme option" where
  "create_heap s vaddr_start n_pages = do {
     (_, s) \<leftarrow> mmap s vaddr_start n_pages (PROT_READ OR PROT_WRITE);
     let s = s\<lparr>heap_size := n_pages * PAGE_SIZE\<rparr>;
     let s = s\<lparr>heap_head := vaddr_start\<rparr>;
     let s = s\<lparr>mem := st64 (mem s) (heap_head s + 8) 0\<rparr>;
     let s = s\<lparr>mem := st64 (mem s) (heap_head s + 16) 0\<rparr>;
     let s = s\<lparr>mem := set_state (mem s) (heap_head s) USED\<rparr>;
     let s = s\<lparr>mem := st32 (mem s) (heap_head s) MAGIC\<rparr>;
     Some (s\<lparr>heap_tail := heap_head s\<rparr>)
   }"

text \<open>The new block is placed \<open>24 * (sz + 1)\<close> bytes after the head: \<open>heap_head + heap_head->sz\<close>
  counts in headers, not in bytes.\<close>

definition append_block :: "'a heap_state_scheme \<Rightarrow> u64 \<Rightarrow> u64 \<times> 'a heap_state_scheme" where
  "append_block s sz =
     (let nxt = DATA_START (heap_head s + sizeof_heapblk * blk_size (mem s) (heap_head s));
          s = s\<lparr>mem := st64 (mem s) (heap_head s + 16) nxt\<rparr>;
          region = blk_next (mem s) (heap_head s);
          s = s\<lparr>mem := st64 (mem s) (region + 16) 0\<rparr>;
          s = s\<lparr>mem := set_state (mem s) region USED\<rparr>;
          s = s\<lparr>mem := st32 (mem s) region MAGIC\<rparr>;
          s = s\<lparr>mem := st64 (mem s) (region + 8) sz\<rparr>;
          s = s\<lparr>heap_head := region\<rparr>;
          s = s\<lparr>heap_tail := heap_head s\<rparr>
      in (region, s))"

definition kmalloc :: "'a heap_state_scheme \<Rightarrow> u64 \<Rightarrow> (u64 \<times> 'a heap_state_scheme) option" where
  "kmalloc s sz =
     (if heap_size s < bytes_allocated s + sz \<or> sz = 0 then Some (0, s)
      else if blk_magic (mem s) (heap_head s) \<noteq> MAGIC then None
      else if blk_magic (mem s) (heap_tail s) \<noteq> MAGIC then None
      else if heap_size s \<le> bytes_allocated s then Some (0, s)
      else do {
        region \<leftarrow> first_fit s sz;
        let (region, s) = (if region = 0 then append_block s sz else (region, s));
        let s = s\<lparr>bytes_allocated := bytes_allocated s + sz\<rparr>;
        Some (DATA_START region, s)
      })"

partial_function (option) kfree_loop :: "memory \<Rightarrow> u64 \<Rightarrow> u64 \<Rightarrow> memory option" where
  "kfree_loop m ptr cur =
     (if cur \<noteq> 0 \<and> ptr \<noteq> DATA_START cur then
        (let m = set_state m cur FREE in kfree_loop m ptr (blk_next m cur))
      else Some m)"

definition kfree :: "'a heap_state_scheme \<Rightarrow> u64 \<Rightarrow> 'a heap_state_scheme option" where
  "kfree s ptr =
     (let region = ptr - sizeof_heapblk in
      if blk_magic (mem s) region \<noteq> MAGIC then Some s
      else do {
        m \<leftarrow> kfree_loop (mem s) ptr region;
        let s = s\<lparr>mem := m\<rparr>;
        Some (s\<lparr>heap_tail := region\<rparr>)
      })"

text \<open>The copying loop of \<open>krealloc\<close> is the one of \<open>kmemcpy\<close>, byte by byte upwards.\<close>

definition krealloc :: "'a heap_state_scheme \<Rightarrow> u64 \<Rightarrow> u64 \<Rightarrow> (u64 \<times> 'a heap_state_scheme) option" where
  "krealloc s oldptr newsize = do {
     (new_ptr, s) \<leftarrow> kmalloc s newsize;
     let s = s\<lparr>mem := kmemcpy_loop (mem s) new_ptr oldptr newsize 0\<rparr>;
     s \<leftarrow> kfree s oldptr;
     Some (new_ptr, s)
   }"

section \<open>Block headers\<close>

text \<open>A used block at \<open>b\<close> with \<open>n\<close> bytes of data whose successor is \<open>nx\<close>.\<close>

definition block_at :: "memory \<Rightarrow> u64 \<Rightarrow> u64 \<Rightarrow> u64 \<Rightarrow> bool" where
  "block_at m b n nx \<longleftrightarrow> blk_magic m b = MAGIC \<and> blk_state m b = USED \<and> blk_size m b = n \<and> blk_next m b = nx"

lemmas block_defs = block_at_def blk_magic_def blk_state_def blk_size_def blk_next_def

lemma in_range_field:
  assumes "in_range (b + d) k x" "unat d + unat k \<le> unat n"
  shows "in_range b n x"
proof -
  define u where "u = x - (b + d)"
  have "unat u < unat k" using assms(1) by (simp add: in_range_def u_def word_less_nat_alt)
  then have "unat (u + d) < unat n" using assms(2) unat_less_64 [of n] by (simp add: unat_word_ariths)
  moreover have "x - b = u + d" by (simp add: u_def)
  ultimately show ?thesis by (simp add: in_range_def word_less_nat_alt)
qed

lemma block_at_cong:
  assumes "\<And>x. in_range b sizeof_heapblk x \<Longrightarrow> m' x = m x"
  shows "block_at m' b n nx = block_at m b n nx"
proof -
  have "in_range b 24 x" if "in_range (b + d) k x" "unat d + unat k \<le> 24" for d k x
    by (rule in_range_field [OF that(1)]) (use that(2) in simp)
  from this [of 0] this [of 4] this [of 8] this [of 16] assms
  have "ld32 m' b = ld32 m b" "ld8 m' (b + 4) = ld8 m (b + 4)" "ld64 m' (b + 8) = ld64 m (b + 8)"
    "ld64 m' (b + 16) = ld64 m (b + 16)"
    by (auto intro!: cell32.rd_cong cell8.rd_cong cell64.rd_cong)
  then show ?thesis by (simp add: block_defs)
qed

text \<open>The memory after \<open>append_block\<close>: a new header at \<open>r\<close>, linked from the header at \<open>h\<close>.\<close>

definition header_writes :: "memory \<Rightarrow> u64 \<Rightarrow> u64 \<Rightarrow> u64 \<Rightarrow> memory" where
  "header_writes m h r sz =
     st64 (st32 (set_state (st64 (st64 m (h + 16) r) (r + 16) 0) r USED) r MAGIC) (r + 8) sz"

lemma append_block_eq:
  assumes "blk_size (mem s) (heap_head s) = n"
  shows "append_block s sz =
    (let r = heap_head s + 24 * (n + 1)
     in (r, s\<lparr>mem := header_writes (mem s) (heap_head s) r sz, heap_head := r, heap_tail := r\<rparr>))"
  using assms
  by (simp add: append_block_def header_writes_def Let_def blk_next_def cell64.rd_wr_same DATA_START_def
      algebra_simps)

lemma header_writes_block: "block_at (header_writes m h r sz) r sz 0"
proof -
  have clear: "(w AND - 2) AND 1 = 0" for w :: u8
  proof -
    have "(w AND NOT 1) AND 1 = 0" by (rule bit_word_eqI) (auto simp: bit_simps)
    then show ?thesis by simp
  qed
  show ?thesis
    unfolding header_writes_def set_state_def block_defs by (simp add: cell_simps clear)
qed

lemma header_writes_outside:
  assumes "\<not> in_range (h + 16) 8 x" "\<not> in_range r sizeof_heapblk x"
  shows "header_writes m h r sz x = m x"
proof -
  have *: "\<not> in_range (r + d) k x" if "unat d + unat k \<le> 24" for d k
    using assms(2) in_range_field [of r d k x 24] that by auto
  show ?thesis
    unfolding header_writes_def set_state_def
    using assms(1) * [of 8 8] * [of 0 4] * [of 4 1] * [of 16 8]
    by (simp add: cell64.wr_outside cell32.wr_outside cell8.wr_outside)
qed

lemma header_writes_old:
  assumes "ranges_disjoint h 24 r 24" "block_at m h n nx"
  shows "block_at (header_writes m h r sz) h n r"
proof -
  have "in_range h 24 x" if "in_range (h + d) k x" "unat d + unat k \<le> 24" for d k x
    by (rule in_range_field [OF that(1)]) (use that(2) in simp)
  then have out: "\<not> in_range r 24 x" if "in_range (h + d) k x" "unat d + unat k \<le> 24" for d k x
    using ranges_disjointD [OF assms(1)] that by blast
  let ?m = "st64 m (h + 16) r"
  have eq: "header_writes m h r sz x = ?m x" if "\<not> in_range r 24 x" for x
  proof -
    have *: "\<not> in_range (r + d) k x" if "unat d + unat k \<le> 24" for d k
      using \<open>\<not> in_range r 24 x\<close> in_range_field [of r d k x 24] that by auto
    show ?thesis
      unfolding header_writes_def set_state_def
      using * [of 8 8] * [of 0 4] * [of 4 1] * [of 16 8]
      by (simp add: cell64.wr_outside cell32.wr_outside cell8.wr_outside)
  qed
  have "block_at (header_writes m h r sz) h n r = block_at ?m h n r"
    by (rule block_at_cong) (use out [of 0 24] eq in simp)
  then show ?thesis using assms(2) by (simp add: block_defs cell_simps)
qed

section \<open>The chain of blocks\<close>

text \<open>The blocks made so far, newest first, each with its size; \<open>nx\<close> is the link of the newest.
  A block begins \<open>24 * (n + 1)\<close> bytes after its predecessor of size \<open>n\<close>.\<close>

fun chain :: "memory \<Rightarrow> (u64 \<times> u64) list \<Rightarrow> u64 \<Rightarrow> bool" where
  "chain m [] nx \<longleftrightarrow> True"
| "chain m ((b, n) # bs) nx \<longleftrightarrow> b \<noteq> 0 \<and> block_at m b n nx \<and>
     (case bs of [] \<Rightarrow> True | (c, k) # _ \<Rightarrow> unat b = unat c + 24 * (unat k + 1)) \<and> chain m bs b"

definition heap_inv :: "'a heap_state_scheme \<Rightarrow> u64 \<Rightarrow> (u64 \<times> u64) list \<Rightarrow> bool" where
  "heap_inv s base bs \<longleftrightarrow> bs \<noteq> [] \<and> chain (mem s) bs 0 \<and> fst (hd bs) = heap_head s \<and>
     heap_tail s \<in> fst ` set bs \<and> fst (last bs) = base \<and>
     unat base + 70368744177664 \<le> 18446744073709551616 \<and> unat (heap_size s) \<le> 1099511627776 \<and>
     unat (bytes_allocated s) = sum_list (map (unat \<circ> snd) bs) \<and> bytes_allocated s \<le> heap_size s \<and>
     unat (heap_head s) + 24 * (unat (snd (hd bs)) + 1) \<le> unat base + 24 + 48 * unat (bytes_allocated s)"

lemma first_fit_chain:
  "chain m bs nx \<Longrightarrow> b \<in> fst ` set bs \<Longrightarrow> first_fit_loop m b sz = first_fit_loop m nx sz"
proof (induction bs arbitrary: nx)
  case (Cons e bs)
  obtain c k where e: "e = (c, k)" by (cases e)
  have step: "first_fit_loop m c sz = first_fit_loop m nx sz"
    using Cons.prems(1) e by (subst first_fit_loop.simps) (simp add: block_at_def)
  show ?case
  proof (cases "b = c")
    case False
    then have "first_fit_loop m b sz = first_fit_loop m c sz"
      using Cons e by auto
    then show ?thesis using step by simp
  qed (use step in simp)
qed simp

lemma first_fit_none:
  assumes "chain (mem s) bs 0" "heap_tail s \<in> fst ` set bs"
  shows "first_fit s sz = Some 0"
  using first_fit_chain [OF assms] by (simp add: first_fit_def first_fit_loop.simps [of _ 0])

lemma chain_magic: "chain m bs nx \<Longrightarrow> b \<in> fst ` set bs \<Longrightarrow> blk_magic m b = MAGIC"
  by (induction bs arbitrary: nx) (force simp: block_at_def)+

lemma chain_below:
  "chain m ((h, n) # bs) nx \<Longrightarrow> (b, k) \<in> set bs \<Longrightarrow> unat b + 24 * (unat k + 1) \<le> unat h"
proof (induction bs arbitrary: h n nx)
  case (Cons e bs)
  obtain c l where e: "e = (c, l)" by (cases e)
  have h: "unat h = unat c + 24 * (unat l + 1)" "chain m ((c, l) # bs) h" using Cons.prems(1) e by auto
  show ?case
  proof (cases "(b, k) = e")
    case False
    then have "unat b + 24 * (unat k + 1) \<le> unat c" using Cons.IH [OF h(2)] Cons.prems(2) by simp
    then show ?thesis using h(1) by simp
  qed (use h e in simp)
qed simp

text \<open>Bytes at or above an address leave the blocks below it alone.\<close>

lemma chain_cong:
  fixes h :: u64
  assumes "chain m bs nx" "\<And>b n. (b, n) \<in> set bs \<Longrightarrow> unat b + 24 \<le> unat h"
    "\<And>x. unat x < unat h \<Longrightarrow> m' x = m x"
  shows "chain m' bs nx"
  using assms(1,2)
proof (induction bs arbitrary: nx)
  case (Cons e bs)
  obtain b n where e: "e = (b, n)" by (cases e)
  have b: "unat b + 24 \<le> unat h" using Cons.prems(2) [of b n] e by simp
  have "block_at m' b n nx = block_at m b n nx"
  proof (rule block_at_cong)
    fix x assume "in_range b 24 x"
    then have "unat x < unat b + 24"
      using in_range_linear [of b 24 x] b unat_less_64 [of h] by simp
    then show "m' x = m x" using assms(3) b by simp
  qed
  with Cons e show ?case by auto
qed simp

section \<open>Allocation\<close>

lemma heap_invD:
  assumes "heap_inv s base ((h, n) # bs)"
  shows "chain (mem s) ((h, n) # bs) 0" "heap_head s = h" "heap_tail s \<in> fst ` set ((h, n) # bs)"
    "unat base + 70368744177664 \<le> 18446744073709551616" "unat (heap_size s) \<le> 1099511627776"
    "unat (bytes_allocated s) \<le> unat (heap_size s)" "h \<noteq> 0" "block_at (mem s) h n 0"
    "unat h + 24 * (unat n + 1) \<le> unat base + 24 + 48 * unat (bytes_allocated s)"
    "unat (bytes_allocated s) = unat n + sum_list (map (unat \<circ> snd) bs)"
  using assms by (auto simp: heap_inv_def word_le_nat_alt)

lemma append_block_chain:
  assumes c: "chain m ((h, n) # bs) 0" and r: "unat r = unat h + 24 * (unat n + 1)"
    and room: "unat r + 24 \<le> 18446744073709551616"
  shows "chain (header_writes m h r sz) ((r, sz) # (h, n) # bs) 0"
proof -
  have h: "h \<noteq> 0" "block_at m h n 0" "chain m bs h" using c by auto
  have dis: "ranges_disjoint h 24 r 24" using r room by (intro ranges_disjoint_linear) auto
  have rh: "unat h + 24 \<le> unat r" using r by simp
  have low: "header_writes m h r sz x = m x" if "unat x < unat h" for x
  proof (rule header_writes_outside)
    have h24: "unat h + 24 \<le> 18446744073709551616" using rh room by simp
    show "\<not> in_range (h + 16) 8 x"
      using in_range_field [of h 16 8 x 24] in_range_linear [of h 24 x] h24 that by auto
    show "\<not> in_range r 24 x"
      using in_range_linear [of r 24 x] room that rh by simp
  qed
  have "chain (header_writes m h r sz) bs h"
  proof (rule chain_cong [OF h(3)])
    show "unat b + 24 \<le> unat h" if "(b, k) \<in> set bs" for b k
      using chain_below [OF c that] by simp
  qed (rule low)
  moreover have "r \<noteq> 0" using r h(1) by (metis add_is_0 unat_eq_zero)
  ultimately show ?thesis
    using h header_writes_old [OF dis h(2)] header_writes_block r c by (auto split: list.splits)
qed

lemma kmalloc_refuses:
  "heap_size s < bytes_allocated s + sz \<or> sz = 0 \<Longrightarrow> kmalloc s sz = Some (0, s)"
  by (simp add: kmalloc_def)

lemma kmalloc_spec:
  assumes inv: "heap_inv s base ((h, n) # bs)" and sz: "0 < unat sz"
    "unat (bytes_allocated s) + unat sz \<le> unat (heap_size s)"
  defines "r \<equiv> h + 24 * (n + 1)"
  shows "kmalloc s sz = Some (r + 24, s\<lparr>mem := header_writes (mem s) h r sz, heap_head := r, heap_tail := r,
       bytes_allocated := bytes_allocated s + sz\<rparr>)" (is "_ = Some (_, ?s)")
    and "unat r = unat h + 24 * (unat n + 1)" "unat r + 24 * (unat sz + 1) + 24 \<le> 18446744073709551616"
    and "heap_inv (s\<lparr>mem := header_writes (mem s) h r sz, heap_head := r, heap_tail := r,
       bytes_allocated := bytes_allocated s + sz\<rparr>) base ((r, sz) # (h, n) # bs)"
proof -
  note D = heap_invD [OF inv]
  have bytes: "unat (bytes_allocated s + sz) = unat (bytes_allocated s) + unat sz"
    using sz(2) D(5) by (simp add: unat_word_ariths)
  have end_h: "unat h + 24 * (unat n + 1) \<le> unat base + 24 + 48 * unat (bytes_allocated s)" by (rule D(9))
  have n_small: "24 * (unat n + 1) < 18446744073709551616" using D(10) D(6) D(5) by simp
  have "unat (24 * (n + 1)) = 24 * (unat n + 1)"
    using n_small by (simp add: unat_word_ariths)
  then show r: "unat r = unat h + 24 * (unat n + 1)"
    unfolding r_def using end_h D(4,5,6) by (simp add: unat_word_ariths)
  have room': "unat r + 24 * (unat sz + 1) \<le> unat base + 24 + 48 * (unat (bytes_allocated s) + unat sz)"
    using r end_h sz(1) by simp
  then show room: "unat r + 24 * (unat sz + 1) + 24 \<le> 18446744073709551616"
    using D(4,5) sz(2) by simp
  have magic: "blk_magic (mem s) (heap_head s) = MAGIC" "blk_magic (mem s) (heap_tail s) = MAGIC"
    using chain_magic [OF D(1)] D(2,3) by auto
  have size_h: "blk_size (mem s) (heap_head s) = n" using D(2,8) by (simp add: block_at_def)
  have ok: "\<not> heap_size s < bytes_allocated s + sz" "sz \<noteq> 0" "\<not> heap_size s \<le> bytes_allocated s"
    using sz bytes by (auto simp: word_less_nat_alt word_le_nat_alt)
  show "kmalloc s sz = Some (r + 24, ?s)"
    using ok magic first_fit_none [OF D(1,3)] append_block_eq [OF size_h] D(2)
    by (simp add: kmalloc_def r_def Let_def DATA_START_def)
  have "chain (header_writes (mem s) h r sz) ((r, sz) # (h, n) # bs) 0"
    by (rule append_block_chain [OF D(1) r]) (use room in simp)
  then show "heap_inv ?s base ((r, sz) # (h, n) # bs)"
    using inv sz(2) bytes room' by (auto simp: heap_inv_def word_le_nat_alt)
qed

text \<open>No byte below the old head's successor field, and none between the headers, is written.\<close>

lemma kmalloc_frame:
  assumes inv: "heap_inv s base ((h, n) # bs)" and k: "kmalloc s sz = Some (p, s')"
    and sz: "0 < unat sz" "unat (bytes_allocated s) + unat sz \<le> unat (heap_size s)"
    and b: "(b, k) \<in> set ((h, n) # bs)" and x: "in_range (DATA_START b) k x"
  shows "mem s' x = mem s x" "\<not> in_range p sz x"
proof -
  define r where "r = h + 24 * (n + 1)"
  note spec = kmalloc_spec [OF inv sz, folded r_def] and D = heap_invD [OF inv]
  have p: "p = r + 24" "mem s' = header_writes (mem s) h r sz" using k spec(1) by auto
  have below: "unat b + 24 * (unat k + 1) \<le> unat r"
    using b chain_below [OF D(1)] spec(2) by fastforce
  have u24: "unat (DATA_START b) = unat b + 24"
    using below spec(3) by (simp add: DATA_START_def unat_word_ariths)
  then have xr: "unat b + 24 \<le> unat x" "unat x < unat b + 24 + unat k"
    using x in_range_linear [of "DATA_START b" k x] below spec(3) by auto
  then have "unat x < unat r" using below by simp
  have "\<not> in_range h 24 x"
  proof (cases "(b, k) = (h, n)")
    case True
    then show ?thesis using xr in_range_linear [of h 24 x] spec(2,3) by auto
  next
    case False
    then have "unat b + 24 * (unat k + 1) \<le> unat h" using b chain_below [OF D(1)] by auto
    then show ?thesis using xr in_range_linear [of h 24 x] spec(2,3) by auto
  qed
  then have "\<not> in_range (h + 16) 8 x" using in_range_field [of h 16 8 x 24] by auto
  moreover have "\<not> in_range r 24 x"
    using in_range_linear [of r 24 x] spec(3) \<open>unat x < unat r\<close> by auto
  ultimately show "mem s' x = mem s x" using p(2) header_writes_outside by metis
  have "unat p = unat r + 24" using p(1) spec(3) by (simp add: unat_word_ariths)
  then show "\<not> in_range p sz x"
    using in_range_linear [of p sz x] spec(3) \<open>unat x < unat r\<close> by auto
qed

section \<open>Freeing\<close>

text \<open>The loop of \<open>kfree\<close> starts at the block whose data is \<open>ptr\<close>, so its condition is false at
  once: no block is ever marked free.\<close>

lemma kfree_eq:
  "kfree s ptr = Some (if blk_magic (mem s) (ptr - 24) = MAGIC then s\<lparr>heap_tail := ptr - 24\<rparr> else s)"
  by (simp add: kfree_def kfree_loop.simps DATA_START_def Let_def)

lemma kfree_inv:
  assumes "heap_inv s base bs" "(b, n) \<in> set bs"
  shows "kfree s (DATA_START b) = Some (s\<lparr>heap_tail := b\<rparr>)" "heap_inv (s\<lparr>heap_tail := b\<rparr>) base bs"
proof -
  have b: "b \<in> fst ` set bs" using assms(2) by force
  moreover have "chain (mem s) bs 0" using assms(1) by (simp add: heap_inv_def)
  ultimately show "kfree s (DATA_START b) = Some (s\<lparr>heap_tail := b\<rparr>)"
    using chain_magic by (simp add: kfree_eq DATA_START_def)
  show "heap_inv (s\<lparr>heap_tail := b\<rparr>) base bs" using assms(1) b by (simp add: heap_inv_def)
qed

section \<open>Reallocation\<close>

text \<open>Writing into the data of the newest block does not touch a header.\<close>

lemma newest_data_write:
  assumes inv: "heap_inv s base ((r, sz) # bs)"
    and room: "unat r + 24 * (unat sz + 1) + 24 \<le> 18446744073709551616"
    and w: "\<And>x. \<not> in_range (r + 24) sz x \<Longrightarrow> m' x = mem s x"
  shows "heap_inv (s\<lparr>mem := m'\<rparr>) base ((r, sz) # bs)"
proof -
  note D = heap_invD [OF inv]
  have u: "unat (r + 24) = unat r + 24" using room by (simp add: unat_word_ariths)
  have low: "m' x = mem s x" if "unat x < unat (r + 24)" for x
    using w [of x] in_range_linear [of "r + 24" sz x] u room that by auto
  have "chain m' ((r, sz) # bs) 0"
  proof (rule chain_cong [OF D(1)])
    show "unat b + 24 \<le> unat (r + 24)" if "(b, k) \<in> set ((r, sz) # bs)" for b k
      using that chain_below [OF D(1), of b k] u by auto
  qed (rule low)
  then show ?thesis using inv by (auto simp: heap_inv_def)
qed

lemma krealloc_spec:
  assumes inv: "heap_inv s base ((h, n) # bs)" and sz: "0 < unat sz"
    "unat (bytes_allocated s) + unat sz \<le> unat (heap_size s)"
    and b: "(b, k) \<in> set ((h, n) # bs)"
  defines "r \<equiv> h + 24 * (n + 1)"
  shows "\<exists>s'. krealloc s (DATA_START b) sz = Some (r + 24, s') \<and> heap_inv s' base ((r, sz) # (h, n) # bs) \<and>
    (\<forall>i. i < sz \<longrightarrow> i < k \<longrightarrow> mem s' (r + 24 + i) = mem s (DATA_START b + i))"
proof -
  note spec = kmalloc_spec [OF inv sz, folded r_def] and D = heap_invD [OF inv]
  define s1 where "s1 = s\<lparr>mem := header_writes (mem s) h r sz, heap_head := r, heap_tail := r,
       bytes_allocated := bytes_allocated s + sz\<rparr>"
  define m2 where "m2 = kmemcpy_loop (mem s1) (r + 24) (DATA_START b) sz 0"
  have k: "kmalloc s sz = Some (r + 24, s1)" using spec(1) by (simp add: s1_def)
  have out: "m2 x = mem s1 x" if "\<not> in_range (r + 24) sz x" for x
    using that unfolding m2_def in_range_def by (intro kmemcpy_loop_outside) simp
  have inv2: "heap_inv (s1\<lparr>mem := m2\<rparr>) base ((r, sz) # (h, n) # bs)"
    by (rule newest_data_write [OF _ spec(3) out]) (use spec(4) in \<open>simp add: s1_def\<close>)
  have b2: "(b, k) \<in> set ((r, sz) # (h, n) # bs)" using b by auto
  note free = kfree_inv [OF inv2 b2]
  have r: "krealloc s (DATA_START b) sz = Some (r + 24, s1\<lparr>mem := m2, heap_tail := b\<rparr>)"
    using free(1) by (simp add: krealloc_def k m2_def)
  have "mem s1 (DATA_START b + i) = mem s (DATA_START b + i)" if "i < k" for i
    using kmalloc_frame(1) [OF inv k sz b, of "DATA_START b + i"] that by (simp add: in_range_def)
  moreover have "m2 (r + 24 + i) = mem s1 (DATA_START b + i)" if i: "i < sz" "i < k" for i
    unfolding m2_def
  proof (rule kmemcpy_loop_at)
    show "\<not> (0 \<le> DATA_START b + i - (r + 24) \<and> DATA_START b + i - (r + 24) < i)"
    proof -
      have below: "unat b + 24 * (unat k + 1) \<le> unat r"
        using b chain_below [OF D(1)] spec(2) by fastforce
      have "unat i < unat k" using i(2) by (simp add: word_less_nat_alt)
      then have u: "unat (DATA_START b + i) = unat b + 24 + unat i" "unat (r + 24) = unat r + 24"
        using below spec(3) by (simp_all add: DATA_START_def unat_word_ariths)
      then have "unat (DATA_START b + i - (r + 24)) =
          unat b + 24 + unat i + 18446744073709551616 - (unat r + 24)"
        using below \<open>unat i < unat k\<close> by (simp add: unat_sub_if')
      then show ?thesis using spec(3) by (simp add: word_less_nat_alt)
    qed
  qed (use i in simp_all)
  ultimately show ?thesis using r free(2) by auto
qed

section \<open>Creating the heap\<close>

text \<open>The addresses the heap may use.\<close>

definition heap_area :: "u64 \<Rightarrow> u64 \<Rightarrow> bool" where
  "heap_area base x \<longleftrightarrow> unat base \<le> unat x \<and> unat x < unat base + 70368744177664"

lemma heap_base_least:
  assumes "heap_inv s base ((h, n) # bs)"
  shows "unat base \<le> unat h"
proof (cases "bs = []")
  case False
  then have "last bs \<in> set bs" "fst (last bs) = base" using assms by (auto simp: heap_inv_def)
  then have "(base, snd (last bs)) \<in> set bs" by (metis prod.collapse)
  from chain_below [OF heap_invD(1) [OF assms] this] show ?thesis by simp
next
  case True
  then show ?thesis using assms by (auto simp: heap_inv_def)
qed

lemma kmalloc_area:
  assumes inv: "heap_inv s base ((h, n) # bs)" and sz: "0 < unat sz"
    "unat (bytes_allocated s) + unat sz \<le> unat (heap_size s)"
  defines "r \<equiv> h + 24 * (n + 1)"
  shows "\<not> heap_area base x \<Longrightarrow> header_writes (mem s) h r sz x = mem s x" "\<not> heap_area base x \<Longrightarrow> \<not> in_range (r + 24) sz x"
    "unat (r + 24) = unat r + 24" "unat base \<le> unat r" "unat r + 24 + unat sz < unat base + 70368744177664"
proof -
  note spec = kmalloc_spec [OF inv sz, folded r_def] and D = heap_invD [OF inv]
  have b: "unat base \<le> unat h" by (rule heap_base_least [OF inv])
  have "unat r \<le> unat base + 24 + 48 * unat (bytes_allocated s)" using D(9) spec(2) by simp
  moreover have "unat (bytes_allocated s) + unat sz \<le> 1099511627776" using sz(2) D(5) by simp
  ultimately have r: "unat r + 24 * unat sz + 48 < unat base + 70368744177664" by simp
  then show "unat r + 24 + unat sz < unat base + 70368744177664" "unat base \<le> unat r"
    using b spec(2) by simp_all
  show u: "unat (r + 24) = unat r + 24" using spec(3) by (simp add: unat_word_ariths)
  have h16: "unat (h + 16) = unat h + 16" using spec(2,3) by (simp add: unat_word_ariths)
  have hx: "unat h + 24 \<le> unat r" using spec(2) by simp
  have inside: "\<not> in_range a k x" if "unat base \<le> unat a" "unat a + unat k < unat base + 70368744177664"
    "unat a + unat k \<le> 18446744073709551616" and x: "\<not> heap_area base x" for a k x
  proof
    assume "in_range a k x"
    then have "unat a \<le> unat x" "unat x < unat a + unat k" using in_range_linear [OF that(3)] by simp_all
    then have "heap_area base x" using that(1,2) by (simp add: heap_area_def)
    then show False using x by simp
  qed
  show "header_writes (mem s) h r sz x = mem s x" if "\<not> heap_area base x"
    using that by (intro header_writes_outside inside) (use b hx h16 r spec(3) in simp_all)
  show "\<not> in_range (r + 24) sz x" if "\<not> heap_area base x"
    using that by (intro inside) (use b hx u r spec(3) in simp_all)
qed

text \<open>\<open>krealloc\<close> writes only the new block and the header before it.\<close>

lemma krealloc_frame:
  assumes inv: "heap_inv s base ((h, n) # bs)" and sz: "0 < unat sz"
    "unat (bytes_allocated s) + unat sz \<le> unat (heap_size s)"
    and b: "(b, k) \<in> set ((h, n) # bs)" and r: "krealloc s (DATA_START b) sz = Some (p, s')"
  shows "(c, l) \<in> set ((h, n) # bs) \<Longrightarrow> in_range (DATA_START c) l x \<Longrightarrow> mem s' x = mem s x \<and> \<not> in_range p sz x"
    "\<not> heap_area base x \<Longrightarrow> mem s' x = mem s x \<and> \<not> in_range p sz x"
    "\<exists>m t. s' = s\<lparr>mem := m, heap_head := p - 24, heap_tail := t, bytes_allocated := bytes_allocated s + sz\<rparr>"
proof -
  define r where "r = h + 24 * (n + 1)"
  note spec = kmalloc_spec [OF inv sz, folded r_def]
  define s1 where "s1 = s\<lparr>mem := header_writes (mem s) h r sz, heap_head := r, heap_tail := r,
       bytes_allocated := bytes_allocated s + sz\<rparr>"
  define m2 where "m2 = kmemcpy_loop (mem s1) (r + 24) (DATA_START b) sz 0"
  have k: "kmalloc s sz = Some (r + 24, s1)" using spec(1) by (simp add: s1_def)
  have out: "m2 x = mem s1 x" if "\<not> in_range (r + 24) sz x" for x
    using that unfolding m2_def in_range_def by (intro kmemcpy_loop_outside) simp
  have inv2: "heap_inv (s1\<lparr>mem := m2\<rparr>) base ((r, sz) # (h, n) # bs)"
    by (rule newest_data_write [OF _ spec(3) out]) (use spec(4) in \<open>simp add: s1_def\<close>)
  have b2: "(b, k) \<in> set ((r, sz) # (h, n) # bs)" using b by auto
  note free = kfree_inv [OF inv2 b2]
  have e: "p = r + 24" "s' = s1\<lparr>mem := m2, heap_tail := b\<rparr>"
    using r free(1) by (auto simp: krealloc_def k m2_def)
  show "mem s' x = mem s x \<and> \<not> in_range p sz x" if "(c, l) \<in> set ((h, n) # bs)" "in_range (DATA_START c) l x"
    using kmalloc_frame [OF inv k sz that] out [of x] by (simp add: e)
  show "mem s' x = mem s x \<and> \<not> in_range p sz x" if "\<not> heap_area base x"
    using kmalloc_area(1,2) [OF inv sz that, folded r_def] out [of x] by (simp add: e s1_def)
  show "\<exists>m t. s' = s\<lparr>mem := m, heap_head := p - 24, heap_tail := t, bytes_allocated := bytes_allocated s + sz\<rparr>"
    by (intro exI [of _ m2] exI [of _ b]) (simp add: e s1_def)
qed

lemma chain_apart:
  assumes "chain m bs nx" "(b, k) \<in> set bs" "(c, l) \<in> set bs"
  shows "(b, k) = (c, l) \<or> unat b + 24 * (unat k + 1) \<le> unat c \<or> unat c + 24 * (unat l + 1) \<le> unat b"
  using assms
proof (induction bs arbitrary: nx)
  case (Cons e bs)
  obtain h n where e: "e = (h, n)" by (cases e)
  have ch: "chain m ((h, n) # bs) nx" "chain m bs h" using Cons.prems(1) e by auto
  show ?case
    using Cons.IH [OF ch(2)] Cons.prems(2,3) chain_below [OF ch(1)] e by auto
qed simp

lemma chain_least: "chain m bs nx \<Longrightarrow> (b, k) \<in> set bs \<Longrightarrow> unat (fst (last bs)) \<le> unat b"
proof (induction bs arbitrary: nx)
  case (Cons e bs)
  obtain h n where e: "e = (h, n)" by (cases e)
  have ch: "chain m ((h, n) # bs) nx" "chain m bs h" using Cons.prems(1) e by auto
  show ?case
  proof (cases "bs = []")
    case False
    then have l: "(fst (last bs), snd (last bs)) \<in> set bs" by simp
    show ?thesis
      using Cons.IH [OF ch(2)] Cons.prems(2) chain_below [OF ch(1) l] False e by auto
  qed (use Cons.prems(2) e in simp)
qed simp

lemma chain_headers_cong:
  assumes "chain m bs nx" "\<And>b k x. (b, k) \<in> set bs \<Longrightarrow> in_range b 24 x \<Longrightarrow> m' x = m x"
  shows "chain m' bs nx"
  using assms
proof (induction bs arbitrary: nx)
  case (Cons e bs)
  obtain h n where e: "e = (h, n)" by (cases e)
  have "block_at m' h n nx \<longleftrightarrow> block_at m h n nx"
    by (rule block_at_cong) (use Cons.prems(2) e in auto)
  moreover have "chain m' bs h" by (rule Cons.IH) (use Cons.prems e in auto)
  ultimately show ?case using Cons.prems(1) e by (cases bs) auto
qed simp

lemma live_block_fits:
  assumes inv: "heap_inv s base bs" and b: "(b, k) \<in> set bs"
  shows "unat base \<le> unat b" "unat b + 24 * (unat k + 1) + 48 < unat base + 70368744177664"
    "unat base + 70368744177664 \<le> 18446744073709551616"
proof -
  obtain h n bs' where bs: "bs = (h, n) # bs'" using inv by (cases bs) (auto simp: heap_inv_def)
  note D = heap_invD [OF inv [unfolded bs], folded bs]
  have "unat h + 24 * (unat n + 1) + 48 < unat base + 70368744177664" using D(5,6,9) by simp
  moreover have "unat b + 24 * (unat k + 1) \<le> unat h + 24 * (unat n + 1)"
    using chain_below [OF D(1) [unfolded bs], of b k] b bs by fastforce
  ultimately show "unat b + 24 * (unat k + 1) + 48 < unat base + 70368744177664" by simp
  show "unat base \<le> unat b" using chain_least [OF D(1) b] inv by (auto simp: heap_inv_def)
  show "unat base + 70368744177664 \<le> 18446744073709551616" by (rule D(4))
qed

lemma live_block_data:
  assumes inv: "heap_inv s base bs" and b: "(b, k) \<in> set bs" and x: "in_range (DATA_START b) k x"
  shows "unat b + 24 \<le> unat x" "unat x < unat b + 24 + unat k" "heap_area base x"
proof -
  note fit = live_block_fits [OF inv b]
  have u: "unat (DATA_START b) = unat b + 24" using fit by (simp add: DATA_START_def unat_word_ariths)
  then show "unat b + 24 \<le> unat x" "unat x < unat b + 24 + unat k"
    using x in_range_linear [of "DATA_START b" k x] fit by simp_all
  then show "heap_area base x" using fit by (simp add: heap_area_def)
qed

text \<open>Writing to the data of live blocks and outside the heap keeps the heap well formed.\<close>

lemma heap_data_write:
  assumes inv: "heap_inv s base bs"
    and w: "\<And>x. m' x \<noteq> mem s x \<Longrightarrow> (\<exists>b k. (b, k) \<in> set bs \<and> in_range (DATA_START b) k x) \<or> \<not> heap_area base x"
  shows "heap_inv (s\<lparr>mem := m'\<rparr>) base bs"
proof -
  have ch: "chain (mem s) bs 0" using inv by (simp add: heap_inv_def)
  have "chain m' bs 0"
  proof (rule chain_headers_cong [OF ch])
    fix b k x assume b: "(b, k) \<in> set bs" "in_range b 24 x"
    note fit = live_block_fits [OF inv b(1)]
    have x: "unat b \<le> unat x" "unat x < unat b + 24" using b(2) in_range_linear [of b 24 x] fit by simp_all
    show "m' x = mem s x"
    proof (rule ccontr)
      assume "m' x \<noteq> mem s x"
      moreover have "heap_area base x" using x fit by (simp add: heap_area_def)
      ultimately obtain c l where c: "(c, l) \<in> set bs" "in_range (DATA_START c) l x" using w by blast
      from live_block_data(1,2) [OF inv c] x chain_apart [OF ch b(1) c(1)] show False by auto
    qed
  qed
  then show ?thesis using inv by (simp add: heap_inv_def)
qed
text \<open>What the clients of the heap use of an allocation.\<close>

definition fresh_block ::
    "'a heap_state_scheme \<Rightarrow> 'a heap_state_scheme \<Rightarrow> u64 \<Rightarrow> (u64 \<times> u64) list \<Rightarrow> u64 \<Rightarrow> u64 \<Rightarrow> bool" where
  "fresh_block s s' base bs p sz \<longleftrightarrow> heap_inv s' base ((p - 24, sz) # bs) \<and>
     p = DATA_START (p - 24) \<and> p \<notin> DATA_START ` fst ` set bs \<and>
     (\<forall>b k x. (b, k) \<in> set bs \<longrightarrow> in_range (DATA_START b) k x \<longrightarrow> mem s' x = mem s x \<and> \<not> in_range p sz x) \<and>
     (\<forall>x. \<not> heap_area base x \<longrightarrow> mem s' x = mem s x \<and> \<not> in_range p sz x) \<and>
     s' = s\<lparr>mem := mem s', heap_head := p - 24, heap_tail := p - 24, bytes_allocated := bytes_allocated s + sz\<rparr>"

lemma kmalloc_fresh:
  assumes inv: "heap_inv s base bs" and sz: "0 < unat sz"
    "unat (bytes_allocated s) + unat sz \<le> unat (heap_size s)"
  obtains p s' where "kmalloc s sz = Some (p, s')" "fresh_block s s' base bs p sz" "p \<noteq> 0"
    "unat (bytes_allocated s') = unat (bytes_allocated s) + unat sz" "heap_size s' = heap_size s"
proof -
  obtain h n bs' where bs: "bs = (h, n) # bs'" using inv by (cases bs) (auto simp: heap_inv_def)
  note inv' = inv [unfolded bs]
  define r where "r = h + 24 * (n + 1)"
  note spec = kmalloc_spec [OF inv' sz, folded r_def] and area = kmalloc_area [OF inv' sz, folded r_def]
  define s' where "s' = s\<lparr>mem := header_writes (mem s) h r sz, heap_head := r, heap_tail := r,
       bytes_allocated := bytes_allocated s + sz\<rparr>"
  have k: "kmalloc s sz = Some (r + 24, s')" using spec(1) by (simp add: s'_def)
  have live: "mem s' x = mem s x \<and> \<not> in_range (r + 24) sz x" if "(b, k) \<in> set bs" "in_range (DATA_START b) k x" for b k x
    using kmalloc_frame [OF inv' k sz] that bs by auto
  have below: "unat b + 24 \<le> unat r" if "(b, k) \<in> set bs" for b k
  proof -
    have "(b, k) = (h, n) \<or> (b, k) \<in> set bs'" using that bs by auto
    then have "unat b + 24 * (unat k + 1) \<le> unat r"
      using chain_below [OF heap_invD(1) [OF inv'], of b k] spec(2) by auto
    then show ?thesis by simp
  qed
  have new: "r + 24 \<notin> DATA_START ` fst ` set bs"
    using below by (force simp: DATA_START_def)
  have "fresh_block s s' base bs (r + 24) sz"
    unfolding fresh_block_def
    using spec(4) live area(1,2) new by (auto simp: s'_def DATA_START_def bs)
  moreover have "r + 24 \<noteq> 0" using area(3) by auto
  moreover have "unat (bytes_allocated s + sz) = unat (bytes_allocated s) + unat sz"
    using sz heap_invD(5) [OF inv'] by (simp add: unat_word_ariths)
  ultimately show thesis using that [OF k] by (simp add: s'_def)
qed

lemma kmalloc_more: "kmalloc s sz = Some (p, s') \<Longrightarrow> heap_state.more s' = heap_state.more s"
  by (auto simp: kmalloc_def append_block_def Let_def split: bind_splits if_splits prod.splits)

lemma kfree_more: "kfree s p = Some s' \<Longrightarrow> heap_state.more s' = heap_state.more s"
  by (auto simp: kfree_def Let_def split: bind_splits if_splits)

lemma krealloc_more: "krealloc s p sz = Some (q, s') \<Longrightarrow> heap_state.more s' = heap_state.more s"
  by (auto simp: krealloc_def Let_def split: bind_splits dest!: kmalloc_more kfree_more)

lemma heap_fields_more:
  fixes s s' :: "'a heap_state_scheme"
  assumes "vmm_state.more s' = vmm_state.more s"
  shows "bytes_allocated s' = bytes_allocated s" "heap_size s' = heap_size s" "heap_head s' = heap_head s"
    "heap_tail s' = heap_tail s"
  using assms by (cases s; cases s'; simp)+

text \<open>The first block: an empty header at the start of the region.\<close>

lemma create_heap_spec:
  assumes ok: "space_ok s (get_pml4 s)" and n: "4 * unat n_pages \<le> card {k. frame_free s k}"
    "unat n_pages \<le> 268435456" "page_of vaddr + unat n_pages < 68719476736"
    and v: "vaddr \<noteq> 0" "unat vaddr + 70368744177664 \<le> 18446744073709551616"
    and fresh: "bytes_allocated s = 0"
  shows "\<exists>s'. create_heap s vaddr n_pages = Some s' \<and> heap_inv s' vaddr [(vaddr, 0)] \<and>
    unat (heap_size s') = 4096 * unat n_pages"
proof -
  let ?flags = "get_flags_from_prot (PROT_READ OR PROT_WRITE)"
  have "\<exists>fs s'. mmap_loop s (get_pml4 s) vaddr n_pages ?flags 0 = Some (0, s') \<and> length fs = unat n_pages \<and>
    region_mapped (get_pml4 s) vaddr ?flags fs s s'"
    by (rule mmap_loop_spec [OF ok]) (use n in simp_all)
  then obtain s1 where s1: "mmap_loop s (get_pml4 s) vaddr n_pages ?flags 0 = Some (0, s1)" by blast
  have b0: "bytes_allocated s1 = 0"
    using heap_fields_more(1) [of s1 s] mmap_loop_fields [OF s1] fresh by simp
  define m1 where "m1 = st32 (set_state (st64 (st64 (mem s1) (vaddr + 8) 0) (vaddr + 16) 0) vaddr USED) vaddr MAGIC"
  define s' where "s' = s1\<lparr>heap_size := n_pages * PAGE_SIZE, heap_head := vaddr, mem := m1, heap_tail := vaddr\<rparr>"
  have c: "create_heap s vaddr n_pages = Some s'"
    using s1 by (simp add: create_heap_def mmap_def s'_def m1_def Let_def)
  have clear: "(w AND - 2) AND 1 = 0" for w :: u8
  proof -
    have "(w AND NOT 1) AND 1 = 0" by (rule bit_word_eqI) (auto simp: bit_simps)
    then show ?thesis by simp
  qed
  have "block_at m1 vaddr 0 0"
    unfolding m1_def set_state_def block_defs by (simp add: cell_simps clear)
  moreover have "unat (n_pages * PAGE_SIZE) = 4096 * unat n_pages"
    using n(2) by (simp add: unat_word_ariths)
  ultimately show ?thesis
    using c v b0 n(2) by (simp add: heap_inv_def s'_def)
qed

text \<open>The boot machine with the heap's variables still zero.\<close>

definition bare_heap :: heap_state where
  "bare_heap = \<lparr>mem = mem boot_machine, hhdm = hhdm boot_machine, memmap = memmap boot_machine,
     bitmap = bitmap boot_machine, usable_pages = usable_pages boot_machine,
     bitmap_size = bitmap_size boot_machine, highest_addr = highest_addr boot_machine,
     root_pagemap = root_pagemap boot_machine, cr3 = cr3 boot_machine, tlb_flushes = [],
     heap_head = 0, heap_tail = 0, heap_size = 0, bytes_allocated = 0\<rparr>"

lemma bare_heap_free: "frame_free bare_heap = frame_free boot_machine"
  by (rule ext) (simp add: frame_free_def bare_heap_def)

lemma bare_heap_space: "space_ok bare_heap (cr3 bare_heap)"
proof -
  have "pmm_ok bare_heap" "is_table bare_heap = is_table boot_machine" "mem bare_heap = mem boot_machine"
    "cr3 bare_heap = 0x8000"
    using boot_machine_ok
    by (simp_all add: pmm_ok_def is_table_def fun_eq_iff bare_heap_free) (simp_all add: bare_heap_def boot_machine_def)
  then show ?thesis using boot_machine_space by (simp add: space_ok_def)
qed

section \<open>Properties\<close>


text \<open>When memory suffices, \<open>create_heap\<close> returns and leaves a well-formed heap: one empty block
  at the start of the region.\<close>

theorem create_heap_correct:
  assumes "space_ok s (cr3 s)" "4 * unat n_pages \<le> card {k. frame_free s k}" "unat n_pages \<le> 268435456"
    "page_of vaddr + unat n_pages < 68719476736" "vaddr \<noteq> 0"
    "unat vaddr + 70368744177664 \<le> 18446744073709551616" "bytes_allocated s = 0"
  shows "\<exists>s'. create_heap s vaddr n_pages = Some s' \<and> heap_inv s' vaddr [(vaddr, 0)] \<and>
    unat (heap_size s') = 4096 * unat n_pages"
  by (rule create_heap_spec) (use assms in \<open>simp_all add: get_pml4_def\<close>)

lemma create_heap_correct_witness:
  "\<exists>s'. create_heap bare_heap 0xFFFF900000000000 7 = Some s' \<and> heap_size s' = 0x7000"
proof -
  have "\<exists>s'. create_heap bare_heap 0xFFFF900000000000 7 = Some s' \<and>
     heap_inv s' 0xFFFF900000000000 [(0xFFFF900000000000, 0)] \<and> unat (heap_size s') = 4096 * unat (7 :: u64)"
    by (rule create_heap_correct [OF bare_heap_space])
      (use boot_machine_many_free in \<open>simp_all add: bare_heap_free page_of_def\<close>, simp add: bare_heap_def)
  then show ?thesis by (auto simp: word_unat_eq_iff)
qed

text \<open>A heap of one page, as \<open>create_heap\<close> leaves it, and the same heap after an allocation of 200
  bytes.\<close>

definition small_heap :: heap_state where
  "small_heap = \<lparr>mem = st32 (\<lambda>_. 0) 0x10000 MAGIC, hhdm = 0xFFFF800000000000, memmap = [],
     bitmap = 0xFFFF800000100000, usable_pages = 0, bitmap_size = 0x1000, highest_addr = 0,
     root_pagemap = 0x8000, cr3 = 0x8000, tlb_flushes = [],
     heap_head = 0x10000, heap_tail = 0x10000, heap_size = 0x1000, bytes_allocated = 0\<rparr>"

lemma small_heap_inv: "heap_inv small_heap 0x10000 [(0x10000, 0)]"
proof -
  have "ld64 (\<lambda>_. 0) a = 0" "ld8 (\<lambda>_. 0) a = 0" for a by (simp_all add: ld64_zero ld8_def)
  then have "block_at (mem small_heap) 0x10000 0 0"
    by (simp add: small_heap_def block_defs cell_simps)
  then show ?thesis by (simp add: heap_inv_def small_heap_def)
qed

definition used_heap :: heap_state where
  "used_heap = small_heap\<lparr>mem := header_writes (mem small_heap) 0x10000 0x10018 200,
      heap_head := 0x10018, heap_tail := 0x10018, bytes_allocated := 200\<rparr>"

lemma used_heap_inv: "heap_inv used_heap 0x10000 [(0x10018, 200), (0x10000, 0)]"
proof -
  have "0 < unat (200 :: u64)" "unat (bytes_allocated small_heap) + unat (200 :: u64) \<le> unat (heap_size small_heap)"
    and "bytes_allocated small_heap + 200 = 200" by (simp_all add: small_heap_def)
  with kmalloc_spec(4) [OF small_heap_inv] show ?thesis by (simp add: used_heap_def)
qed

lemma used_heap_size: "heap_size used_heap = 0x1000" "bytes_allocated used_heap = 200"
  by (simp_all add: used_heap_def small_heap_def)


text \<open>C30: The heap overruns the memory that was mapped for it: an allocation is placed
  \<open>24 * (n + 1)\<close> bytes after the previous block of size \<open>n\<close> although only \<open>n\<close> bytes were
  counted, so one that passes the check of \<open>kmalloc\<close> can lie entirely beyond the region.\<close>

theorem kmalloc_overruns:
  assumes "heap_inv s base ((h, n) # bs)" "0 < unat sz"
    "unat (bytes_allocated s) + unat sz \<le> unat (heap_size s)"
    "unat base + unat (heap_size s) \<le> unat h + 24 * (unat n + 2)"
  shows "\<exists>p s'. kmalloc s sz = Some (p, s') \<and> p \<noteq> 0 \<and> unat base + unat (heap_size s) \<le> unat p"
proof -
  note spec = kmalloc_spec [OF assms(1-3)]
  let ?p = "h + 24 * (n + 1) + 24"
  have u: "unat ?p = unat h + 24 * (unat n + 1) + 24" using spec(2,3) by (simp add: unat_word_ariths)
  then have "?p \<noteq> 0" by (metis add_is_0 unsigned_0 zero_neq_numeral)
  then show ?thesis using spec(1) u assms(4) by auto
qed

lemma kmalloc_overruns_witness:
  "\<exists>s p s'. heap_size s = 0x1000 \<and> heap_inv s 0x10000 [(0x10018, 200), (0x10000, 0)] \<and>
     kmalloc (s :: heap_state) 8 = Some (p, s') \<and> 0x11000 \<le> unat p"
  using kmalloc_overruns [OF used_heap_inv, of 8] used_heap_size used_heap_inv by auto

text \<open>\<open>kfree\<close> never frees: it returns for every pointer, changes no byte of memory, and at
  most moves \<open>heap_tail\<close>; on a well-formed heap every later allocation still takes new space.\<close>

theorem kfree_never_frees:
  "\<exists>s'. kfree s ptr = Some s' \<and> mem s' = mem s \<and> bytes_allocated s' = bytes_allocated s \<and>
     s' = s\<lparr>heap_tail := heap_tail s'\<rparr>"
  by (simp add: kfree_eq)

text \<open>C31: \<open>krealloc\<close> of a live block, when the new size fits, returns a new block that begins with
  the contents of the old one (cut to the smaller size), and keeps the heap well formed.\<close>

theorem krealloc_correct:
  assumes "heap_inv s base ((h, n) # bs)" "0 < unat sz"
    "unat (bytes_allocated s) + unat sz \<le> unat (heap_size s)" "(b, k) \<in> set ((h, n) # bs)"
  shows "\<exists>p r s'. krealloc s (DATA_START b) sz = Some (p, s') \<and> p = DATA_START r \<and>
    heap_inv s' base ((r, sz) # (h, n) # bs) \<and>
    (\<forall>i. i < sz \<longrightarrow> i < k \<longrightarrow> mem s' (p + i) = mem s (DATA_START b + i))"
  using krealloc_spec [OF assms] unfolding DATA_START_def by blast

lemma krealloc_correct_witness:
  "\<exists>p s'. krealloc small_heap (DATA_START 0x10000) 16 = Some (p, s')"
  using krealloc_correct [OF small_heap_inv, of 16 "0x10000" 0] by (auto simp: small_heap_def)

text \<open>The limit check of \<open>kmalloc\<close> wraps around: once something is allocated, a request for
  \<open>2^64 - bytes_allocated\<close> bytes passes it and is granted.\<close>

theorem kmalloc_check_overflows:
  assumes "heap_inv s base bs" "0 < bytes_allocated s" "bytes_allocated s < heap_size s"
  shows "\<exists>p s'. kmalloc s (- bytes_allocated s) = Some (p, s') \<and> bytes_allocated s' = 0"
proof -
  have c: "chain (mem s) bs 0" "heap_tail s \<in> fst ` set bs" "heap_head s \<in> fst ` set bs"
    using assms(1) by (auto simp: heap_inv_def intro: rev_image_eqI [OF hd_in_set])
  have "blk_magic (mem s) (heap_head s) = MAGIC" "blk_magic (mem s) (heap_tail s) = MAGIC"
    using chain_magic [OF c(1)] c(2,3) by auto
  moreover have "first_fit s (- bytes_allocated s) = Some 0" by (rule first_fit_none [OF c(1,2)])
  ultimately show ?thesis
    using assms(2,3) by (auto simp: kmalloc_def append_block_def Let_def)
qed

lemma kmalloc_check_overflows_witness:
  "\<exists>s p s'. kmalloc (s :: heap_state) (- 200) = Some (p, s') \<and> bytes_allocated s' = 0"
  using kmalloc_check_overflows [OF used_heap_inv] used_heap_size by auto

end
