(* ===== verification/Initrd.thy ===== *)
theory Initrd
  imports Heap
begin

text \<open>
  \<open>sys/src/lib/module.c\<close> and \<open>sys/src/fs/initrd.c\<close>: the loader's modules and the initial
  ramdisk, a tar archive whose files are looked up by name.

  \<open>modules\<close> is the loader's answer (\<open>mod_req.response\<close>), a list of files; \<open>initrd\<close> and
  \<open>initrd_size\<close> are the static variables of \<open>initrd.c\<close>.  The message printed before a panic is
  not modelled.
\<close>

section \<open>State and operations\<close>

record limine_file =
  lf_address :: u64
  lf_size :: u64
  lf_path :: u64

record initrd_state = heap_state +
  modules :: "limine_file list"
  initrd :: u64
  initrd_size :: u64

fun get_module_loop :: "memory \<Rightarrow> limine_file list \<Rightarrow> u64 \<Rightarrow> (u64 \<times> u64) option option" where
  "get_module_loop m [] path = Some None"
| "get_module_loop m (f # fs) path = do {
     c \<leftarrow> kstrcmp m (lf_path f) path;
     if c = 0 then Some (Some (lf_size f, lf_address f)) else get_module_loop m fs path
   }"

text \<open>The result is the address (0 for none) and the value stored through \<open>size\<close>, which is
  left alone when no module matches.\<close>

definition get_module :: "'a initrd_state_scheme \<Rightarrow> u64 \<Rightarrow> u64 \<Rightarrow> (u64 \<times> u64) option" where
  "get_module s path sz = do {
     r \<leftarrow> get_module_loop (mem s) (modules s) path;
     Some (case r of None \<Rightarrow> (0, sz) | Some (msize, addr) \<Rightarrow> (addr, msize))
   }"

text \<open>Offsets in \<open>struct TarHeader\<close>: the file name is at 0, the size field at 124.  A character is
  signed, so a byte of 0x80 and above counts as negative.\<close>

abbreviation tar_size_offset :: u64 where "tar_size_offset \<equiv> 124"

fun getsize_loop :: "memory \<Rightarrow> u64 \<Rightarrow> nat \<Rightarrow> u64 \<Rightarrow> u64 \<Rightarrow> u64" where
  "getsize_loop m p 0 count sz = sz"
| "getsize_loop m p (Suc j) count sz =
     getsize_loop m p j (count * 8) (sz + (scast (m (p + of_nat j)) - 0x30) * count)"

definition getsize :: "memory \<Rightarrow> u64 \<Rightarrow> u64" where
  "getsize m p = getsize_loop m p 11 1 0"

text \<open>\<open>initrd_path\<close> is the address of the string literal \<open>/Ignis/initrd.sys\<close>.\<close>

definition initrd_init :: "'a initrd_state_scheme \<Rightarrow> u64 \<Rightarrow> 'a initrd_state_scheme option" where
  "initrd_init s initrd_path = do {
     (addr, sz) \<leftarrow> get_module s initrd_path (initrd_size s);
     let s = s\<lparr>initrd := addr, initrd_size := sz\<rparr>;
     if initrd s = 0 then None else Some s
   }"

partial_function (option) initrd_loop :: "memory \<Rightarrow> u64 \<Rightarrow> u64 \<Rightarrow> u64 \<Rightarrow> u64 option" where
  "initrd_loop m path header addr =
     (if m header \<noteq> 0 then
        (let header = addr; sz = getsize m (header + tar_size_offset) in
         do {
           c \<leftarrow> kstrcmp m header path;
           if c = 0 then Some (addr + 0x200)
           else initrd_loop m path header (addr + ((sz + 511) div 512 + 1) * 512)
         })
      else Some 0)"

definition initrd_open ::
    "'a initrd_state_scheme \<Rightarrow> u64 \<Rightarrow> u64 \<Rightarrow> (u64 \<times> 'a initrd_state_scheme) option" where
  "initrd_open s initrd_path path = do {
     s \<leftarrow> (if initrd s = 0 then initrd_init s initrd_path else Some s);
     len \<leftarrow> kstrlen (mem s) path;
     if 99 < len then Some (0, s)
     else do {
       let addr = initrd s + 0x200;
       r \<leftarrow> initrd_loop (mem s) path addr addr;
       Some (r, s)
     }
   }"

section \<open>Octal fields\<close>

fun octal_digits :: "nat \<Rightarrow> nat \<Rightarrow> nat list" where
  "octal_digits 0 n = []"
| "octal_digits (Suc k) n = octal_digits k (n div 8) @ [n mod 8]"

definition octal_field :: "nat \<Rightarrow> u8 list" where
  "octal_field n = map (\<lambda>d. of_nat d + 0x30) (octal_digits 11 n)"

lemma length_octal_digits [simp]: "length (octal_digits k n) = k"
  by (induction k arbitrary: n) auto

lemma octal_digits_less: "d \<in> set (octal_digits k n) \<Longrightarrow> d < 8"
  by (induction k arbitrary: n) auto

lemma octal_char:
  assumes "d < 8"
  shows "(scast (of_nat d + 0x30 :: u8) - 0x30 :: u64) = of_nat d"
proof -
  have "d = 0 \<or> d = 1 \<or> d = 2 \<or> d = 3 \<or> d = 4 \<or> d = 5 \<or> d = 6 \<or> d = 7" using assms by auto
  then show ?thesis by (elim disjE) simp_all
qed

lemma getsize_loop_octal:
  assumes "\<And>i. i < j \<Longrightarrow> m (p + of_nat i) = of_nat (octal_digits j n ! i) + 0x30"
  shows "getsize_loop m p j count sz = sz + of_nat (n mod 8 ^ j) * count"
  using assms
proof (induction j arbitrary: n count sz)
  case 0
  then show ?case by simp
next
  case (Suc j)
  have "m (p + of_nat j) = of_nat (n mod 8) + 0x30"
    using Suc.prems [of j] by (simp add: nth_append)
  then have "getsize_loop m p (Suc j) count sz = getsize_loop m p j (count * 8) (sz + of_nat (n mod 8) * count)"
    by (simp add: octal_char)
  also have "\<dots> = sz + of_nat (n mod 8) * count + of_nat (n div 8 mod 8 ^ j) * (count * 8)"
    by (rule Suc.IH) (use Suc.prems in \<open>fastforce simp: nth_append\<close>)
  also have "\<dots> = sz + of_nat (n mod 8 + 8 * (n div 8 mod 8 ^ j)) * count"
    by (simp add: algebra_simps)
  also have "n mod 8 + 8 * (n div 8 mod 8 ^ j) = n mod 8 ^ Suc j"
    by (simp add: mod_mult2_eq)
  finally show ?case .
qed

lemma getsize_octal:
  assumes "bytes_at m p 11 = octal_field n" "n < 8 ^ 11"
  shows "getsize m p = of_nat n"
proof -
  have "m (p + of_nat i) = of_nat (octal_digits 11 n ! i) + 0x30" if "i < 11" for i
    using arg_cong [OF assms(1), of "\<lambda>xs. xs ! i"] that by (simp add: octal_field_def del: octal_digits.simps)
  then show ?thesis
    using getsize_loop_octal [of 11 m p n 1 0] assms(2) by (simp add: getsize_def del: getsize_loop.simps octal_digits.simps)
qed

lemma length_octal_field: "length (octal_field n) = 11"
  by (simp add: octal_field_def)

section \<open>Archives\<close>

text \<open>\<open>archive m a es\<close>: from address \<open>a\<close> on, memory holds a tar archive with the entries \<open>es\<close>
  (name and size), each a header block and its data in whole blocks, closed by a zero block.\<close>

definition entry_blocks :: "nat \<Rightarrow> nat" where
  "entry_blocks len = (len + 511) div 512 + 1"

fun archive :: "memory \<Rightarrow> u64 \<Rightarrow> (u8 list \<times> nat) list \<Rightarrow> bool" where
  "archive m a [] \<longleftrightarrow> m a = 0"
| "archive m a ((name, len) # es) \<longleftrightarrow> name \<noteq> [] \<and> length name < 100 \<and> len < 8 ^ 11 \<and> cstr m a name \<and>
     bytes_at m (a + tar_size_offset) 11 = octal_field len \<and>
     archive m (a + 512 * of_nat (entry_blocks len)) es"

text \<open>Where the data of the first entry with a given name begins, 0 if there is none.\<close>

fun archive_lookup :: "u64 \<Rightarrow> (u8 list \<times> nat) list \<Rightarrow> u8 list \<Rightarrow> u64" where
  "archive_lookup a [] path = 0"
| "archive_lookup a ((name, len) # es) path =
     (if name = path then a + 512 else archive_lookup (a + 512 * of_nat (entry_blocks len)) es path)"

lemma entry_advance:
  assumes "len < 8 ^ 11"
  shows "a + (((of_nat len :: u64) + 511) div 512 + 1) * 512 = a + 512 * of_nat (entry_blocks len)"
proof -
  have "unat ((of_nat len :: u64) + 511) = len + 511"
    using assms by (simp add: unat_word_ariths unat_of_nat)
  then have "unat (((of_nat len :: u64) + 511) div 512) = (len + 511) div 512"
    by (simp add: unat_div)
  moreover have "(len + 511) div 512 < 18446744073709551616" using assms by simp
  ultimately have "((of_nat len :: u64) + 511) div 512 = of_nat ((len + 511) div 512)"
    by (simp add: word_unat_eq_iff unat_of_nat del: of_nat_div)
  then show ?thesis by (simp add: entry_blocks_def algebra_simps)
qed

lemma cstr_first: "cstr m a name \<Longrightarrow> m a = 0 \<longleftrightarrow> name = []"
  by (cases name) auto

lemma initrd_loop_archive:
  assumes "archive m a es" "cstr m path p" "p \<noteq> []" "length p < 100" "m header \<noteq> 0"
  shows "initrd_loop m path header a = Some (archive_lookup a es p)"
  using assms(1,5)
proof (induction es arbitrary: a header)
  case Nil
  then have "m a = 0" by simp
  moreover from Nil have "kstrcmp m a path = Some 1"
    using kstrcmp_cstr [of m a "[]" path p] assms(2-4) by simp
  ultimately show ?case
    using Nil by (simp add: initrd_loop.simps [of m path header a] initrd_loop.simps [of m path a] Let_def)
next
  case (Cons e es)
  obtain name len where e: "e = (name, len)" by (cases e)
  have a: "name \<noteq> []" "length name < 100" "len < 8 ^ 11" "cstr m a name"
    "bytes_at m (a + tar_size_offset) 11 = octal_field len"
    "archive m (a + 512 * of_nat (entry_blocks len)) es" using Cons.prems(1) e by auto
  have cmp: "kstrcmp m a path = Some (if name = p then 0 else 1)"
    by (rule kstrcmp_cstr [OF a(4) assms(2)]) (use a(2) assms(4) in simp_all)
  have sz: "getsize m (a + tar_size_offset) = of_nat len" by (rule getsize_octal [OF a(5,3)])
  have "m a \<noteq> 0" using cstr_first [OF a(4)] a(1) by simp
  from Cons.IH [OF a(6) this] show ?case
    using Cons.prems(2) cmp sz entry_advance [OF a(3), of a] e
    by (simp add: initrd_loop.simps [of m path header a] Let_def)
qed

lemma initrd_open_archive:
  assumes "initrd s \<noteq> 0" "archive (mem s) (initrd s + 0x200) es" "es \<noteq> []" "cstr (mem s) path p" "p \<noteq> []"
    "length p < 100"
  shows "initrd_open s lit path = Some (archive_lookup (initrd s + 0x200) es p, s)"
proof -
  have "mem s (initrd s + 0x200) \<noteq> 0"
    using assms(2,3) cstr_first by (cases es) auto
  note loop = initrd_loop_archive [OF assms(2,4-6) this]
  have "\<not> (99 :: u64) < of_nat (length p)"
    using assms(6) by (simp add: word_less_nat_alt unat_of_nat)
  then show ?thesis
    using assms(1) loop kstrlen_cstr [OF assms(4)] by (simp add: initrd_open_def Let_def)
qed

section \<open>Properties\<close>

text \<open>\<open>_getsize\<close> reads back every number below \<open>8^11\<close> that is written in the octal size field
  of a tar header.\<close>

theorem getsize_roundtrip:
  assumes "bytes_at m p 11 = octal_field n" "n < 8 ^ 11"
  shows "getsize m p = of_nat n"
  using assms by (rule getsize_octal)

lemma getsize_roundtrip_witness:
  "getsize (write_bytes (\<lambda>_. 0) 0x1000 (octal_field 511)) 0x1000 = 511"
proof -
  have "bytes_at (write_bytes (\<lambda>_. 0) 0x1000 (octal_field 511)) 0x1000 11 = octal_field 511"
    by (rule bytes_at_write_bytes) (simp_all add: length_octal_field)
  from getsize_roundtrip [OF this] show ?thesis by simp
qed

text \<open>A ramdisk at \<open>0x100000\<close> with one entry \<open>a\<close> of five bytes, and the path \<open>a\<close> at \<open>0x500\<close>.\<close>

definition small_disk :: memory where
  "small_disk = write_bytes ((\<lambda>_. 0)(0x100200 := 0x61, 0x500 := 0x61)) (0x100200 + 124) (octal_field 5)"

definition disk_state :: initrd_state where
  "disk_state = \<lparr>mem = small_disk, hhdm = 0xFFFF800000000000, memmap = [], bitmap = 0, usable_pages = 0, bitmap_size = 0,
     highest_addr = 0, root_pagemap = 0, cr3 = 0, tlb_flushes = [], heap_head = 0, heap_tail = 0, heap_size = 0,
     bytes_allocated = 0, modules = [], initrd = 0x100000, initrd_size = 0\<rparr>"

lemma small_disk_archive:
  "archive small_disk 0x100200 [([0x61], 5)]" "cstr small_disk 0x500 [0x61]"
proof -
  have out: "small_disk x = (if x = 0x100200 \<or> x = 0x500 then 0x61 else 0)" if "\<not> in_range 0x10027C 11 x" for x
    using that by (simp add: small_disk_def write_bytes_outside length_octal_field)
  have z: "small_disk 0x100200 = 0x61" "small_disk 0x500 = 0x61"
    "small_disk 0x100201 = 0" "small_disk 0x501 = 0" "small_disk 0x100600 = 0"
    by (subst out; simp add: in_range_def)+
  have "bytes_at small_disk (0x100200 + 124) 11 = octal_field 5"
    unfolding small_disk_def by (rule bytes_at_write_bytes) (simp_all add: length_octal_field)
  then show "archive small_disk 0x100200 [([0x61], 5)]" "cstr small_disk 0x500 [0x61]"
    using z by (simp_all add: entry_blocks_def)
qed

text \<open>C23: Opening a file of a well-formed archive returns the address of the data of the first entry
  with that name, and 0 when there is none; the search always ends.  The entry at the very
  beginning of the ramdisk is never looked at.\<close>

theorem initrd_open_correct:
  assumes "initrd s \<noteq> 0" "archive (mem s) (initrd s + 0x200) es" "es \<noteq> []" "cstr (mem s) path p" "p \<noteq> []"
    "length p < 100"
  shows "initrd_open s lit path = Some (archive_lookup (initrd s + 0x200) es p, s)"
  using assms by (rule initrd_open_archive)

lemma initrd_open_correct_witness: "initrd_open disk_state 0 0x500 = Some (0x100400, disk_state)"
proof -
  have d: "mem disk_state = small_disk" "initrd disk_state = 0x100000" by (simp_all add: disk_state_def)
  have "initrd_open disk_state 0 0x500
      = Some (archive_lookup (initrd disk_state + 0x200) [([0x61], 5)] [0x61], disk_state)"
    by (rule initrd_open_correct)
      (simp_all add: d small_disk_archive [simplified] small_disk_archive del: archive.simps cstr.simps)
  then show ?thesis by (simp add: d)
qed

end
