(* ===== verification/Elf.thy ===== *)
theory Elf
  imports Initrd
begin

text \<open>
  \<open>sys/src/lib/elf.c\<close>: loading an executable from the ramdisk.  The file header is checked,
  the program headers are copied to the heap, and every loadable segment is mapped and filled.

  The ramdisk and the heap are accessed at the addresses of the flat memory; the segments are
  written at user addresses, so these stores go through the page tables of the current address
  space.  A store to a page that is not present is a page fault, which stops the kernel: the
  result is \<open>None\<close>.  The messages printed for rejected files are not modelled.
\<close>

section \<open>File format\<close>

abbreviation EI_MAG0 :: nat where "EI_MAG0 \<equiv> 0"
abbreviation EI_MAG1 :: nat where "EI_MAG1 \<equiv> 1"
abbreviation EI_MAG2 :: nat where "EI_MAG2 \<equiv> 2"
abbreviation EI_MAG3 :: nat where "EI_MAG3 \<equiv> 3"
abbreviation EI_CLASS :: nat where "EI_CLASS \<equiv> 4"
abbreviation EI_DATA :: nat where "EI_DATA \<equiv> 5"
abbreviation EI_NIDENT :: nat where "EI_NIDENT \<equiv> 16"

abbreviation ELFMAG0 :: u8 where "ELFMAG0 \<equiv> 0x7F"
abbreviation ELFMAG1 :: u8 where "ELFMAG1 \<equiv> of_char (CHR ''E'')"
abbreviation ELFMAG2 :: u8 where "ELFMAG2 \<equiv> of_char (CHR ''L'')"
abbreviation ELFMAG3 :: u8 where "ELFMAG3 \<equiv> of_char (CHR ''F'')"
abbreviation ELFCLASS64 :: u8 where "ELFCLASS64 \<equiv> 2"
abbreviation ELFDATA2LSB :: u8 where "ELFDATA2LSB \<equiv> 1"
abbreviation ET_EXEC :: u16 where "ET_EXEC \<equiv> 2"
abbreviation EM_X86_64 :: u16 where "EM_X86_64 \<equiv> 62"
abbreviation EV_CURRENT :: u32 where "EV_CURRENT \<equiv> 1"
abbreviation PT_LOAD :: u32 where "PT_LOAD \<equiv> 1"

record Elf64_Ehdr =
  e_ident :: "u8 list"
  e_type :: u16
  e_machine :: u16
  e_version :: u32
  e_entry :: u64
  e_phoff :: u64
  e_shoff :: u64
  e_flags :: u32
  e_ehsize :: u16
  e_phentsize :: u16
  e_phnum :: u16
  e_shentsize :: u16
  e_shnum :: u16
  e_shstrndx :: u16

record Elf64_Phdr =
  p_type :: u32
  p_flags :: u32
  p_offset :: u64
  p_vaddr :: u64
  p_paddr :: u64
  p_filesz :: u64
  p_memsz :: u64
  p_align :: u64

record program_image =
  phdrs :: u64
  elf_ptr :: u64
  prog_start :: u64
  prog_end :: u64

text \<open>The copy of the first 64 bytes of the file into the local variable \<open>header\<close>.\<close>

definition read_ehdr :: "memory \<Rightarrow> u64 \<Rightarrow> Elf64_Ehdr" where
  "read_ehdr m p = \<lparr>e_ident = bytes_at m p EI_NIDENT, e_type = ld16 m (p + 16), e_machine = ld16 m (p + 18),
     e_version = ld32 m (p + 20), e_entry = ld64 m (p + 24), e_phoff = ld64 m (p + 32), e_shoff = ld64 m (p + 40),
     e_flags = ld32 m (p + 48), e_ehsize = ld16 m (p + 52), e_phentsize = ld16 m (p + 54), e_phnum = ld16 m (p + 56),
     e_shentsize = ld16 m (p + 58), e_shnum = ld16 m (p + 60), e_shstrndx = ld16 m (p + 62)\<rparr>"

definition read_phdr :: "memory \<Rightarrow> u64 \<Rightarrow> Elf64_Phdr" where
  "read_phdr m p = \<lparr>p_type = ld32 m p, p_flags = ld32 m (p + 4), p_offset = ld64 m (p + 8), p_vaddr = ld64 m (p + 16),
     p_paddr = ld64 m (p + 24), p_filesz = ld64 m (p + 32), p_memsz = ld64 m (p + 40), p_align = ld64 m (p + 48)\<rparr>"

section \<open>Operations\<close>

definition is_valid :: "Elf64_Ehdr \<Rightarrow> bool" where
  "is_valid hdr =
     (if e_ident hdr ! EI_MAG0 \<noteq> ELFMAG0 then False
      else if e_ident hdr ! EI_MAG1 \<noteq> ELFMAG1 then False
      else if e_ident hdr ! EI_MAG2 \<noteq> ELFMAG2 then False
      else if e_ident hdr ! EI_MAG3 \<noteq> ELFMAG3 then False
      else True)"

definition is_supported :: "Elf64_Ehdr \<Rightarrow> bool" where
  "is_supported hdr =
     (if e_ident hdr ! EI_CLASS \<noteq> ELFCLASS64 then False
      else if e_ident hdr ! EI_DATA \<noteq> ELFDATA2LSB then False
      else if e_machine hdr \<noteq> EM_X86_64 then False
      else if e_version hdr \<noteq> EV_CURRENT then False
      else if e_type hdr \<noteq> ET_EXEC then False
      else True)"

text \<open>The product of two 16-bit numbers is an \<open>int\<close>; widening it extends its sign.\<close>

definition phdrs_size :: "Elf64_Ehdr \<Rightarrow> u64" where
  "phdrs_size hdr = scast (ucast (e_phnum hdr) * ucast (e_phentsize hdr) :: u32)"

text \<open>A byte stored at a virtual address: it reaches the frame that the page tables name.\<close>

definition virt_to_phys :: "memory \<Rightarrow> u64 \<Rightarrow> u64 \<Rightarrow> u64" where
  "virt_to_phys m pml4 v = PTE_GET_ADDR (pte m pml4 v) + (v AND 0xFFF)"

definition store_virt :: "'a vmm_state_scheme \<Rightarrow> u64 \<Rightarrow> u8 \<Rightarrow> 'a vmm_state_scheme option" where
  "store_virt s v b =
     (if pte (mem s) (cr3 s) v AND PTE_PRESENT = 0 then None
      else Some (s\<lparr>mem := (mem s)(virt_to_phys (mem s) (cr3 s) v := b)\<rparr>))"

text \<open>\<open>p_filesz\<close> is read from the heap again on every round.\<close>

partial_function (option) copy_segment ::
    "'a vmm_state_scheme \<Rightarrow> u64 \<Rightarrow> u64 \<Rightarrow> u64 \<Rightarrow> u64 \<Rightarrow> 'a vmm_state_scheme option" where
  "copy_segment s phdr segment src i =
     (if i < p_filesz (read_phdr (mem s) phdr) then do {
        s \<leftarrow> store_virt s (segment + i) (mem s (src + i));
        copy_segment s phdr segment src (i + 1)
      } else Some s)"

definition load_phdr ::
    "'a vmm_state_scheme \<Rightarrow> program_image \<Rightarrow> u64 \<Rightarrow> u64 \<Rightarrow> (program_image \<times> 'a vmm_state_scheme) option" where
  "load_phdr s pimg phdr orig =
     (if p_type (read_phdr (mem s) phdr) = PT_LOAD then do {
        let n_pages = (ucast (p_memsz (read_phdr (mem s) phdr) + 0x1000 - 1) :: u32);
        let pimg = pimg\<lparr>prog_end := prog_end pimg + scast (n_pages * 0x1000)\<rparr>;
        let segment = p_paddr (read_phdr (mem s) phdr);
        let src = orig + p_offset (read_phdr (mem s) phdr);
        (_, s) \<leftarrow> mmap s segment (scast n_pages) (PROT_READ OR PROT_WRITE OR PROT_USER OR PROT_EXEC);
        s \<leftarrow> copy_segment s phdr segment src 0;
        Some (pimg, s)
      } else Some (pimg, s))"

partial_function (option) phdr_loop ::
    "'a vmm_state_scheme \<Rightarrow> program_image \<Rightarrow> u64 \<Rightarrow> u64 \<Rightarrow> u64 \<Rightarrow> u64 \<Rightarrow>
       (program_image \<times> 'a vmm_state_scheme) option" where
  "phdr_loop s pimg phdr limit entsize orig =
     (if phdr < limit then do {
        (pimg, s) \<leftarrow> load_phdr s pimg phdr orig;
        phdr_loop s pimg (phdr + entsize) limit entsize orig
      } else Some (pimg, s))"

definition elf_load ::
    "'a initrd_state_scheme \<Rightarrow> u64 \<Rightarrow> u64 \<Rightarrow> program_image \<Rightarrow>
       (u64 \<times> program_image \<times> 'a initrd_state_scheme) option" where
  "elf_load s initrd_lit path pimg = do {
     (orig, s) \<leftarrow> initrd_open s initrd_lit path;
     if orig = 0 then Some (0, pimg, s)
     else do {
       let header = read_ehdr (mem s) orig;
       if \<not> is_valid header \<or> \<not> is_supported header then Some (0, pimg, s)
       else do {
         (prog_headers, s) \<leftarrow> kmalloc s (phdrs_size header);
         let src = orig + e_phoff header;
         let pimg = pimg\<lparr>phdrs := prog_headers, elf_ptr := src\<rparr>;
         let s = s\<lparr>mem := kmemcpy_loop (mem s) prog_headers src (phdrs_size header) 0\<rparr>;
         let pimg = pimg\<lparr>prog_start := e_entry header\<rparr>;
         let pimg = pimg\<lparr>prog_end := prog_start pimg\<rparr>;
         (pimg, s) \<leftarrow> phdr_loop s pimg prog_headers (prog_headers + phdrs_size header)
                        (ucast (e_phentsize header)) orig;
         Some (e_entry header, pimg, s)
       }
     }
   }"

section \<open>Filling a segment\<close>

lemma copy_segment_spec:
  fixes s :: "'a vmm_state_scheme"
  assumes "space_ok s (cr3 s)"
    "\<forall>j<unat n. pte (mem s) (cr3 s) (seg + of_nat j) AND PTE_PRESENT \<noteq> 0 \<and>
       (\<exists>k\<in>F. data_frame s (cr3 s) k \<and>
          in_range (PAGE_SIZE * of_nat k) PAGE_SIZE (virt_to_phys (mem s) (cr3 s) (seg + of_nat j)))"
    "inj_on (\<lambda>j. virt_to_phys (mem s) (cr3 s) (seg + of_nat j)) {..<unat n}"
    "p_filesz (read_phdr (mem s) phdr) = n"
    "\<forall>x. in_range phdr 56 x \<longrightarrow> 4503599627370496 \<le> unat x"
    "\<forall>j<unat n. 4503599627370496 \<le> unat (src + of_nat j)"
    "unat i + c = unat n"
  shows "\<exists>m. copy_segment s phdr seg src i = Some (s\<lparr>mem := m\<rparr>) \<and> space_ok (s\<lparr>mem := m\<rparr>) (cr3 s) \<and>
    (\<forall>v. pte m (cr3 s) v = pte (mem s) (cr3 s) v) \<and>
    (\<forall>k. data_frame (s\<lparr>mem := m\<rparr>) (cr3 s) k \<longleftrightarrow> data_frame s (cr3 s) k) \<and>
    (\<forall>k. frame_free (s\<lparr>mem := m\<rparr>) k \<longleftrightarrow> frame_free s k) \<and>
    (\<forall>x. (\<forall>k\<in>F. data_frame s (cr3 s) k \<longrightarrow> \<not> in_range (PAGE_SIZE * of_nat k) PAGE_SIZE x) \<longrightarrow> m x = mem s x) \<and>
    (\<forall>j<unat n. m (virt_to_phys (mem s) (cr3 s) (seg + of_nat j)) =
       (if unat i \<le> j then mem s (src + of_nat j) else mem s (virt_to_phys (mem s) (cr3 s) (seg + of_nat j))))"
  using assms
proof (induction c arbitrary: s i)
  case 0
  then have "copy_segment s phdr seg src i = Some (s\<lparr>mem := mem s\<rparr>)"
    by (subst copy_segment.simps) (simp add: word_less_nat_alt)
  then show ?case using 0 by (intro exI [of _ "mem s"]) simp
next
  case (Suc c)
  let ?P = "\<lambda>j. virt_to_phys (mem s) (cr3 s) (seg + of_nat j)"
  have lt: "unat i < unat n" using Suc.prems by simp
  then obtain k where k: "k \<in> F" "data_frame s (cr3 s) k" "in_range (PAGE_SIZE * of_nat k) PAGE_SIZE (?P (unat i))"
    and pr: "pte (mem s) (cr3 s) (seg + i) AND PTE_PRESENT \<noteq> 0"
    using Suc.prems(2) by (metis of_nat_unat ucast_id)
  define s' where "s' = s\<lparr>mem := (mem s)(?P (unat i) := mem s (src + i))\<rparr>"
  note dw = data_write [OF Suc.prems(1) k(2,3), of "mem s (src + i)", folded s'_def]
  have low: "unat (?P (unat i)) < 4503599627370496"
    using k(2) by (intro page_below_high [OF _ _ k(3)]) (auto simp: data_frame_def unat_frame)
  have same: "mem s' x = mem s x" if "4503599627370496 \<le> unat x" for x
    using that low by (auto simp: s'_def)
  have cr: "cr3 s' = cr3 s" "s'\<lparr>mem := m\<rparr> = s\<lparr>mem := m\<rparr>" for m by (simp_all add: s'_def)
  have vp: "virt_to_phys (mem s') (cr3 s) v = virt_to_phys (mem s) (cr3 s) v" for v
    by (simp add: virt_to_phys_def dw(2))
  have "ld64 (mem s') (phdr + 32) = ld64 (mem s) (phdr + 32)"
    by (rule cell64.rd_cong) (use same Suc.prems(5) in_range_field [of phdr 32 8 _ 56] in auto)
  then have fs: "p_filesz (read_phdr (mem s') phdr) = n"
    using Suc.prems(4) by (simp add: read_phdr_def)
  have i1: "unat (i + 1) = Suc (unat i)" using lt by (metis add.commute unatSuc unat_Suc_less word_less_nat_alt)
  have step: "copy_segment s phdr seg src i = copy_segment s' phdr seg src (i + 1)"
    using Suc.prems(4) lt pr by (subst copy_segment.simps) (simp add: word_less_nat_alt store_virt_def s'_def)
  have "\<exists>m. copy_segment s' phdr seg src (i + 1) = Some (s'\<lparr>mem := m\<rparr>) \<and> space_ok (s'\<lparr>mem := m\<rparr>) (cr3 s') \<and>
    (\<forall>v. pte m (cr3 s') v = pte (mem s') (cr3 s') v) \<and>
    (\<forall>k. data_frame (s'\<lparr>mem := m\<rparr>) (cr3 s') k \<longleftrightarrow> data_frame s' (cr3 s') k) \<and>
    (\<forall>k. frame_free (s'\<lparr>mem := m\<rparr>) k \<longleftrightarrow> frame_free s' k) \<and>
    (\<forall>x. (\<forall>k\<in>F. data_frame s' (cr3 s') k \<longrightarrow> \<not> in_range (PAGE_SIZE * of_nat k) PAGE_SIZE x) \<longrightarrow> m x = mem s' x) \<and>
    (\<forall>j<unat n. m (virt_to_phys (mem s') (cr3 s') (seg + of_nat j)) =
       (if unat (i + 1) \<le> j then mem s' (src + of_nat j) else mem s' (virt_to_phys (mem s') (cr3 s') (seg + of_nat j))))"
    by (rule Suc.IH) (use dw(1) Suc.prems fs i1 in \<open>simp_all add: cr vp dw(2,3)\<close>)
  then obtain m where m: "copy_segment s' phdr seg src (i + 1) = Some (s\<lparr>mem := m\<rparr>)" "space_ok (s\<lparr>mem := m\<rparr>) (cr3 s)"
    "\<forall>v. pte m (cr3 s) v = pte (mem s) (cr3 s) v"
    "\<forall>k. data_frame (s\<lparr>mem := m\<rparr>) (cr3 s) k \<longleftrightarrow> data_frame s (cr3 s) k"
    "\<forall>k. frame_free (s\<lparr>mem := m\<rparr>) k \<longleftrightarrow> frame_free s k"
    "\<forall>x. (\<forall>k\<in>F. data_frame s (cr3 s) k \<longrightarrow> \<not> in_range (PAGE_SIZE * of_nat k) PAGE_SIZE x) \<longrightarrow> m x = mem s' x"
    "\<forall>j<unat n. m (?P j) = (if Suc (unat i) \<le> j then mem s' (src + of_nat j) else mem s' (?P j))"
    unfolding cr vp dw(2-4) i1 by blast
  have "m x = mem s x" if "\<forall>k\<in>F. data_frame s (cr3 s) k \<longrightarrow> \<not> in_range (PAGE_SIZE * of_nat k) PAGE_SIZE x" for x
    using that m(6) k by (auto simp: s'_def)
  moreover have "m (?P j) = (if unat i \<le> j then mem s (src + of_nat j) else mem s (?P j))" if j: "j < unat n" for j
  proof -
    have "?P j = ?P (unat i) \<longleftrightarrow> j = unat i" using Suc.prems(3) j lt by (auto simp: inj_on_def)
    moreover have "mem s' (src + of_nat j) = mem s (src + of_nat j)" using same Suc.prems(6) j by blast
    moreover have "mem s' (?P (unat i)) = mem s (src + i)" by (simp add: s'_def)
    ultimately show ?thesis using m(7) j by (auto simp: s'_def)
  qed
  ultimately show ?case using m step by (intro exI [of _ m]) simp
qed

lemma page_offset_add:
  assumes "page_of v + (unat v mod 4096 + j) div 4096 < 68719476736"
  shows "page_of (v + of_nat j) = page_of v + (unat v mod 4096 + j) div 4096"
    "unat ((v + of_nat j) AND 0xFFF) = (unat v mod 4096 + j) mod 4096"
proof -
  have "(unat v mod 4096 + j) div 4096 < 68719476736" using assms by simp
  then have "unat v mod 4096 + j < 68719476736 * 4096" by (simp add: div_less_iff_less_mult)
  then have j: "j < 68719476736 * 4096" by simp
  define a where "a = unat v + j"
  have u: "unat (v + of_nat j) = a mod 18446744073709551616"
    using j by (simp add: unat_word_ariths unat_of_nat a_def)
  have "(v + of_nat j) AND 0xFFF = take_bit 12 (v + of_nat j)"
    by (simp add: take_bit_eq_mask mask_eq_decr_exp)
  then have "unat ((v + of_nat j) AND 0xFFF) = unat (v + of_nat j) mod 4096"
    by (simp add: unsigned_take_bit_eq take_bit_eq_mod unat_mod)
  also have "\<dots> = a mod 4096"
    unfolding u by (rule mod_mod_cancel) (simp add: dvd_def)
  finally show "unat ((v + of_nat j) AND 0xFFF) = (unat v mod 4096 + j) mod 4096"
    by (simp add: a_def mod_add_left_eq)
  have "a mod 18446744073709551616 div 4096 = a div 4096 mod 4503599627370496"
    using mod_mult2_eq [of a 4096 4503599627370496] by simp
  moreover have "x mod 4503599627370496 mod 68719476736 = x mod 68719476736" for x :: nat
    by (rule mod_mod_cancel) (simp add: dvd_def)
  ultimately have "page_of (v + of_nat j) = a div 4096 mod 68719476736"
    by (simp add: page_of_def u)
  also have "a div 4096 = unat v div 4096 + (unat v mod 4096 + j) div 4096"
  proof -
    have "a = unat v div 4096 * 4096 + (unat v mod 4096 + j)" unfolding a_def by simp
    then show ?thesis by (metis div_mult_self3 zero_neq_numeral)
  qed
  also have "\<dots> mod 68719476736 = (page_of v + (unat v mod 4096 + j) div 4096) mod 68719476736"
    by (simp add: page_of_def mod_add_left_eq)
  finally show "page_of (v + of_nat j) = page_of v + (unat v mod 4096 + j) div 4096" using assms by simp
qed

lemma mapped_entry:
  assumes "n < 1099511627776" "prot = get_flags_from_prot (PROT_READ OR PROT_WRITE OR PROT_USER OR PROT_EXEC)"
  shows "PTE_GET_ADDR (PAGE_SIZE * of_nat n OR prot) = PAGE_SIZE * of_nat n"
    "(PAGE_SIZE * of_nat n OR prot) AND PTE_PRESENT \<noteq> 0"
proof -
  have p: "prot = mask 3" by (simp add: assms(2) get_flags_from_prot_def mask_eq_decr_exp)
  show "PTE_GET_ADDR (PAGE_SIZE * of_nat n OR prot) = PAGE_SIZE * of_nat n"
    unfolding PTE_GET_ADDR_def page_shape [OF assms(1)] addr_mask_shape p
    by (rule bit_word_eqI; auto simp: bit_simps)
  have "bit ((PAGE_SIZE * of_nat n OR prot) AND PTE_PRESENT) 0"
    by (simp add: p bit_simps)
  then show "(PAGE_SIZE * of_nat n OR prot) AND PTE_PRESENT \<noteq> 0" by (metis bit_0_eq bot_fun_def bot_bool_def)
qed

text \<open>A virtual address whose page is backed by a data frame, and the byte read there.\<close>

definition resident :: "'a vmm_state_scheme \<Rightarrow> u64 \<Rightarrow> bool" where
  "resident s v \<longleftrightarrow> pte (mem s) (cr3 s) v AND PTE_PRESENT \<noteq> 0 \<and>
     (\<exists>k. data_frame s (cr3 s) k \<and> PTE_GET_ADDR (pte (mem s) (cr3 s) v) = PAGE_SIZE * of_nat k)"

definition read_virt :: "'a vmm_state_scheme \<Rightarrow> u64 \<Rightarrow> u8" where
  "read_virt s v = mem s (virt_to_phys (mem s) (cr3 s) v)"

lemma page_offset_in_range: "in_range p PAGE_SIZE (p + (v AND 0xFFF))"
proof -
  have "v AND 0xFFF \<le> (0xFFF :: u64)" by (rule word_and_le1)
  then show ?thesis by (simp add: in_range_def word_less_nat_alt word_le_nat_alt)
qed

lemma resident_in_frame:
  assumes "PTE_GET_ADDR (pte m t v) = PAGE_SIZE * of_nat k"
  shows "in_range (PAGE_SIZE * of_nat k) PAGE_SIZE (virt_to_phys m t v)"
  using page_offset_in_range by (simp add: virt_to_phys_def assms)

text \<open>What loading a segment at page \<open>lo\<close> and above keeps.\<close>

definition load_step :: "nat \<Rightarrow> nat \<Rightarrow> 'a vmm_state_scheme \<Rightarrow> 'a vmm_state_scheme \<Rightarrow> bool" where
  "load_step lo n s s' \<longleftrightarrow> space_ok s' (cr3 s) \<and> cr3 s' = cr3 s \<and> vmm_state.more s' = vmm_state.more s \<and>
     high_kept s s' \<and> card {k. frame_free s k} \<le> card {k. frame_free s' k} + 4 * n \<and>
     (\<forall>v. page_of v < lo \<longrightarrow> resident s v \<longrightarrow> resident s' v \<and> read_virt s' v = read_virt s v)"

definition segment_fits :: "Elf64_Phdr \<Rightarrow> bool" where
  "segment_fits h \<longleftrightarrow> p_filesz h \<le> p_memsz h \<and> unat (p_memsz h) + 4095 < 524288 \<and>
     page_of (p_paddr h) + unat (p_memsz h) + 4095 < 68719476736"

lemma segment_page_count:
  assumes "unat (memsz :: u64) + 4095 < 524288"
  defines "n \<equiv> ucast (memsz + 0x1000 - 1) :: u32"
  shows "unat (scast n :: u64) = unat memsz + 4095" "unat (scast (n * 0x1000) :: u64) = 4096 * (unat memsz + 4095)"
proof -
  have "unat (memsz + 0x1000 - 1) = unat memsz + 4095"
    using assms(1) by (simp add: unat_word_ariths)
  then have n: "unat n = unat memsz + 4095"
    using assms(1) by (simp add: n_def unsigned_ucast_eq take_bit_eq_mod)
  have sc: "unat (scast w :: u64) = unat w" if "unat w < 2147483648" for w :: u32
  proof -
    have "(scast w :: u64) = word_of_int (int (unat w))"
      using that sint_cases [of w] by (simp add: scast_eq)
    then have "(scast w :: u64) = of_nat (unat w)" by simp
    then show ?thesis using that by (simp add: unat_of_nat del: of_nat_unat)
  qed
  show "unat (scast n :: u64) = unat memsz + 4095" using sc n assms(1) by simp
  have "unat (n * 0x1000) = 4096 * (unat memsz + 4095)" using n assms(1) by (simp add: unat_word_ariths)
  then show "unat (scast (n * 0x1000) :: u64) = 4096 * (unat memsz + 4095)" using sc assms(1) by simp
qed

lemma segment_window:
  fixes s1 :: "'a pmm_state_scheme"
  assumes R: "region_mapped pml4 seg prot fs s s1" and prot: "prot = get_flags_from_prot (PROT_READ OR PROT_WRITE OR PROT_USER OR PROT_EXEC)"
    and N: "length fs = N" "page_of seg + N < 68719476736" "unat n + 4095 \<le> N"
  shows "\<forall>j<unat n. \<exists>k\<in>set fs. data_frame s1 pml4 k \<and>
      PTE_GET_ADDR (pte (mem s1) pml4 (seg + of_nat j)) = PAGE_SIZE * of_nat k \<and>
      pte (mem s1) pml4 (seg + of_nat j) AND PTE_PRESENT \<noteq> 0"
    "inj_on (\<lambda>j. virt_to_phys (mem s1) pml4 (seg + of_nat j)) {..<unat n}"
proof -
  note R = R [unfolded region_mapped_def]
  define a where "a j = (unat seg mod 4096 + j) div 4096" for j
  have aN: "a j < N" if "j < unat n" for j
  proof -
    have pos: "unat seg mod 4096 < 4096" by simp
    have "unat seg mod 4096 + j < 4096 * N" using that N(3) pos by linarith
    then show ?thesis unfolding a_def by (simp add: less_mult_imp_div_less mult.commute)
  qed
  have page: "page_of (seg + of_nat j) = page_of seg + a j"
    "unat ((seg + of_nat j) AND 0xFFF) = (unat seg mod 4096 + j) mod 4096" if "j < unat n" for j
    using page_offset_add [of seg j] aN [OF that] N(2) by (simp_all add: a_def)
  have frames: "data_frame s1 pml4 (fs ! a j)" "fs ! a j \<in> set fs" "fs ! a j < 1099511627776" if "j < unat n" for j
    using R aN [OF that] N(1) by (auto simp: data_frame_def)
  have entry: "pte (mem s1) pml4 (seg + of_nat j) = PAGE_SIZE * of_nat (fs ! a j) OR prot" if "j < unat n" for j
    using R aN [OF that] N(1) page(1) [OF that] by simp
  note me = mapped_entry [OF frames(3) prot]
  have addr: "PTE_GET_ADDR (pte (mem s1) pml4 (seg + of_nat j)) = PAGE_SIZE * of_nat (fs ! a j)"
    "pte (mem s1) pml4 (seg + of_nat j) AND PTE_PRESENT \<noteq> 0" if "j < unat n" for j
    using me [OF that] entry [OF that] by simp_all
  show "\<forall>j<unat n. \<exists>k\<in>set fs. data_frame s1 pml4 k \<and>
      PTE_GET_ADDR (pte (mem s1) pml4 (seg + of_nat j)) = PAGE_SIZE * of_nat k \<and>
      pte (mem s1) pml4 (seg + of_nat j) AND PTE_PRESENT \<noteq> 0"
    using addr frames by blast
  let ?P = "\<lambda>j. virt_to_phys (mem s1) pml4 (seg + of_nat j)"
  have P: "unat (?P j) = 4096 * (fs ! a j) + (unat seg mod 4096 + j) mod 4096" if "j < unat n" for j
    using page(2) [OF that] unat_frame [OF frames(3) [OF that]] frames(3) [OF that]
    by (simp add: virt_to_phys_def addr(1) [OF that] unat_word_ariths)
  show "inj_on ?P {..<unat n}"
  proof (rule inj_onI)
    fix i j assume ij: "i \<in> {..<unat n}" "j \<in> {..<unat n}" "?P i = ?P j"
    then have e: "4096 * (fs ! a i) + (unat seg mod 4096 + i) mod 4096 =
        4096 * (fs ! a j) + (unat seg mod 4096 + j) mod 4096"
      using P [of i] P [of j] by simp
    have "(4096 * x + r) div 4096 = x" "(4096 * x + r) mod 4096 = r" if "r < 4096" for x r :: nat
      using that by simp_all
    then have "fs ! a i = fs ! a j" "(unat seg mod 4096 + i) mod 4096 = (unat seg mod 4096 + j) mod 4096"
      using e by (metis mod_less_divisor zero_less_numeral)+
    moreover from this(1) have "a i = a j"
      using R aN ij N(1) by (simp add: nth_eq_iff_index_eq)
    ultimately show "i = j" unfolding a_def by (metis div_mult_mod_eq add_left_cancel)
  qed
qed

lemma load_segment_spec:
  fixes s :: "'a vmm_state_scheme" and phdr orig :: u64
  defines "h \<equiv> read_phdr (mem s) phdr"
  assumes ok: "space_ok s (cr3 s)" and load: "p_type h = PT_LOAD" and fit: "segment_fits h"
    and room: "4 * (unat (p_memsz h) + 4095) \<le> card {k. frame_free s k}"
    and hdr: "\<forall>x. in_range phdr 56 x \<longrightarrow> 4503599627370496 \<le> unat x \<and> \<not> in_bitmap s x"
    and src: "\<forall>j<unat (p_filesz h). 4503599627370496 \<le> unat (orig + p_offset h + of_nat j) \<and>
      \<not> in_bitmap s (orig + p_offset h + of_nat j)"
  shows "\<exists>s'. load_phdr s pimg phdr orig =
      Some (pimg\<lparr>prog_end := prog_end pimg + 4096 * (p_memsz h + 4095)\<rparr>, s') \<and>
    load_step (page_of (p_paddr h)) (unat (p_memsz h) + 4095) s s' \<and>
    (\<forall>j<unat (p_filesz h). resident s' (p_paddr h + of_nat j) \<and>
       read_virt s' (p_paddr h + of_nat j) = mem s (orig + p_offset h + of_nat j))"
proof -
  define np where "np = (ucast (p_memsz h + 0x1000 - 1) :: u32)"
  define N where "N = unat (p_memsz h) + 4095"
  define seg where "seg = p_paddr h"
  define n where "n = p_filesz h"
  define prot where "prot = get_flags_from_prot (PROT_READ OR PROT_WRITE OR PROT_USER OR PROT_EXEC)"
  have N: "N < 524288" "page_of seg + N < 68719476736" "unat n \<le> unat (p_memsz h)"
    using fit by (auto simp: segment_fits_def N_def seg_def n_def word_le_nat_alt)
  have count: "unat (scast np :: u64) = N" "scast (np * 0x1000) = 4096 * (p_memsz h + 4095)"
  proof -
    have "unat (4096 * (p_memsz h + 4095)) = 4096 * N"
      using N(1) by (simp add: unat_word_ariths N_def)
    then show "unat (scast np :: u64) = N" "scast (np * 0x1000) = 4096 * (p_memsz h + 4095)"
      using segment_page_count [of "p_memsz h"] N(1) by (simp_all add: np_def N_def word_unat_eq_iff)
  qed
  obtain fs s1 where s1: "mmap_loop s (cr3 s) seg (scast np) prot 0 = Some (0, s1)" "length fs = N"
    "region_mapped (cr3 s) seg prot fs s s1"
    using mmap_loop_spec [OF ok, of "scast np" 0 N seg prot] count(1) N(1,2) room by (auto simp: N_def)
  have hk: "high_kept s s1"
    by (rule mmap_loop_high [OF ok _ _ _ _ s1(1), of N]) (use count N room in \<open>simp_all add: N_def\<close>)
  note f1 = mmap_loop_fields [OF s1(1)] and R = s1(3) [unfolded region_mapped_def]
  have pages: "unat n + 4095 \<le> N" using N(3) by (simp add: N_def)
  note win = segment_window [OF s1(3) prot_def s1(2) N(2) pages]
  let ?P = "\<lambda>j. virt_to_phys (mem s1) (cr3 s) (seg + of_nat j)"
  have keep: "mem s1 x = mem s x" if "4503599627370496 \<le> unat x" "\<not> in_bitmap s x" for x
    using hk that by (simp add: high_kept_def)
  have "ld64 (mem s1) (phdr + 32) = ld64 (mem s) (phdr + 32)"
    by (rule cell64.rd_cong) (use keep hdr in_range_field [of phdr 32 8 _ 56] in auto)
  then have fsz: "p_filesz (read_phdr (mem s1) phdr) = n" by (simp add: n_def h_def read_phdr_def)
  let ?src = "orig + p_offset h"
  obtain m where m: "copy_segment s1 phdr seg ?src 0 = Some (s1\<lparr>mem := m\<rparr>)" "space_ok (s1\<lparr>mem := m\<rparr>) (cr3 s)"
    "\<forall>v. pte m (cr3 s) v = pte (mem s1) (cr3 s) v"
    "\<forall>k. data_frame (s1\<lparr>mem := m\<rparr>) (cr3 s) k \<longleftrightarrow> data_frame s1 (cr3 s) k"
    "\<forall>k. frame_free (s1\<lparr>mem := m\<rparr>) k \<longleftrightarrow> frame_free s1 k"
    "\<forall>x. (\<forall>k\<in>set fs. data_frame s1 (cr3 s) k \<longrightarrow> \<not> in_range (PAGE_SIZE * of_nat k) PAGE_SIZE x) \<longrightarrow> m x = mem s1 x"
    "\<forall>j<unat n. m (?P j) = mem s1 (?src + of_nat j)"
  proof -
    have "\<exists>m. copy_segment s1 phdr seg ?src 0 = Some (s1\<lparr>mem := m\<rparr>) \<and> space_ok (s1\<lparr>mem := m\<rparr>) (cr3 s1) \<and>
      (\<forall>v. pte m (cr3 s1) v = pte (mem s1) (cr3 s1) v) \<and>
      (\<forall>k. data_frame (s1\<lparr>mem := m\<rparr>) (cr3 s1) k \<longleftrightarrow> data_frame s1 (cr3 s1) k) \<and>
      (\<forall>k. frame_free (s1\<lparr>mem := m\<rparr>) k \<longleftrightarrow> frame_free s1 k) \<and>
      (\<forall>x. (\<forall>k\<in>set fs. data_frame s1 (cr3 s1) k \<longrightarrow> \<not> in_range (PAGE_SIZE * of_nat k) PAGE_SIZE x) \<longrightarrow> m x = mem s1 x) \<and>
      (\<forall>j<unat n. m (virt_to_phys (mem s1) (cr3 s1) (seg + of_nat j)) =
         (if unat (0 :: u64) \<le> j then mem s1 (?src + of_nat j) else mem s1 (virt_to_phys (mem s1) (cr3 s1) (seg + of_nat j))))"
    proof (rule copy_segment_spec)
      show "\<forall>j<unat n. pte (mem s1) (cr3 s1) (seg + of_nat j) AND PTE_PRESENT \<noteq> 0 \<and>
        (\<exists>k\<in>set fs. data_frame s1 (cr3 s1) k \<and>
           in_range (PAGE_SIZE * of_nat k) PAGE_SIZE (virt_to_phys (mem s1) (cr3 s1) (seg + of_nat j)))"
        using win(1) resident_in_frame f1 by metis
    qed (use R f1 win(2) fsz hdr src in \<open>simp_all add: n_def\<close>)
    then show ?thesis using that f1 by simp blast
  qed
  define s' where "s' = s1\<lparr>mem := m\<rparr>"
  have ret: "load_phdr s pimg phdr orig = Some (pimg\<lparr>prog_end := prog_end pimg + 4096 * (p_memsz h + 4095)\<rparr>, s')"
    using load s1(1) m(1) count(2)
    by (simp add: load_phdr_def mmap_def get_pml4_def Let_def s'_def seg_def prot_def np_def flip: h_def)
  have low: "unat x < 4503599627370496" if "data_frame s1 (cr3 s) k" "in_range (PAGE_SIZE * of_nat k) PAGE_SIZE x" for k x
    using that(1) by (intro page_below_high [OF _ _ that(2)]) (auto simp: data_frame_def unat_frame)
  have "m x = mem s1 x" if "4503599627370496 \<le> unat x" for x
    using that m(6) low by (meson not_less)
  then have "high_kept s s'" using hk by (simp add: high_kept_def s'_def)
  moreover have "resident s' v \<and> read_virt s' v = read_virt s v" if v: "page_of v < page_of seg" "resident s v" for v
  proof -
    obtain k where k: "data_frame s (cr3 s) k" "PTE_GET_ADDR (pte (mem s) (cr3 s) v) = PAGE_SIZE * of_nat k"
      using v(2) by (auto simp: resident_def)
    have p1: "pte (mem s1) (cr3 s) v = pte (mem s) (cr3 s) v" using R v(1) by simp
    have d1: "data_frame s1 (cr3 s) k" using R k(1) by blast
    let ?x = "virt_to_phys (mem s) (cr3 s) v"
    note x = resident_in_frame [OF k(2)]
    have "\<not> in_range (PAGE_SIZE * of_nat f) PAGE_SIZE ?x" if "f \<in> set fs" for f
    proof -
      have "f \<noteq> k" using R k(1) that by (auto simp: data_frame_def)
      then show ?thesis using pages_apart [OF _ _ _ x, of f] R that k(1) by (auto simp: data_frame_def)
    qed
    then have "m ?x = mem s1 ?x" using m(6) by blast
    moreover have "mem s1 ?x = mem s ?x" using R k(1) x by blast
    ultimately show ?thesis
      using v(2) d1 k(2) m(3,4) p1 f1 by (auto simp: resident_def read_virt_def s'_def virt_to_phys_def)
  qed
  moreover have "resident s' (seg + of_nat j) \<and> read_virt s' (seg + of_nat j) = mem s (?src + of_nat j)"
    if j: "j < unat n" for j
  proof -
    have "m (?P j) = mem s (?src + of_nat j)" using m(7) j keep src n_def by simp
    then show ?thesis
      using win(1) j m(3,4) f1 by (auto simp: resident_def read_virt_def s'_def virt_to_phys_def)
  qed
  moreover have "card {k. frame_free s k} \<le> card {k. frame_free s' k} + 4 * N"
    using R m(5) s1(2) by (simp add: s'_def)
  ultimately show ?thesis
    using ret m(2) f1 by (intro exI [of _ s']) (auto simp: load_step_def s'_def seg_def n_def N_def)
qed

section \<open>The program headers\<close>

fun phdr_table :: "memory \<Rightarrow> u64 \<Rightarrow> Elf64_Phdr list \<Rightarrow> bool" where
  "phdr_table m p [] \<longleftrightarrow> True"
| "phdr_table m p (h # hs) \<longleftrightarrow> read_phdr m p = h \<and> phdr_table m (p + 56) hs"

definition loadable :: "Elf64_Phdr list \<Rightarrow> Elf64_Phdr list" where
  "loadable hs = filter (\<lambda>h. p_type h = PT_LOAD) hs"

text \<open>The number of pages the loader maps: the size in bytes plus 4095, not divided by the page size.\<close>

definition pages_mapped :: "Elf64_Phdr list \<Rightarrow> nat" where
  "pages_mapped hs = sum_list (map (\<lambda>h. unat (p_memsz h) + 4095) (loadable hs))"

text \<open>Segments in ascending order: the data of each lies on pages below the later ones.\<close>

definition ascending :: "Elf64_Phdr list \<Rightarrow> bool" where
  "ascending hs \<longleftrightarrow> sorted_wrt (\<lambda>g h. \<forall>j<unat (p_filesz g). page_of (p_paddr g + of_nat j) < page_of (p_paddr h)) (loadable hs)"

text \<open>An address that mapping never writes.\<close>

definition untouched :: "'a pmm_state_scheme \<Rightarrow> u64 \<Rightarrow> bool" where
  "untouched s x \<longleftrightarrow> 4503599627370496 \<le> unat x \<and> \<not> in_bitmap s x"

definition segment_loaded :: "'a vmm_state_scheme \<Rightarrow> memory \<Rightarrow> u64 \<Rightarrow> Elf64_Phdr \<Rightarrow> bool" where
  "segment_loaded s m orig h \<longleftrightarrow> (\<forall>j<unat (p_filesz h). resident s (p_paddr h + of_nat j) \<and>
     read_virt s (p_paddr h + of_nat j) = m (orig + p_offset h + of_nat j))"

lemma phdr_cong:
  assumes "\<And>x. in_range p 56 x \<Longrightarrow> m' x = m x"
  shows "read_phdr m' p = read_phdr m p"
proof -
  have c: "m' x = m x" if "in_range (p + d) k x" "unat d + unat k \<le> 56" for d k x
    using that in_range_field [of p d k _ 56] assms by auto
  have "ld32 m' (p + d) = ld32 m (p + d)" if "unat d \<le> 52" for d
    by (rule cell32.rd_cong, erule c) (use that in simp)
  moreover have "ld64 m' (p + d) = ld64 m (p + d)" if "unat d \<le> 48" for d
    by (rule cell64.rd_cong, erule c) (use that in simp)
  moreover from calculation(1) [of 0] have "ld32 m' p = ld32 m p" by simp
  ultimately show ?thesis by (simp add: read_phdr_def)
qed

lemma phdr_table_cong:
  assumes "unat p + 56 * length hs \<le> 18446744073709551616"
    "\<And>x. unat p \<le> unat x \<Longrightarrow> unat x < unat p + 56 * length hs \<Longrightarrow> m' x = m x"
  shows "phdr_table m' p hs \<longleftrightarrow> phdr_table m p hs"
  using assms
proof (induction hs arbitrary: p)
  case (Cons h hs)
  have "read_phdr m' p = read_phdr m p"
    by (rule phdr_cong) (use Cons.prems in_range_linear [of p 56] in auto)
  moreover have "phdr_table m' (p + 56) hs \<longleftrightarrow> phdr_table m (p + 56) hs"
  proof (cases "hs = []")
    case False
    then have "unat p + 112 \<le> 18446744073709551616" using Cons.prems(1) by (cases hs) simp_all
    then have "unat (p + 56) = unat p + 56" by (simp add: unat_word_ariths)
    then show ?thesis by (intro Cons.IH) (use Cons.prems in auto)
  qed simp
  ultimately show ?case by simp
qed simp

lemma load_phdr_other:
  "p_type (read_phdr (mem s) phdr) \<noteq> PT_LOAD \<Longrightarrow> load_phdr s pimg phdr orig = Some (pimg, s)"
  by (simp add: load_phdr_def)

lemma load_step_refl: "space_ok s (cr3 s) \<Longrightarrow> load_step lo 0 s s"
  by (simp add: load_step_def)

lemma untouched_step: "high_kept s s' \<Longrightarrow> untouched s' x \<longleftrightarrow> untouched s x"
  by (auto simp: untouched_def high_kept_def in_bitmap_def)

lemma untouched_same: "high_kept s s' \<Longrightarrow> untouched s x \<Longrightarrow> mem s' x = mem s x"
  by (simp add: untouched_def high_kept_def)

lemma load_phdr_spec:
  fixes s :: "'a vmm_state_scheme"
  assumes ok: "space_ok s (cr3 s)" and h: "read_phdr (mem s) phdr = h"
    and fit: "p_type h = PT_LOAD \<Longrightarrow> segment_fits h"
    and room: "4 * pages_mapped [h] \<le> card {k. frame_free s k}"
    and hdr: "\<And>x. in_range phdr 56 x \<Longrightarrow> untouched s x"
    and src: "\<And>j. p_type h = PT_LOAD \<Longrightarrow> j < unat (p_filesz h) \<Longrightarrow> untouched s (orig + p_offset h + of_nat j)"
  obtains s' where
    "load_phdr s pimg phdr orig = Some (pimg\<lparr>prog_end := prog_end pimg + 4096 * of_nat (pages_mapped [h])\<rparr>, s')"
    "space_ok s' (cr3 s')" "cr3 s' = cr3 s" "vmm_state.more s' = vmm_state.more s" "high_kept s s'"
    "card {k. frame_free s k} \<le> card {k. frame_free s' k} + 4 * pages_mapped [h]"
    "\<And>v. (p_type h = PT_LOAD \<Longrightarrow> page_of v < page_of (p_paddr h)) \<Longrightarrow> resident s v \<Longrightarrow>
       resident s' v \<and> read_virt s' v = read_virt s v"
    "p_type h = PT_LOAD \<Longrightarrow> segment_loaded s' (mem s) orig h"
proof (cases "p_type h = PT_LOAD")
  case True
  have p: "pages_mapped [h] = unat (p_memsz h) + 4095" using True by (simp add: pages_mapped_def loadable_def)
  have "(4096 * (p_memsz h + 4095) :: u64) = 4096 * of_nat (pages_mapped [h])"
    by (simp add: p)
  with load_segment_spec [OF ok, of phdr orig pimg] True fit room hdr src that show ?thesis
    unfolding h p untouched_def load_step_def segment_loaded_def by metis
next
  case False
  then have "pages_mapped [h] = 0" by (simp add: pages_mapped_def loadable_def)
  with False that [of s] ok show ?thesis by (simp add: load_phdr_other h)
qed

lemma pages_mapped_Cons: "pages_mapped (h # hs) = pages_mapped [h] + pages_mapped hs"
  by (simp add: pages_mapped_def loadable_def)

lemma phdr_loop_spec:
  fixes s :: "'a vmm_state_scheme"
  assumes "space_ok s (cr3 s)" "phdr_table (mem s) phdr hs" "unat phdr + 56 * length hs < 18446744073709551616"
    "\<forall>x. unat phdr \<le> unat x \<and> unat x < unat phdr + 56 * length hs \<longrightarrow> untouched s x"
    "\<forall>h\<in>set (loadable hs). segment_fits h \<and> (\<forall>j<unat (p_filesz h). untouched s (orig + p_offset h + of_nat j))"
    "ascending hs" "4 * pages_mapped hs \<le> card {k. frame_free s k}"
  shows "\<exists>s'. phdr_loop s pimg phdr (phdr + 56 * of_nat (length hs)) 56 orig =
      Some (pimg\<lparr>prog_end := prog_end pimg + 4096 * of_nat (pages_mapped hs)\<rparr>, s') \<and>
    space_ok s' (cr3 s') \<and> cr3 s' = cr3 s \<and> vmm_state.more s' = vmm_state.more s \<and> high_kept s s' \<and>
    (\<forall>v. (\<forall>h\<in>set (loadable hs). page_of v < page_of (p_paddr h)) \<longrightarrow> resident s v \<longrightarrow>
       resident s' v \<and> read_virt s' v = read_virt s v) \<and>
    (\<forall>h\<in>set (loadable hs). segment_loaded s' (mem s) orig h)"
  using assms
proof (induction hs arbitrary: s pimg phdr)
  case Nil
  have "phdr_loop s pimg phdr phdr 56 orig = Some (pimg, s)" by (subst phdr_loop.simps) simp
  then show ?case using Nil by (intro exI [of _ s]) (simp add: pages_mapped_def loadable_def)
next
  case (Cons h hs)
  have len: "unat (phdr + 56) = unat phdr + 56" using Cons.prems(3) by (simp add: unat_word_ariths)
  have hdr: "in_range phdr 56 x \<Longrightarrow> untouched s x" for x
    using Cons.prems(3,4) in_range_linear [of phdr 56 x] by auto
  have room: "4 * pages_mapped [h] + 4 * pages_mapped hs \<le> card {k. frame_free s k}"
    using Cons.prems(7) pages_mapped_Cons [of h hs] by simp
  obtain s1 where s1:
    "load_phdr s pimg phdr orig = Some (pimg\<lparr>prog_end := prog_end pimg + 4096 * of_nat (pages_mapped [h])\<rparr>, s1)"
    "space_ok s1 (cr3 s1)" "cr3 s1 = cr3 s" "vmm_state.more s1 = vmm_state.more s" "high_kept s s1"
    "card {k. frame_free s k} \<le> card {k. frame_free s1 k} + 4 * pages_mapped [h]"
    "\<And>v. (p_type h = PT_LOAD \<Longrightarrow> page_of v < page_of (p_paddr h)) \<Longrightarrow> resident s v \<Longrightarrow>
       resident s1 v \<and> read_virt s1 v = read_virt s v"
    "p_type h = PT_LOAD \<Longrightarrow> segment_loaded s1 (mem s) orig h"
    by (rule load_phdr_spec [OF Cons.prems(1), of phdr h orig pimg])
      (use Cons.prems(2,5) room hdr in \<open>auto simp: loadable_def\<close>)
  let ?pimg = "pimg\<lparr>prog_end := prog_end pimg + 4096 * of_nat (pages_mapped [h])\<rparr>"
  have "\<exists>s'. phdr_loop s1 ?pimg (phdr + 56) ((phdr + 56) + 56 * of_nat (length hs)) 56 orig =
      Some (?pimg\<lparr>prog_end := prog_end ?pimg + 4096 * of_nat (pages_mapped hs)\<rparr>, s') \<and>
    space_ok s' (cr3 s') \<and> cr3 s' = cr3 s1 \<and> vmm_state.more s' = vmm_state.more s1 \<and> high_kept s1 s' \<and>
    (\<forall>v. (\<forall>h\<in>set (loadable hs). page_of v < page_of (p_paddr h)) \<longrightarrow> resident s1 v \<longrightarrow>
       resident s' v \<and> read_virt s' v = read_virt s1 v) \<and>
    (\<forall>h\<in>set (loadable hs). segment_loaded s' (mem s1) orig h)"
  proof (rule Cons.IH [OF s1(2)])
    show "phdr_table (mem s1) (phdr + 56) hs"
      using Cons.prems(2,3,4) len untouched_same [OF s1(5)] phdr_table_cong [of "phdr + 56" hs "mem s1" "mem s"]
      by auto
    show "ascending hs" using Cons.prems(6) by (simp add: ascending_def loadable_def split: if_splits)
  qed (use Cons.prems len untouched_step [OF s1(5)] s1(6) room in \<open>auto simp: loadable_def\<close>)
  then obtain s' where s': "phdr_loop s1 ?pimg (phdr + 56) (phdr + 56 * of_nat (length (h # hs))) 56 orig =
      Some (pimg\<lparr>prog_end := prog_end pimg + 4096 * of_nat (pages_mapped (h # hs))\<rparr>, s')"
    "space_ok s' (cr3 s')" "cr3 s' = cr3 s" "vmm_state.more s' = vmm_state.more s" "high_kept s s'"
    "\<And>v. (\<forall>h\<in>set (loadable hs). page_of v < page_of (p_paddr h)) \<Longrightarrow> resident s1 v \<Longrightarrow>
       resident s' v \<and> read_virt s' v = read_virt s1 v"
    "\<And>h. h \<in> set (loadable hs) \<Longrightarrow> segment_loaded s' (mem s1) orig h"
    unfolding pages_mapped_Cons [of h hs] s1(3,4)
    using high_kept_trans [OF s1(5)] by (auto simp: algebra_simps)
  have "phdr < phdr + 56 * of_nat (length (h # hs))"
    using Cons.prems(3) by (simp add: word_less_nat_alt unat_word_ariths unat_of_nat)
  then have ret: "phdr_loop s pimg phdr (phdr + 56 * of_nat (length (h # hs))) 56 orig =
      Some (pimg\<lparr>prog_end := prog_end pimg + 4096 * of_nat (pages_mapped (h # hs))\<rparr>, s')"
    using s1(1) s'(1) by (subst phdr_loop.simps) simp
  have seg: "segment_loaded s' (mem s) orig g" if g: "g \<in> set (loadable (h # hs))" for g
  proof (cases "g \<in> set (loadable hs)")
    case True
    then have "\<forall>j<unat (p_filesz g). untouched s (orig + p_offset g + of_nat j)"
      using Cons.prems(5) by (auto simp: loadable_def)
    then show ?thesis
      using s'(7) [OF True] untouched_same [OF s1(5)] by (simp add: segment_loaded_def)
  next
    case False
    then have gh: "g = h" "p_type h = PT_LOAD" using g by (auto simp: loadable_def split: if_splits)
    have "\<forall>g\<in>set (loadable hs). \<forall>j<unat (p_filesz h). page_of (p_paddr h + of_nat j) < page_of (p_paddr g)"
      using Cons.prems(6) gh(2) by (simp add: ascending_def loadable_def)
    then show ?thesis using s1(8) [OF gh(2)] s'(6) by (simp add: segment_loaded_def gh(1))
  qed
  have old: "resident s' v \<and> read_virt s' v = read_virt s v"
    if "\<forall>h\<in>set (loadable (h # hs)). page_of v < page_of (p_paddr h)" "resident s v" for v
    using s1(7) [of v] s'(6) [of v] that by (auto simp: loadable_def)
  show ?case using ret s'(2-5) seg old by (intro exI [of _ s']) simp
qed

section \<open>Loading a file\<close>

lemma untouched_write:
  fixes s s' :: "'a pmm_state_scheme"
  assumes ok: "space_ok s pml4" and f: "bitmap s' = bitmap s" "bitmap_size s' = bitmap_size s"
    and same: "\<And>x. \<not> untouched s x \<Longrightarrow> mem s' x = mem s x"
  shows "space_ok s' pml4" "pte (mem s') pml4 v = pte (mem s) pml4 v"
    "frame_free s' k \<longleftrightarrow> frame_free s k" "data_frame s' pml4 k \<longleftrightarrow> data_frame s pml4 k"
proof -
  note okD = space_okD [OF ok]
  have free: "frame_free s' k \<longleftrightarrow> frame_free s k" for k
    by (rule frame_free_cong) (use f same in \<open>auto simp: untouched_def\<close>)
  have ok': "pmm_ok s'" using okD(1) f free [of 0] by (simp add: pmm_ok_def)
  have tables: "mem s' x = mem s x" if q: "table_path q" "walk (mem s) pml4 q \<noteq> 0"
    "in_range (walk (mem s) pml4 q) PAGE_SIZE x" for q x
  proof -
    obtain k where k: "unat (walk (mem s) pml4 q) = 4096 * k" "k < 1099511627776"
      using okD(3) [OF q(1,2)] by (elim table_page)
    have "unat x < 4503599627370496" by (rule page_below_high [OF k q(3)])
    then show ?thesis by (intro same) (simp add: untouched_def)
  qed
  show "space_ok s' pml4" "pte (mem s') pml4 v = pte (mem s) pml4 v"
    by (rule space_ok_tables_same [OF ok ok']; use tables free in blast)+
  show "frame_free s' k \<longleftrightarrow> frame_free s k" by (rule free)
  have "walk (mem s') pml4 p = walk (mem s) pml4 p" if "table_path p" for p
    by (rule space_ok_tables_same(3) [OF ok ok']; use tables free that in blast)
  then show "data_frame s' pml4 k \<longleftrightarrow> data_frame s pml4 k" by (auto simp: data_frame_def free)
qed

lemma ldw_shift: "ldw n (\<lambda>x. m (x + d)) a = ldw n m (a + d)"
  by (induction n arbitrary: a) (simp_all add: ac_simps)

lemma read_phdr_shift: "read_phdr (\<lambda>x. m (x + d)) p = read_phdr m (p + d)"
  by (simp add: read_phdr_def ld32_def ld64_def ldw_shift ac_simps)

lemma phdr_table_shift: "phdr_table (\<lambda>x. m (x + d)) p hs \<longleftrightarrow> phdr_table m (p + d) hs"
  by (induction hs arbitrary: p) (simp_all add: read_phdr_shift ac_simps)

text \<open>An executable in the ramdisk at \<open>orig\<close> with program headers \<open>hs\<close> that lies apart from the
  heap and from everything that mapping writes.\<close>

definition loadable_image :: "'a pmm_state_scheme \<Rightarrow> u64 \<Rightarrow> u64 \<Rightarrow> Elf64_Phdr list \<Rightarrow> bool" where
  "loadable_image s base orig hs \<longleftrightarrow>
     (let h = read_ehdr (mem s) orig in
      is_valid h \<and> is_supported h \<and> e_phentsize h = 56 \<and> unat (e_phnum h) = length hs \<and> hs \<noteq> [] \<and>
      phdr_table (mem s) (orig + e_phoff h) hs \<and>
      unat (orig + e_phoff h) + 56 * length hs < 18446744073709551616 \<and>
      (\<forall>x. in_range (orig + e_phoff h) (56 * of_nat (length hs)) x \<longrightarrow> \<not> heap_area base x)) \<and>
     ascending hs \<and>
     (\<forall>g\<in>set (loadable hs). segment_fits g \<and>
        (\<forall>j<unat (p_filesz g). untouched s (orig + p_offset g + of_nat j) \<and>
           \<not> heap_area base (orig + p_offset g + of_nat j)))"

lemma phdrs_size_eq:
  assumes "e_phentsize h = 56" "unat (e_phnum h) = k"
  shows "phdrs_size h = 56 * of_nat k" "unat (phdrs_size h) = 56 * k" "k < 65536"
proof -
  show k: "k < 65536" using assms(2) unsigned_less [where ?'a = nat, of "e_phnum h"] by simp
  have e: "(ucast (e_phnum h) * ucast (e_phentsize h) :: u32) = 56 * of_nat k"
    using assms(2) by (auto simp: assms(1) mult.commute)
  have "unat (56 * of_nat k :: u32) = 56 * k" using k by (simp add: unat_word_ariths unat_of_nat)
  then have "sint (56 * of_nat k :: u32) = int (56 * k)" using k sint_cases [of "56 * of_nat k"] by simp
  then have "phdrs_size h = of_nat (56 * k)" unfolding phdrs_size_def e by (simp add: scast_eq)
  then show "phdrs_size h = 56 * of_nat k" by simp
  then show "unat (phdrs_size h) = 56 * k" using k by (simp add: unat_word_ariths unat_of_nat)
qed

text \<open>The program headers are copied to a new block of the heap, and nothing but the heap changes.\<close>

lemma headers_copied:
  fixes s :: "'a heap_state_scheme"
  assumes ok: "space_ok s (cr3 s)" and inv: "heap_inv s base ((h, n) # bs)"
    and heap: "\<forall>x. heap_area base x \<longrightarrow> untouched s x"
    and room: "unat (bytes_allocated s) + 56 * length hs \<le> unat (heap_size s)"
    and z: "unat z = 56 * length hs" and hs: "hs \<noteq> []" "phdr_table (mem s) src hs"
    and src: "unat src + 56 * length hs < 18446744073709551616" "\<forall>x. in_range src z x \<longrightarrow> \<not> heap_area base x"
  obtains p s1 s2 where "kmalloc s z = Some (p, s1)" "s2 = s1\<lparr>mem := kmemcpy_loop (mem s1) p src z 0\<rparr>"
    "unat base \<le> unat p" "unat p + 56 * length hs < unat base + 70368744177664"
    "unat base + 70368744177664 \<le> 18446744073709551616"
    "phdr_table (mem s2) p hs" "\<And>x. \<not> heap_area base x \<Longrightarrow> mem s2 x = mem s x"
    "bitmap s2 = bitmap s" "bitmap_size s2 = bitmap_size s" "cr3 s2 = cr3 s"
proof -
  have pos: "0 < unat z" using hs(1) z by simp
  have mem_room: "unat (bytes_allocated s) + unat z \<le> unat (heap_size s)" using room z by simp
  define r where "r = h + 24 * (n + 1)"
  note km = kmalloc_spec [OF inv pos mem_room, folded r_def]
  note ka = kmalloc_area [OF inv pos mem_room, folded r_def]
  define p where "p = r + 24"
  have pu: "unat base \<le> unat p" "unat p + 56 * length hs < unat base + 70368744177664"
    "unat base + 70368744177664 \<le> 18446744073709551616"
    using ka(3-5) z heap_invD(4) [OF inv] by (simp_all add: p_def)
  define s1 where "s1 = s\<lparr>mem := header_writes (mem s) h r z, heap_head := r, heap_tail := r,
       bytes_allocated := bytes_allocated s + z\<rparr>"
  define m2 where "m2 = kmemcpy_loop (mem s1) p src z 0"
  define s2 where "s2 = s1\<lparr>mem := m2\<rparr>"
  have area: "in_range p z x \<longleftrightarrow> unat p \<le> unat x \<and> unat x < unat p + 56 * length hs" for x
    using pu in_range_linear [of p z x] z by simp
  have fwd: "forward_copy_ok p src z"
  proof -
    have "ranges_disjoint p z src z"
    proof (rule ranges_apart)
      show "unat p + unat z \<le> 18446744073709551616" "unat src + unat z \<le> 18446744073709551616"
        using pu src(1) z by simp_all
      show "0 < unat z" "0 < unat z" by (fact pos)+
      show "\<not> in_range p z x" if "in_range src z x" for x
        using src(2) that ka(2) by (simp add: p_def)
    qed
    then show ?thesis by (rule ranges_disjoint_forward)
  qed
  have m2: "m2 x = (if in_range p z x then mem s1 (src + (x - p)) else mem s1 x)" for x
    using kmemcpy_closed [OF fwd] by (simp add: m2_def kmemcpy_def)
  have out: "mem s2 x = mem s x" if "\<not> heap_area base x" for x
    using that ka(1) ka(2) m2 by (simp add: s2_def s1_def p_def)
  have tab: "phdr_table (mem s2) p hs"
  proof -
    have "phdr_table (mem s2) p hs \<longleftrightarrow> phdr_table (\<lambda>x. mem s (x + (src - p))) p hs"
    proof (rule phdr_table_cong)
      fix x :: u64 assume x: "unat p \<le> unat x" "unat x < unat p + 56 * length hs"
      then have "in_range p z x" by (simp add: area)
      then have "in_range src z (src + (x - p))" by (simp add: in_range_def)
      then have "mem s1 (src + (x - p)) = mem s (src + (x - p))"
        using src(2) ka(1) by (simp add: s1_def)
      then show "mem s2 x = mem s (x + (src - p))"
        using m2 [of x] \<open>in_range p z x\<close> by (simp add: s2_def algebra_simps)
    qed (use pu in simp)
    then show ?thesis using hs(2) by (simp add: phdr_table_shift)
  qed
  have f2: "bitmap s2 = bitmap s" "bitmap_size s2 = bitmap_size s" "cr3 s2 = cr3 s" by (simp_all add: s2_def s1_def)
  from km(1) have "kmalloc s z = Some (p, s1)" by (simp add: p_def s1_def)
  from that [OF this _ pu tab out f2] show ?thesis by (simp add: s2_def m2_def)
qed

section \<open>A concrete image\<close>

definition tiny_elf :: "u8 list" where
  "tiny_elf =
     [0x7F, 0x45, 0x4C, 0x46, 2, 1, 0, 0, 0, 0, 0, 0, 0, 0, 0, 0,
      2, 0, 62, 0, 1, 0, 0, 0, 0, 0, 0x40, 0, 0, 0, 0, 0, 64, 0, 0, 0, 0, 0, 0, 0,
      0, 0, 0, 0, 0, 0, 0, 0, 0, 0, 0, 0, 64, 0, 56, 0, 1, 0, 0, 0, 0, 0, 0, 0,
      1, 0, 0, 0, 7, 0, 0, 0, 120, 0, 0, 0, 0, 0, 0, 0, 0, 0, 0x40, 0, 0, 0, 0, 0,
      0, 0, 0x40, 0, 0, 0, 0, 0, 4, 0, 0, 0, 0, 0, 0, 0, 4, 0, 0, 0, 0, 0, 0, 0,
      0, 0, 0, 0, 0, 0, 0, 0, 0xDE, 0xAD, 0xBE, 0xEF]"

definition tiny_phdr :: Elf64_Phdr where
  "tiny_phdr = \<lparr>p_type = 1, p_flags = 7, p_offset = 120, p_vaddr = 0x400000, p_paddr = 0x400000,
     p_filesz = 4, p_memsz = 4, p_align = 0\<rparr>"

definition disk_bytes :: "u8 list" where
  "disk_bytes = 0x61 # replicate 123 0 @ octal_field 124 @ replicate 377 0 @ tiny_elf @ replicate 512 0"

definition block_bytes :: "u8 list" where
  "block_bytes = [0x0D, 0xF0, 0xA7, 0x0C] @ replicate 20 0"

definition path_bytes :: "u8 list" where
  "path_bytes = [0x61, 0]"

text \<open>The ramdisk at \<open>0xFFFFE00000000000\<close>, an empty heap at \<open>0xFFFF900000000000\<close>, the path \<open>a\<close>
  at \<open>0xFFFF980000000000\<close>.\<close>

definition elf_machine :: initrd_state where
  "elf_machine = \<lparr>mem = write_bytes (write_bytes (write_bytes (mem boot_machine)
        0xFFFFE00000000200 disk_bytes) 0xFFFF900000000000 block_bytes) 0xFFFF980000000000 path_bytes,
     hhdm = 0xFFFF800000000000, memmap = [],
     bitmap = 0xFFFF800000100000, usable_pages = 0, bitmap_size = 0x1000, highest_addr = 0,
     root_pagemap = 0x8000, cr3 = 0x8000, tlb_flushes = [],
     heap_head = 0xFFFF900000000000, heap_tail = 0xFFFF900000000000, heap_size = 0x7000, bytes_allocated = 0,
     modules = [], initrd = 0xFFFFE00000000000, initrd_size = 0\<rparr>"

lemma image_lengths: "length tiny_elf = 124" "length disk_bytes = 1148" "length block_bytes = 24" "length path_bytes = 2"
  by (simp_all add: path_bytes_def tiny_elf_def disk_bytes_def block_bytes_def length_octal_field)

lemma elf_machine_mem:
  "mem elf_machine x = (if in_range 0xFFFF980000000000 2 x then path_bytes ! unat (x - 0xFFFF980000000000)
     else if in_range 0xFFFF900000000000 24 x then block_bytes ! unat (x - 0xFFFF900000000000)
     else if in_range 0xFFFFE00000000200 1148 x then disk_bytes ! unat (x - 0xFFFFE00000000200)
     else mem boot_machine x)"
  by (simp add: elf_machine_def write_bytes_closed image_lengths)

lemma space_ok_fields:
  fixes s :: "'a pmm_state_scheme" and s' :: "'b pmm_state_scheme"
  assumes "mem s' = mem s" "bitmap s' = bitmap s" "bitmap_size s' = bitmap_size s"
  shows "space_ok s' pml4 \<longleftrightarrow> space_ok s pml4" "frame_free s' = frame_free s"
proof -
  show f: "frame_free s' = frame_free s" by (rule ext) (simp add: frame_free_def assms)
  have "pmm_ok s' \<longleftrightarrow> pmm_ok s" "is_table s' = is_table s"
    by (simp_all add: pmm_ok_def is_table_def fun_eq_iff f assms)
  then show "space_ok s' pml4 \<longleftrightarrow> space_ok s pml4" by (simp add: space_ok_def assms(1))
qed

lemma elf_machine_space: "space_ok elf_machine (cr3 elf_machine)" "frame_free elf_machine = frame_free boot_machine"
proof -
  define s where "s = elf_machine\<lparr>mem := mem boot_machine\<rparr>"
  have f: "mem s = mem boot_machine" "bitmap s = bitmap boot_machine" "bitmap_size s = bitmap_size boot_machine"
    by (simp_all add: s_def elf_machine_def boot_machine_def)
  have ok: "space_ok s 0x8000" using space_ok_fields(1) [OF f] boot_machine_space by simp
  have same: "mem elf_machine x = mem s x" if x: "\<not> untouched s x" for x
  proof -
    have "\<not> in_range a k x" if "4503599627370496 \<le> unat a" "unat a + unat k \<le> 18446744073709551616"
      "unat a + unat k \<le> 0xFFFF800000100000 \<or> 0xFFFF800000101000 \<le> unat a" for a k
    proof
      assume "in_range a k x"
      then have "unat a \<le> unat x" "unat x < unat a + unat k" using in_range_linear [OF that(2)] by simp_all
      then have "untouched s x"
        using that in_range_linear [of "bitmap s" "bitmap_size s" x]
        by (auto simp: untouched_def in_bitmap_def f boot_machine_def)
      then show False using x by simp
    qed
    then show ?thesis by (simp add: elf_machine_mem s_def)
  qed
  have e: "bitmap elf_machine = bitmap s" "bitmap_size elf_machine = bitmap_size s" "cr3 elf_machine = 0x8000"
    by (simp_all add: s_def elf_machine_def)
  note w = untouched_write [OF ok e(1,2) same]
  show "space_ok elf_machine (cr3 elf_machine)" using w(1) e(3) by simp
  show "frame_free elf_machine = frame_free boot_machine"
    using w(3) space_ok_fields(2) [OF f] by (simp add: fun_eq_iff)
qed

lemma boot_machine_free_frames: "28672 \<le> card {k. frame_free boot_machine k}"
proof -
  let ?f = "\<lambda>(i, r). Suc (8 * i + r)"
  have inj: "inj_on ?f ({..<4096} \<times> {..<7})"
  proof (rule inj_onI)
    fix a b assume ab: "a \<in> {..<4096} \<times> {..<7}" "b \<in> {..<4096} \<times> {..<7}" "?f a = ?f b"
    obtain i r j q where e: "a = (i, r)" "b = (j, q)" by (cases a, cases b) blast
    then have "8 * i + r = 8 * j + q" "r < 7" "q < 7" using ab by simp_all
    then have "i = j" by presburger
    with \<open>8 * i + r = 8 * j + q\<close> show "a = b" by (simp add: e)
  qed
  have "card (?f ` ({..<4096} \<times> {..<7})) \<le> card {k. frame_free boot_machine k}"
    by (rule card_mono) (simp add: finite_free, auto simp: boot_machine_free)
  then show ?thesis by (simp add: card_image [OF inj] card_cartesian_product)
qed


lemma elf_at:
  assumes "in_range 0xFFFFE00000000400 124 x"
  shows "mem elf_machine x = tiny_elf ! unat (x - 0xFFFFE00000000400)"
proof -
  define d where "d = x - 0xFFFFE00000000400"
  have x: "x = 0xFFFFE00000000400 + d" and d: "unat d < 124"
    using assms by (simp_all add: d_def in_range_def word_less_nat_alt)
  have ux: "unat x = 0xFFFFE00000000400 + unat d" using d by (simp add: x unat_word_ariths)
  have "\<not> in_range 0xFFFF980000000000 2 x" "\<not> in_range 0xFFFF900000000000 24 x" "in_range 0xFFFFE00000000200 1148 x"
    using ux d by (simp_all add: in_range_linear)
  moreover have "unat (x - 0xFFFFE00000000200) = 512 + unat d"
  proof -
    have "x - 0xFFFFE00000000200 = 512 + d" by (simp add: x)
    then show ?thesis using d by (simp add: unat_word_ariths)
  qed
  moreover have "disk_bytes ! (512 + unat d) = tiny_elf ! unat d"
  proof -
    have "disk_bytes = (0x61 # replicate 123 0 @ octal_field 124 @ replicate 377 0) @ tiny_elf @ replicate 512 0"
      by (simp add: disk_bytes_def)
    moreover have "length (0x61 # replicate 123 0 @ octal_field 124 @ replicate 377 (0 :: u8)) = 512"
      by (simp add: length_octal_field)
    ultimately show ?thesis using d image_lengths(1) by (metis nth_append_length_plus nth_append)
  qed
  ultimately show ?thesis unfolding elf_machine_mem d_def [symmetric] by simp
qed

lemma tiny_header: "read_ehdr (mem elf_machine) 0xFFFFE00000000400 =
   \<lparr>e_ident = take 16 tiny_elf, e_type = 2, e_machine = 62, e_version = 1, e_entry = 0x400000, e_phoff = 64, e_shoff = 0,
    e_flags = 0, e_ehsize = 64, e_phentsize = 56, e_phnum = 1, e_shentsize = 0, e_shnum = 0, e_shstrndx = 0\<rparr>"
proof -
  have "bytes_at (mem elf_machine) 0xFFFFE00000000400 16 = take 16 tiny_elf"
    by (simp add: bytes_at_def upt_rec elf_at in_range_def tiny_elf_def)
  then show ?thesis
    by (simp add: read_ehdr_def ld16_eq_iff ld32_eq_iff ld64_eq_iff elf_at in_range_def, simp add: tiny_elf_def)
qed

lemma tiny_phdr_at: "read_phdr (mem elf_machine) 0xFFFFE00000000440 = tiny_phdr"
  by (simp add: read_phdr_def tiny_phdr_def ld32_eq_iff ld64_eq_iff elf_at in_range_def, simp add: tiny_elf_def)


lemma tiny_heap: "heap_inv elf_machine 0xFFFF900000000000 [(0xFFFF900000000000, 0)]"
proof -
  have at: "mem elf_machine x = block_bytes ! unat (x - 0xFFFF900000000000)" if "in_range 0xFFFF900000000000 24 x" for x
  proof -
    have "\<not> in_range 0xFFFF980000000000 2 x" using that by (simp add: in_range_linear)
    with that show ?thesis by (simp add: elf_machine_mem)
  qed
  have "block_at (mem elf_machine) 0xFFFF900000000000 0 0"
    unfolding block_defs ld32_eq_iff ld64_eq_iff ld8_def
    by (simp add: at in_range_def, simp add: block_bytes_def)
  then show ?thesis by (simp add: heap_inv_def elf_machine_def)
qed

lemma tiny_disk: "archive (mem elf_machine) 0xFFFFE00000000200 [([0x61], 124)]"
  "cstr (mem elf_machine) 0xFFFF980000000000 [0x61]"
proof -
  have at: "mem elf_machine (0xFFFFE00000000200 + of_nat i) = disk_bytes ! i" if "i < 1148" for i
  proof -
    have "unat (of_nat i :: u64) = i" using that by (simp add: unat_of_nat)
    then have "unat (0xFFFFE00000000200 + of_nat i :: u64) = 0xFFFFE00000000200 + i"
      using that by (simp add: unat_word_ariths)
    then show ?thesis
      using that \<open>unat (of_nat i :: u64) = i\<close> by (simp add: elf_machine_mem in_range_linear)
  qed
  have "bytes_at (mem elf_machine) (0xFFFFE00000000200 + 124) 11 = octal_field 124"
  proof (rule nth_equalityI)
    fix i assume "i < length (bytes_at (mem elf_machine) (0xFFFFE00000000200 + 124) 11)"
    then have "i < 11" by simp
    then show "bytes_at (mem elf_machine) (0xFFFFE00000000200 + 124) 11 ! i = octal_field 124 ! i"
      using at [of "124 + i"] by (simp add: disk_bytes_def nth_append length_octal_field)
  qed (simp add: length_octal_field)
  moreover have "mem elf_machine 0xFFFFE00000000200 = 0x61" "mem elf_machine 0xFFFFE00000000201 = 0"
    "mem elf_machine 0xFFFFE00000000600 = 0"
    using at [of 0] at [of 1] at [of 1024] by (simp_all add: disk_bytes_def nth_append length_octal_field image_lengths(1))
  ultimately show "archive (mem elf_machine) 0xFFFFE00000000200 [([0x61], 124)]"
    by (simp add: entry_blocks_def)
  show "cstr (mem elf_machine) 0xFFFF980000000000 [0x61]"
    by (simp add: elf_machine_mem in_range_def path_bytes_def)
qed

lemma tiny_untouched:
  assumes "0xFFFF900000000000 \<le> unat x"
  shows "untouched elf_machine x"
proof -
  have "bitmap elf_machine = 0xFFFF800000100000" "bitmap_size elf_machine = 0x1000" by (simp_all add: elf_machine_def)
  then show ?thesis using assms by (simp add: untouched_def in_bitmap_def in_range_linear)
qed

lemma tiny_image: "loadable_image elf_machine 0xFFFF900000000000 0xFFFFE00000000400 [tiny_phdr]"
proof -
  have fits: "segment_fits tiny_phdr" by (simp add: segment_fits_def tiny_phdr_def page_of_def)
  have far: "\<not> heap_area 0xFFFF900000000000 x" if "0xFFFFE00000000000 \<le> unat x" for x
    using that by (simp add: heap_area_def)
  have u: "unat (0xFFFFE00000000400 + 120 + of_nat j :: u64) = 0xFFFFE00000000478 + j" if "j < 4" for j
    using that by (simp add: unat_word_ariths unat_of_nat)
  have hdr: "is_valid (read_ehdr (mem elf_machine) 0xFFFFE00000000400)"
    "is_supported (read_ehdr (mem elf_machine) 0xFFFFE00000000400)"
    unfolding tiny_header by (simp_all add: is_valid_def is_supported_def tiny_elf_def)
  have src: "untouched elf_machine (0xFFFFE00000000400 + 120 + of_nat j)"
    "\<not> heap_area 0xFFFF900000000000 (0xFFFFE00000000400 + 120 + of_nat j)" if "j < 4" for j
    using u [OF that] by (intro tiny_untouched far; simp)+
  have tab: "\<not> heap_area 0xFFFF900000000000 x" if "in_range 0xFFFFE00000000440 56 x" for x
    using that by (intro far) (simp add: in_range_linear)
  show ?thesis
    unfolding loadable_image_def Let_def
    using fits hdr src tab tiny_phdr_at
    by (simp add: tiny_header ascending_def loadable_def) (simp add: tiny_phdr_def)
qed

section \<open>Properties\<close>

text \<open>C3: Loading an executable whose segments are in ascending order and whose memory suffices
  returns the entry point, leaves the program headers on the heap, and every byte of every
  loadable segment can be read, through the page tables, at its address; the image is recorded
  to end \<open>pages_mapped\<close> pages after the entry point.\<close>

theorem elf_load_correct:
  assumes "initrd_open s lit path = Some (orig, s)" "orig \<noteq> 0" "space_ok s (cr3 s)"
    "heap_inv s base ((h, n) # bs)" "\<forall>x. heap_area base x \<longrightarrow> untouched s x"
    "loadable_image s base orig hs" "unat (bytes_allocated s) + 56 * length hs \<le> unat (heap_size s)"
    "4 * pages_mapped hs \<le> card {k. frame_free s k}"
  shows "\<exists>p s'. elf_load s lit path pimg = Some (e_entry (read_ehdr (mem s) orig),
      \<lparr>phdrs = p, elf_ptr = orig + e_phoff (read_ehdr (mem s) orig), prog_start = e_entry (read_ehdr (mem s) orig),
       prog_end = e_entry (read_ehdr (mem s) orig) + 4096 * of_nat (pages_mapped hs)\<rparr>, s') \<and>
    space_ok s' (cr3 s) \<and> cr3 s' = cr3 s \<and> phdr_table (mem s') p hs \<and>
    (\<forall>g\<in>set (loadable hs). segment_loaded s' (mem s) orig g)"
proof -
  define eh where "eh = read_ehdr (mem s) orig"
  define src where "src = orig + e_phoff eh"
  have img: "is_valid eh" "is_supported eh" "e_phentsize eh = 56" "unat (e_phnum eh) = length hs" "hs \<noteq> []"
    "phdr_table (mem s) src hs" "unat src + 56 * length hs < 18446744073709551616"
    "\<And>x. in_range src (56 * of_nat (length hs)) x \<Longrightarrow> \<not> heap_area base x" "ascending hs"
    "\<forall>g\<in>set (loadable hs). segment_fits g \<and> (\<forall>j<unat (p_filesz g). untouched s (orig + p_offset g + of_nat j) \<and>
       \<not> heap_area base (orig + p_offset g + of_nat j))"
    using assms(6) by (auto simp: loadable_image_def Let_def eh_def src_def)
  note sz = phdrs_size_eq [OF img(3,4)]
  define z where "z = phdrs_size eh"
  have z: "unat z = 56 * length hs" "z = 56 * of_nat (length hs)" using sz by (simp_all add: z_def)
  have src: "\<forall>x. in_range src z x \<longrightarrow> \<not> heap_area base x" using img(8) z(2) by simp
  obtain p s1 s2 where km: "kmalloc s z = Some (p, s1)" "s2 = s1\<lparr>mem := kmemcpy_loop (mem s1) p src z 0\<rparr>"
    and pu: "unat base \<le> unat p" "unat p + 56 * length hs < unat base + 70368744177664"
      "unat base + 70368744177664 \<le> 18446744073709551616"
    and tab: "phdr_table (mem s2) p hs" and out: "\<And>x. \<not> heap_area base x \<Longrightarrow> mem s2 x = mem s x"
    and f2: "bitmap s2 = bitmap s" "bitmap_size s2 = bitmap_size s" "cr3 s2 = cr3 s"
    by (rule headers_copied [OF assms(3,4,5,7) z(1) img(5,6,7) src]) (rule that)
  have same: "mem s2 x = mem s x" if "\<not> untouched s x" for x
    using that out assms(5) by blast
  note w = untouched_write [OF assms(3) f2(1,2) same]
  have un: "untouched s2 x \<longleftrightarrow> untouched s x" for x by (simp add: untouched_def in_bitmap_def f2)
  have free2: "{k. frame_free s2 k} = {k. frame_free s k}" using w(3) by simp
  obtain s' where s': "phdr_loop s2 \<lparr>phdrs = p, elf_ptr = src, prog_start = e_entry eh, prog_end = e_entry eh\<rparr> p (p + z) 56 orig =
      Some (\<lparr>phdrs = p, elf_ptr = src, prog_start = e_entry eh, prog_end = e_entry eh + 4096 * of_nat (pages_mapped hs)\<rparr>, s')"
    "space_ok s' (cr3 s')" "cr3 s' = cr3 s2" "high_kept s2 s'"
    "\<forall>g\<in>set (loadable hs). segment_loaded s' (mem s2) orig g"
  proof -
    have "\<forall>x. unat p \<le> unat x \<and> unat x < unat p + 56 * length hs \<longrightarrow> untouched s2 x"
      using pu assms(5) by (auto simp: un heap_area_def)
    from phdr_loop_spec [OF _ tab _ this, of orig "\<lparr>phdrs = p, elf_ptr = src, prog_start = e_entry eh, prog_end = e_entry eh\<rparr>"]
    show ?thesis using that pu w(1) f2 img(9,10) assms(8) un free2 z(2) by auto
  qed
  have ret: "elf_load s lit path pimg = Some (e_entry eh,
     \<lparr>phdrs = p, elf_ptr = src, prog_start = e_entry eh, prog_end = e_entry eh + 4096 * of_nat (pages_mapped hs)\<rparr>, s')"
    using assms(1,2) img(1-3) km s'(1)
    by (cases pimg) (simp add: elf_load_def Let_def src_def flip: eh_def z_def)
  have "phdr_table (mem s') p hs"
  proof -
    have "phdr_table (mem s') p hs \<longleftrightarrow> phdr_table (mem s2) p hs"
      by (rule phdr_table_cong)
        (use pu assms(5) in \<open>auto simp: un heap_area_def intro!: untouched_same [OF s'(4)]\<close>)
    with tab show ?thesis by simp
  qed
  moreover have "segment_loaded s' (mem s) orig g" if "g \<in> set (loadable hs)" for g
    using s'(5) that img(10) out by (simp add: segment_loaded_def)
  ultimately show ?thesis
    using ret s'(2,3) f2 by (intro exI [of _ p] exI [of _ s']) (simp flip: eh_def src_def)
qed


lemma elf_load_correct_witness:
  "\<exists>img s'. elf_load elf_machine 0 0xFFFF980000000000 \<lparr>phdrs = 0, elf_ptr = 0, prog_start = 0, prog_end = 0\<rparr> = Some (0x400000, img, s') \<and> read_virt s' 0x400003 = 0xEF"
proof -
  have i: "initrd_open elf_machine 0 0xFFFF980000000000 = Some (0xFFFFE00000000400, elf_machine)"
    using initrd_open_archive [of elf_machine "[([0x61], 124)]" "0xFFFF980000000000" "[0x61]" 0] tiny_disk
    by (simp add: elf_machine_def)
  have "\<exists>p s'. elf_load elf_machine 0 0xFFFF980000000000 \<lparr>phdrs = 0, elf_ptr = 0, prog_start = 0, prog_end = 0\<rparr> = Some (e_entry (read_ehdr (mem elf_machine) 0xFFFFE00000000400),
      \<lparr>phdrs = p, elf_ptr = 0xFFFFE00000000400 + e_phoff (read_ehdr (mem elf_machine) 0xFFFFE00000000400),
       prog_start = e_entry (read_ehdr (mem elf_machine) 0xFFFFE00000000400),
       prog_end = e_entry (read_ehdr (mem elf_machine) 0xFFFFE00000000400) + 4096 * of_nat (pages_mapped [tiny_phdr])\<rparr>, s') \<and>
    space_ok s' (cr3 elf_machine) \<and> cr3 s' = cr3 elf_machine \<and> phdr_table (mem s') p [tiny_phdr] \<and>
    (\<forall>g\<in>set (loadable [tiny_phdr]). segment_loaded s' (mem elf_machine) 0xFFFFE00000000400 g)"
  proof (rule elf_load_correct [OF i _ elf_machine_space(1) tiny_heap _ tiny_image])
    show "\<forall>x. heap_area 0xFFFF900000000000 x \<longrightarrow> untouched elf_machine x"
      by (auto simp: heap_area_def intro!: tiny_untouched)
    show "4 * pages_mapped [tiny_phdr] \<le> card {k. frame_free elf_machine k}"
      using boot_machine_free_frames by (simp add: elf_machine_space(2) pages_mapped_def loadable_def tiny_phdr_def)
  qed (simp_all add: elf_machine_def)
  moreover have "mem elf_machine (0xFFFFE00000000400 + 120 + of_nat 3) = 0xEF"
    by (simp add: elf_at in_range_def, simp add: tiny_elf_def)
  ultimately show ?thesis
    by (auto simp: tiny_header loadable_def tiny_phdr_def segment_loaded_def dest!: spec [of _ 3])
qed

text \<open>C32: The header check accepts exactly the files whose first six bytes are the magic number,
  the 64-bit class and little-endian order, and whose bytes 16 to 23 say executable, x86-64,
  version 1.\<close>

theorem elf_check_bytes:
  "is_valid (read_ehdr m p) \<and> is_supported (read_ehdr m p) \<longleftrightarrow>
     bytes_at m p 6 = [0x7F, 0x45, 0x4C, 0x46, 2, 1] \<and> bytes_at m (p + 16) 8 = [2, 0, 62, 0, 1, 0, 0, 0]"
proof -
  have bytes: "bytes_at m p 6 = [m p, m (p + 1), m (p + 2), m (p + 3), m (p + 4), m (p + 5)]"
    "bytes_at m (p + 16) 8 = [m (p + 16), m (p + 17), m (p + 18), m (p + 19), m (p + 20), m (p + 21), m (p + 22), m (p + 23)]"
    by (simp_all add: bytes_at_def upt_rec add.commute)
  have valid: "is_valid (read_ehdr m p) \<longleftrightarrow>
      m p = 0x7F \<and> m (p + 1) = 0x45 \<and> m (p + 2) = 0x4C \<and> m (p + 3) = 0x46"
    by (simp add: is_valid_def read_ehdr_def)
  have "ld16 m (p + 16) = ET_EXEC \<longleftrightarrow> m (p + 16) = 2 \<and> m (p + 17) = 0"
    "ld16 m (p + 18) = EM_X86_64 \<longleftrightarrow> m (p + 18) = 62 \<and> m (p + 19) = 0"
    "ld32 m (p + 20) = EV_CURRENT \<longleftrightarrow> m (p + 20) = 1 \<and> m (p + 21) = 0 \<and> m (p + 22) = 0 \<and> m (p + 23) = 0"
    by (simp_all add: ld16_eq_iff ld32_eq_iff add.assoc)
  then have supported: "is_supported (read_ehdr m p) \<longleftrightarrow> m (p + 4) = 2 \<and> m (p + 5) = 1 \<and>
      (m (p + 18) = 62 \<and> m (p + 19) = 0) \<and>
      (m (p + 20) = 1 \<and> m (p + 21) = 0 \<and> m (p + 22) = 0 \<and> m (p + 23) = 0) \<and> m (p + 16) = 2 \<and> m (p + 17) = 0"
    by (auto simp: is_supported_def read_ehdr_def split: if_splits)
  show ?thesis unfolding bytes valid supported by auto
qed

text \<open>A file that is not in the ramdisk, or whose header is rejected, is not loaded: the result
  is 0 and neither the state nor the image record changes.\<close>

theorem elf_load_rejects:
  assumes "initrd s \<noteq> 0" "archive (mem s) (initrd s + 0x200) es" "es \<noteq> []" "cstr (mem s) path p" "p \<noteq> []"
    "length p < 100"
    "(let orig = archive_lookup (initrd s + 0x200) es p; h = read_ehdr (mem s) orig
      in orig = 0 \<or> \<not> is_valid h \<or> \<not> is_supported h)"
  shows "elf_load s lit path pimg = Some (0, pimg, s)"
  using initrd_open_archive [OF assms(1-6), of lit] assms(7) by (auto simp: elf_load_def Let_def)

lemma elf_load_rejects_witness:
  "elf_load disk_state 0 0x500 \<lparr>phdrs = 0, elf_ptr = 0, prog_start = 0, prog_end = 0\<rparr> =
     Some (0, \<lparr>phdrs = 0, elf_ptr = 0, prog_start = 0, prog_end = 0\<rparr>, disk_state)"
proof (rule elf_load_rejects)
  have d: "mem disk_state = small_disk" "initrd disk_state = 0x100000" by (simp_all add: disk_state_def)
  show "initrd disk_state \<noteq> 0" "archive (mem disk_state) (initrd disk_state + 0x200) [([0x61], 5)]"
    "cstr (mem disk_state) 0x500 [0x61]"
    using small_disk_archive by (simp_all only: d) simp_all
  have "small_disk 0x100400 = 0"
    by (simp add: small_disk_def write_bytes_outside length_octal_field in_range_def)
  then have "\<not> is_valid (read_ehdr small_disk 0x100400)" by (simp add: is_valid_def read_ehdr_def)
  then show "let orig = archive_lookup (initrd disk_state + 0x200) [([0x61], 5)] [0x61]; h = read_ehdr (mem disk_state) orig
      in orig = 0 \<or> \<not> is_valid h \<or> \<not> is_supported h"
    by (simp add: d Let_def)
qed simp_all

end
