(* ===== verification/Vfs.thy ===== *)
theory Vfs
  imports Initrd
begin

text \<open>
  \<open>sys/src/fs/vfs.c\<close>: the virtual file system, a list of mounted root folders whose children
  are files.  A node (\<open>fsnode_t\<close>) is a structure of 304 bytes in memory; the selectors below read
  its fields at the offsets the C layout gives them, so fields that were never initialised hold
  whatever memory holds.

  The callbacks of a node are code addresses.  What the code at an address does is a parameter
  \<open>calls\<close> of the operations that jump through a node; \<open>tmpfs.c\<close> provides it.  The buffer \<open>fname\<close>
  of \<open>parse_path\<close> is a local array: its address is the parameter \<open>fname\<close>.  An output parameter
  that was not written is \<open>None\<close>.
\<close>

section \<open>State and nodes\<close>

record vfs_state = initrd_state +
  root_fs :: u64
  vfs_head :: u64
  next_fid :: u64

abbreviation EXIT_SUCCESS :: u16 where "EXIT_SUCCESS \<equiv> 0"
abbreviation EXIT_FAILURE :: u16 where "EXIT_FAILURE \<equiv> 1"
abbreviation EBUSY :: u16 where "EBUSY \<equiv> 3"
abbreviation ENOENT :: u16 where "ENOENT \<equiv> 4"

abbreviation FS_FILE :: u8 where "FS_FILE \<equiv> 1"
abbreviation FS_DIRECTORY :: u8 where "FS_DIRECTORY \<equiv> 2"
abbreviation FS_MOUNTPOINT :: u8 where "FS_MOUNTPOINT \<equiv> 4"
abbreviation FS_EOF :: u8 where "FS_EOF \<equiv> 5"
abbreviation SEEK_SET :: u32 where "SEEK_SET \<equiv> 0"
abbreviation SEEK_END :: u32 where "SEEK_END \<equiv> 1"

abbreviation slash :: u8 where "slash \<equiv> of_char (CHR ''/'')"

abbreviation sizeof_fsnode :: u64 where "sizeof_fsnode \<equiv> 304"

definition fs_fname :: "u64 \<Rightarrow> u64" where "fs_fname n = n"
definition fs_fidx :: "memory \<Rightarrow> u64 \<Rightarrow> u64" where "fs_fidx m n = ld64 m (n + 200)"
definition fs_len :: "memory \<Rightarrow> u64 \<Rightarrow> u64" where "fs_len m n = ld64 m (n + 216)"
definition fs_rlock :: "memory \<Rightarrow> u64 \<Rightarrow> u8" where "fs_rlock m n = ld8 m (n + 232)"
definition fs_off :: "memory \<Rightarrow> u64 \<Rightarrow> u64" where "fs_off m n = ld64 m (n + 240)"
definition fs_next :: "memory \<Rightarrow> u64 \<Rightarrow> u64" where "fs_next m n = ld64 m (n + 248)"
definition fs_children :: "memory \<Rightarrow> u64 \<Rightarrow> u64" where "fs_children m n = ld64 m (n + 256)"
definition fs_n_children :: "memory \<Rightarrow> u64 \<Rightarrow> u64" where "fs_n_children m n = ld64 m (n + 272)"
definition fs_read :: "memory \<Rightarrow> u64 \<Rightarrow> u64" where "fs_read m n = ld64 m (n + 280)"
definition fs_write :: "memory \<Rightarrow> u64 \<Rightarrow> u64" where "fs_write m n = ld64 m (n + 288)"
definition fs_fcreate :: "memory \<Rightarrow> u64 \<Rightarrow> u64" where "fs_fcreate m n = ld64 m (n + 296)"

definition set_fidx :: "u64 \<Rightarrow> u64 \<Rightarrow> memory \<Rightarrow> memory" where "set_fidx n v m = st64 m (n + 200) v"
definition set_fid :: "u64 \<Rightarrow> u64 \<Rightarrow> memory \<Rightarrow> memory" where "set_fid n v m = st64 m (n + 208) v"
definition set_len :: "u64 \<Rightarrow> u64 \<Rightarrow> memory \<Rightarrow> memory" where "set_len n v m = st64 m (n + 216) v"
definition set_flags :: "u64 \<Rightarrow> u8 \<Rightarrow> memory \<Rightarrow> memory" where "set_flags n v m = st8 m (n + 224) v"
definition set_rlock :: "u64 \<Rightarrow> u8 \<Rightarrow> memory \<Rightarrow> memory" where "set_rlock n v m = st8 m (n + 232) v"
definition set_off :: "u64 \<Rightarrow> u64 \<Rightarrow> memory \<Rightarrow> memory" where "set_off n v m = st64 m (n + 240) v"
definition set_next :: "u64 \<Rightarrow> u64 \<Rightarrow> memory \<Rightarrow> memory" where "set_next n v m = st64 m (n + 248) v"
definition set_children :: "u64 \<Rightarrow> u64 \<Rightarrow> memory \<Rightarrow> memory" where "set_children n v m = st64 m (n + 256) v"
definition set_parent :: "u64 \<Rightarrow> u64 \<Rightarrow> memory \<Rightarrow> memory" where "set_parent n v m = st64 m (n + 264) v"
definition set_n_children :: "u64 \<Rightarrow> u64 \<Rightarrow> memory \<Rightarrow> memory" where "set_n_children n v m = st64 m (n + 272) v"
definition set_read :: "u64 \<Rightarrow> u64 \<Rightarrow> memory \<Rightarrow> memory" where "set_read n v m = st64 m (n + 280) v"
definition set_write :: "u64 \<Rightarrow> u64 \<Rightarrow> memory \<Rightarrow> memory" where "set_write n v m = st64 m (n + 288) v"
definition set_fcreate :: "u64 \<Rightarrow> u64 \<Rightarrow> memory \<Rightarrow> memory" where "set_fcreate n v m = st64 m (n + 296) v"

text \<open>What the code at a callback address does; \<open>None\<close> when it does not return.\<close>

record 'a fs_calls =
  call_read :: "u64 \<Rightarrow> 'a vfs_state_scheme \<Rightarrow> u64 \<Rightarrow> u64 \<Rightarrow> u64 \<Rightarrow> (u16 \<times> 'a vfs_state_scheme) option"
  call_write :: "u64 \<Rightarrow> 'a vfs_state_scheme \<Rightarrow> u64 \<Rightarrow> u64 \<Rightarrow> u64 \<Rightarrow> (u16 \<times> 'a vfs_state_scheme) option"
  call_fcreate :: "u64 \<Rightarrow> 'a vfs_state_scheme \<Rightarrow> u64 \<Rightarrow> u64 \<Rightarrow> (u16 \<times> 'a vfs_state_scheme) option"

section \<open>Looking up\<close>

text \<open>Both searches run along \<open>next\<close> pointers, the first from the list of root folders.\<close>

partial_function (option) locate_loop :: "memory \<Rightarrow> u64 \<Rightarrow> u64 \<Rightarrow> u64 option" where
  "locate_loop m cur name =
     (if cur \<noteq> 0 then do {
        c \<leftarrow> kstrcmp m (fs_fname cur) name;
        if c = 0 then Some cur else locate_loop m (fs_next m cur) name
      } else Some 0)"

definition locate_root_folder :: "'a vfs_state_scheme \<Rightarrow> u64 \<Rightarrow> u64 option" where
  "locate_root_folder s folder_name = locate_loop (mem s) (root_fs s) folder_name"

definition locate_file :: "'a vfs_state_scheme \<Rightarrow> u64 \<Rightarrow> u64 \<Rightarrow> u64 option" where
  "locate_file s folder_node fname = locate_loop (mem s) (fs_children (mem s) folder_node) fname"

text \<open>How the scan of the first path component ends.\<close>

datatype scan =
    Scan_fail
  | Scan_folder u64
  | Scan_break u64

text \<open>\<open>kstrlen(path)\<close> is evaluated before every round.  The result is the outcome, the index and
  the memory; \<open>Scan_break\<close> carries the index behind the slash, also used when the path is used up.\<close>

partial_function (option) scan_folder ::
    "'a vfs_state_scheme \<Rightarrow> u64 \<Rightarrow> u64 \<Rightarrow> u64 \<Rightarrow> u64 \<Rightarrow> (scan \<times> 'a vfs_state_scheme) option" where
  "scan_folder s path fname i fname_idx = do {
     len \<leftarrow> kstrlen (mem s) path;
     if i < len then
       (if 194 \<le> fname_idx then Some (Scan_fail, s)
        else if mem s (path + i) = slash \<and> mem s (path + (i + 1)) \<noteq> 0 then
          Some (Scan_break (i + 1), s\<lparr>mem := (mem s)(fname + fname_idx := 0)\<rparr>)
        else if mem s (path + (i + 1)) = 0 then do {
          let s = s\<lparr>mem := (mem s)(fname + fname_idx := 0)\<rparr>;
          folder \<leftarrow> locate_root_folder s fname;
          Some (Scan_folder folder, s)
        }
        else scan_folder (s\<lparr>mem := (mem s)(fname + fname_idx := mem s (path + i))\<rparr>) path fname (i + 1) (fname_idx + 1))
     else Some (Scan_break i, s)
   }"

text \<open>The second component: the number of bytes copied, \<open>None\<close> inside for a failure.\<close>

partial_function (option) scan_file ::
    "'a vfs_state_scheme \<Rightarrow> u64 \<Rightarrow> u64 \<Rightarrow> u64 \<Rightarrow> u64 \<Rightarrow> (u64 option \<times> 'a vfs_state_scheme) option" where
  "scan_file s path fname i fname_idx = do {
     len \<leftarrow> kstrlen (mem s) path;
     if i < len then
       (if mem s (path + i) = slash then Some (None, s)
        else if 194 \<le> fname_idx then Some (None, s)
        else scan_file (s\<lparr>mem := (mem s)(fname + fname_idx := mem s (path + i))\<rparr>) path fname (i + 1) (fname_idx + 1))
     else Some (Some fname_idx, s)
   }"

text \<open>The result: error code, folder and file as written to the output parameters, state.\<close>

definition parse_path ::
    "'a fs_calls \<Rightarrow> 'a vfs_state_scheme \<Rightarrow> u64 \<Rightarrow> u64 \<Rightarrow> bool \<Rightarrow>
       (u16 \<times> u64 option \<times> u64 option \<times> 'a vfs_state_scheme) option" where
  "parse_path calls s fname path create =
     (if mem s path \<noteq> slash then Some (EXIT_FAILURE, None, None, s)
      else do {
        let path = path + 1;
        (r, s) \<leftarrow> scan_folder s path fname 0 0;
        case r of
          Scan_fail \<Rightarrow> Some (EXIT_FAILURE, None, None, s)
        | Scan_folder folder \<Rightarrow> Some (EXIT_SUCCESS, Some folder, None, s)
        | Scan_break i \<Rightarrow> do {
            folder \<leftarrow> locate_root_folder s fname;
            if folder = 0 then Some (EXIT_FAILURE, None, None, s)
            else do {
              let s = s\<lparr>mem := kmemzero (mem s) fname 195\<rparr>;
              (n, s) \<leftarrow> scan_file s path fname i 0;
              case n of
                None \<Rightarrow> Some (EXIT_FAILURE, None, None, s)
              | Some fname_idx \<Rightarrow> do {
                  let s = s\<lparr>mem := (mem s)(fname + fname_idx := 0)\<rparr>;
                  file \<leftarrow> locate_file s folder fname;
                  if file = 0 \<and> \<not> create then Some (EXIT_FAILURE, None, None, s)
                  else do {
                    (ret_status, s) \<leftarrow>
                      (if create then call_fcreate calls (fs_fcreate (mem s) folder) s folder fname
                       else Some (EXIT_SUCCESS, s));
                    Some (ret_status, Some folder, Some file, s)
                  }
                }
            }
          }
      })"

section \<open>The interface\<close>

definition vfs_init :: "'a vfs_state_scheme \<Rightarrow> (u16 \<times> 'a vfs_state_scheme) option" where
  "vfs_init s =
     (if root_fs s \<noteq> 0 then Some (- EBUSY, s)
      else do {
        (n, s) \<leftarrow> kmalloc s sizeof_fsnode;
        let s = s\<lparr>root_fs := n\<rparr>;
        if root_fs s = 0 then Some (- ENOMEM, s)
        else do {
          let s = s\<lparr>mem := (mem s)(fs_fname n := slash)\<rparr>;
          let s = s\<lparr>mem := (mem s)(fs_fname n + 1 := 0)\<rparr>;
          let s = s\<lparr>mem := (set_fcreate n 0 \<circ> set_write n 0 \<circ> set_read n 0 \<circ> set_n_children n 0 \<circ>
                set_children n 0 \<circ> set_next n 0 \<circ> set_off n 0 \<circ> set_rlock n 0 \<circ>
                set_flags n (FS_DIRECTORY OR FS_MOUNTPOINT) \<circ> set_len n 0 \<circ> set_fid n 0 \<circ> set_fidx n 0) (mem s)\<rparr>;
          Some (EXIT_SUCCESS, s\<lparr>vfs_head := n\<rparr>)
        }
      })"

definition mount_filesystem :: "'a vfs_state_scheme \<Rightarrow> u64 \<Rightarrow> 'a vfs_state_scheme" where
  "mount_filesystem s fs_base =
     (let s = s\<lparr>mem := set_fid fs_base (next_fid s) (mem s), next_fid := next_fid s + 1\<rparr>;
          s = s\<lparr>mem := set_next (vfs_head s) fs_base (mem s)\<rparr>;
          s = s\<lparr>vfs_head := fs_next (mem s) (vfs_head s)\<rparr>
      in s\<lparr>mem := set_next (vfs_head s) 0 (mem s)\<rparr>)"

text \<open>\<open>junk\<close> is what the uninitialised local variable \<open>file\<close> holds.\<close>

definition fopen ::
    "'a fs_calls \<Rightarrow> 'a vfs_state_scheme \<Rightarrow> u64 \<Rightarrow> u64 \<Rightarrow> u64 \<Rightarrow> (u64 \<times> 'a vfs_state_scheme) option" where
  "fopen calls s fname junk path = do {
     (e, _, file, s) \<leftarrow> parse_path calls s fname path False;
     if e \<noteq> EXIT_SUCCESS then Some (0, s)
     else do {
       let file = case_option junk id file;
       if file = 0 then Some (0, s)
       else if 1 \<le> fs_rlock (mem s) file then Some (0, s)
       else Some (file, s)
     }
   }"

definition fclose :: "'a vfs_state_scheme \<Rightarrow> u64 \<Rightarrow> 'a vfs_state_scheme" where
  "fclose s fp =
     (if fp = 0 then s
      else
        let s = s\<lparr>mem := set_rlock fp 0 (mem s)\<rparr>
        in s\<lparr>mem := set_off fp 0 (mem s)\<rparr>)"

definition fread ::
    "'a fs_calls \<Rightarrow> 'a vfs_state_scheme \<Rightarrow> u64 \<Rightarrow> u64 \<Rightarrow> u64 \<Rightarrow> (u16 \<times> 'a vfs_state_scheme) option" where
  "fread calls s fp buf len = call_read calls (fs_read (mem s) fp) s fp buf len"

definition fwrite ::
    "'a fs_calls \<Rightarrow> 'a vfs_state_scheme \<Rightarrow> u64 \<Rightarrow> u64 \<Rightarrow> u64 \<Rightarrow> (u16 \<times> 'a vfs_state_scheme) option" where
  "fwrite calls s fp buf len = call_write calls (fs_write (mem s) fp) s fp buf len"

definition fcreate ::
    "'a fs_calls \<Rightarrow> 'a vfs_state_scheme \<Rightarrow> u64 \<Rightarrow> u64 \<Rightarrow> (u16 \<times> 'a vfs_state_scheme) option" where
  "fcreate calls s fname path = do {
     (e, _, _, s) \<leftarrow> parse_path calls s fname path True;
     Some (e, s)
   }"

definition fseek :: "'a vfs_state_scheme \<Rightarrow> u64 \<Rightarrow> u64 \<Rightarrow> u32 \<Rightarrow> u16 \<times> 'a vfs_state_scheme" where
  "fseek s fp offset whence =
     (if 0 < offset \<and> whence = SEEK_END then (- EXIT_FAILURE, s)
      else
        let s = (if whence = SEEK_SET then s\<lparr>mem := set_off fp offset (mem s)\<rparr>
                 else if whence = SEEK_END then s\<lparr>mem := set_off fp (fs_len (mem s) fp - 1) (mem s)\<rparr>
                 else s)
        in (EXIT_SUCCESS, s))"

section \<open>Node lists\<close>

text \<open>\<open>nodes m p ns\<close>: from \<open>p\<close> on, memory holds a list of nodes with these addresses and names.\<close>

fun nodes :: "memory \<Rightarrow> u64 \<Rightarrow> (u64 \<times> u8 list) list \<Rightarrow> bool" where
  "nodes m p [] \<longleftrightarrow> p = 0"
| "nodes m p ((a, name) # ns) \<longleftrightarrow> p = a \<and> a \<noteq> 0 \<and> length name < 195 \<and> cstr m a name \<and> nodes m (fs_next m a) ns"

text \<open>The abstract lookup: the first node with a name, 0 if there is none.\<close>

fun find_node :: "(u64 \<times> u8 list) list \<Rightarrow> u8 list \<Rightarrow> u64" where
  "find_node [] name = 0"
| "find_node ((a, n) # ns) name = (if n = name then a else find_node ns name)"

lemma locate_loop_nodes:
  assumes "nodes m p ns" "cstr m q name" "length name < 195"
  shows "locate_loop m p q = Some (find_node ns name)"
  using assms(1)
proof (induction ns arbitrary: p)
  case Nil
  then show ?case by (subst locate_loop.simps) simp
next
  case (Cons e ns)
  obtain a n where e: "e = (a, n)" by (cases e)
  have "kstrcmp m a q = Some (if n = name then 0 else 1)"
    by (rule kstrcmp_cstr [of m a n q name]) (use Cons.prems assms e in auto)
  then show ?case using Cons e by (subst locate_loop.simps) (simp add: fs_fname_def)
qed

lemma node_name_cong:
  assumes "cstr m a n" "length n < 195" "\<And>x. in_range a 304 x \<Longrightarrow> m' x = m x"
  shows "cstr m' a n"
proof (rule cstr_cong [OF assms(1)])
  fix i assume "i \<le> length n"
  then have "i < 195" using assms(2) by simp
  then have "unat (of_nat i :: u64) < 304" by (simp add: unat_of_nat)
  then show "m' (a + of_nat i) = m (a + of_nat i)"
    by (intro assms(3)) (simp add: in_range_def word_less_nat_alt)
qed

lemma nodes_cong:
  assumes "nodes m p ns" "\<forall>x. (\<exists>a\<in>fst ` set ns. in_range a 304 x) \<longrightarrow> m' x = m x"
  shows "nodes m' p ns"
  using assms
proof (induction ns arbitrary: p)
  case (Cons e ns)
  obtain a n where e: "e = (a, n)" by (cases e)
  have n: "length n < 195" "cstr m a n" "nodes m (fs_next m a) ns" using Cons.prems(1) e by auto
  have same: "in_range a 304 x \<Longrightarrow> m' x = m x" for x using Cons.prems(2) e by auto
  have "cstr m' a n" by (rule node_name_cong [OF n(2,1) same])
  moreover have "fs_next m' a = fs_next m a"
    unfolding fs_next_def by (rule cell64.rd_cong) (use same in_range_field [of a 248 8 _ 304] in auto)
  ultimately show ?case using Cons e n by auto
qed simp

section \<open>Scanning a path\<close>

text \<open>Only the buffer of 195 bytes at \<open>b\<close> has changed.\<close>

definition off_buffer :: "u64 \<Rightarrow> memory \<Rightarrow> memory \<Rightarrow> bool" where
  "off_buffer b m m' \<longleftrightarrow> (\<forall>x. \<not> in_range b 195 x \<longrightarrow> m' x = m x)"

lemma off_buffer_refl [simp]: "off_buffer b m m"
  by (simp add: off_buffer_def)

lemma off_buffer_trans: "off_buffer b m m1 \<Longrightarrow> off_buffer b m1 m2 \<Longrightarrow> off_buffer b m m2"
  by (simp add: off_buffer_def)

lemma buffer_cell: "j < 195 \<Longrightarrow> in_range b 195 (b + of_nat j)"
  by (simp add: in_range_def word_less_nat_alt unat_of_nat)

lemma off_buffer_upd: "off_buffer b m m1 \<Longrightarrow> j < 195 \<Longrightarrow> off_buffer b m (m1(b + of_nat j := v))"
  using buffer_cell [of j b] by (auto simp: off_buffer_def)

lemma cstr_nonzero: "cstr m p str \<Longrightarrow> \<forall>c\<in>set str. c \<noteq> 0"
  by (induction str arbitrary: p) auto

lemma of_nat_less_64: "a < b \<Longrightarrow> b < 18446744073709551616 \<Longrightarrow> (of_nat a :: u64) < of_nat b"
  by (simp add: word_less_nat_alt unat_of_nat)

text \<open>A string that lies apart from the buffer.\<close>

definition apart :: "u64 \<Rightarrow> u64 \<Rightarrow> nat \<Rightarrow> bool" where
  "apart b q n \<longleftrightarrow> (\<forall>i\<le>n. \<not> in_range b 195 (q + of_nat i))"

lemma cstr_off_buffer: "cstr m q str \<Longrightarrow> apart b q (length str) \<Longrightarrow> off_buffer b m m' \<Longrightarrow> cstr m' q str"
  by (rule cstr_cong) (auto simp: apart_def off_buffer_def)

text \<open>The first \<open>j\<close> bytes of a string are in the buffer.\<close>

definition prefix_in :: "memory \<Rightarrow> u64 \<Rightarrow> u8 list \<Rightarrow> nat \<Rightarrow> bool" where
  "prefix_in m b str j \<longleftrightarrow> (\<forall>i<j. m (b + of_nat i) = str ! i)"

lemma prefix_in_upd:
  assumes "prefix_in m b str j" "j < 195"
  shows "prefix_in (m(b + of_nat j := str ! j)) b str (Suc j)"
proof -
  have "(of_nat i :: u64) \<noteq> of_nat j" if "i < j" for i
    using that assms(2) of_nat_inj_64 [of i j] by auto
  then show ?thesis using assms(1) by (auto simp: prefix_in_def less_Suc_eq)
qed

lemma prefix_in_cstr:
  assumes "prefix_in m b str (length str)" "\<forall>c\<in>set str. c \<noteq> 0" "length str < 195"
  shows "cstr (m(b + of_nat (length str) := 0)) b str"
proof -
  have "(of_nat i :: u64) \<noteq> of_nat (length str)" if "i < length str" for i
    using that assms(3) of_nat_inj_64 [of i "length str"] by auto
  then show ?thesis using assms(1,2) by (auto simp: cstr_nth prefix_in_def)
qed

lemma scan_folder_spec:
  fixes s :: "'a vfs_state_scheme"
  assumes "cstr (mem s) q (d @ slash # f)" "apart b q (length (d @ slash # f))" "f \<noteq> []" "slash \<notin> set d"
    "length d < 194" "length (d @ slash # f) < 18446744073709551615"
    "prefix_in (mem s) b d i" "i + k = length d"
  shows "\<exists>m. scan_folder s q b (of_nat i) (of_nat i) = Some (Scan_break (of_nat (length d + 1)), s\<lparr>mem := m\<rparr>) \<and>
    off_buffer b (mem s) m \<and> cstr m b d"
  using assms
proof (induction k arbitrary: i s)
  case 0
  let ?str = "d @ slash # f"
  have i: "i = length d" using "0.prems" by simp
  have at: "mem s (q + of_nat j) = ?str ! j" "?str ! j \<noteq> 0" if "j < length ?str" for j
    using "0.prems"(1) that by (auto simp: cstr_nth)
  have "mem s (q + of_nat i) = slash" "mem s (q + (of_nat i + 1)) \<noteq> 0"
    using at [of i] at [of "Suc i"] "0.prems"(3) by (simp_all add: i nth_append add.commute)
  moreover have "(of_nat i :: u64) < of_nat (length ?str)"
    by (rule of_nat_less_64) (use "0.prems"(6) i in simp_all)
  moreover have "\<not> 194 \<le> (of_nat i :: u64)" using "0.prems"(5) i by (simp add: word_le_nat_alt unat_of_nat)
  ultimately have "scan_folder s q b (of_nat i) (of_nat i) =
      Some (Scan_break (of_nat i + 1), s\<lparr>mem := (mem s)(b + of_nat i := 0)\<rparr>)"
    using kstrlen_cstr [OF "0.prems"(1)] by (subst scan_folder.simps) simp
  moreover have "cstr ((mem s)(b + of_nat i := 0)) b d"
    using prefix_in_cstr [of "mem s" b d] cstr_nonzero [OF "0.prems"(1)] "0.prems"(5,7) i by simp
  moreover have "off_buffer b (mem s) ((mem s)(b + of_nat i := 0))"
    by (rule off_buffer_upd) (use "0.prems"(5) i in simp_all)
  ultimately show ?case unfolding i
    by (intro exI [of _ "(mem s)(b + of_nat (length d) := 0)"]) (simp only: of_nat_add of_nat_1 simp_thms)
next
  case (Suc k)
  let ?str = "d @ slash # f"
  have i: "i < length d" using Suc.prems by simp
  have at: "mem s (q + of_nat j) = ?str ! j" "?str ! j \<noteq> 0" if "j < length ?str" for j
    using Suc.prems(1) that by (auto simp: cstr_nth)
  have "d ! i \<noteq> slash" using Suc.prems(4) nth_mem [OF i] by metis
  then have c: "mem s (q + of_nat i) = d ! i" "d ! i \<noteq> slash" "mem s (q + (of_nat i + 1)) \<noteq> 0"
    using at [of i] at [of "Suc i"] i by (simp_all add: nth_append add.commute)
  define s' where "s' = s\<lparr>mem := (mem s)(b + of_nat i := d ! i)\<rparr>"
  have off: "off_buffer b (mem s) (mem s')"
    unfolding s'_def by (simp, rule off_buffer_upd) (use Suc.prems(5) i in simp_all)
  have "(of_nat i :: u64) < of_nat (length ?str)"
    by (rule of_nat_less_64) (use Suc.prems(6) i in simp_all)
  moreover have "\<not> 194 \<le> (of_nat i :: u64)" using Suc.prems(5) i by (simp add: word_le_nat_alt unat_of_nat)
  ultimately have step: "scan_folder s q b (of_nat i) (of_nat i) = scan_folder s' q b (of_nat (Suc i)) (of_nat (Suc i))"
    using kstrlen_cstr [OF Suc.prems(1)] c by (subst scan_folder.simps) (simp add: s'_def add.commute)
  have "\<exists>m. scan_folder s' q b (of_nat (Suc i)) (of_nat (Suc i)) =
      Some (Scan_break (of_nat (length d + 1)), s'\<lparr>mem := m\<rparr>) \<and> off_buffer b (mem s') m \<and> cstr m b d"
  proof (rule Suc.IH)
    show "cstr (mem s') q ?str" using Suc.prems(1,2) off by (rule cstr_off_buffer)
    show "prefix_in (mem s') b d (Suc i)"
      unfolding s'_def by (simp, rule prefix_in_upd) (use Suc.prems i in simp_all)
  qed (use Suc.prems in simp_all)
  then show ?case using step off_buffer_trans [OF off] by (auto simp: s'_def)
qed

lemma scan_file_spec:
  fixes s :: "'a vfs_state_scheme"
  assumes "cstr (mem s) q (d @ f)" "apart b q (length (d @ f))" "slash \<notin> set f"
    "length f < 195" "length (d @ f) < 18446744073709551615"
    "prefix_in (mem s) b f j" "j + k = length f"
  shows "\<exists>m. scan_file s q b (of_nat (length d + j)) (of_nat j) = Some (Some (of_nat (length f)), s\<lparr>mem := m\<rparr>) \<and>
    off_buffer b (mem s) m \<and> prefix_in m b f (length f)"
  using assms
proof (induction k arbitrary: j s)
  case 0
  have "scan_file s q b (of_nat (length d + j)) (of_nat j) = Some (Some (of_nat j), s)"
    using kstrlen_cstr [OF "0.prems"(1)] "0.prems"(7) by (subst scan_file.simps) simp
  then show ?case using "0.prems" by (intro exI [of _ "mem s"]) simp
next
  case (Suc k)
  have j: "j < length f" using Suc.prems by simp
  have "mem s (q + of_nat (length d + j)) = (d @ f) ! (length d + j)"
    using cstr_nth [THEN iffD1, OF Suc.prems(1)] j by (metis add_less_cancel_left length_append)
  moreover have "f ! j \<noteq> slash" using Suc.prems(3) nth_mem [OF j] by metis
  ultimately have c: "mem s (q + of_nat (length d + j)) = f ! j" "f ! j \<noteq> slash" by simp_all
  define s' where "s' = s\<lparr>mem := (mem s)(b + of_nat j := f ! j)\<rparr>"
  have off: "off_buffer b (mem s) (mem s')"
    unfolding s'_def by (simp, rule off_buffer_upd) (use Suc.prems(4) j in simp_all)
  have "(of_nat (length d + j) :: u64) < of_nat (length (d @ f))"
    by (rule of_nat_less_64) (use Suc.prems(5) j in simp_all)
  moreover have "\<not> 194 \<le> (of_nat j :: u64)" using Suc.prems(4) j by (simp add: word_le_nat_alt unat_of_nat)
  ultimately have step: "scan_file s q b (of_nat (length d + j)) (of_nat j) =
      scan_file s' q b (of_nat (length d + Suc j)) (of_nat (Suc j))"
    using kstrlen_cstr [OF Suc.prems(1)] c by (subst scan_file.simps) (simp add: s'_def add.commute add.left_commute)
  have "\<exists>m. scan_file s' q b (of_nat (length d + Suc j)) (of_nat (Suc j)) =
      Some (Some (of_nat (length f)), s'\<lparr>mem := m\<rparr>) \<and> off_buffer b (mem s') m \<and> prefix_in m b f (length f)"
  proof (rule Suc.IH)
    show "cstr (mem s') q (d @ f)" using Suc.prems(1,2) off by (rule cstr_off_buffer)
    show "prefix_in (mem s') b f (Suc j)"
      unfolding s'_def by (simp, rule prefix_in_upd) (use Suc.prems j in simp_all)
  qed (use Suc.prems in simp_all)
  then show ?case using step off_buffer_trans [OF off] by (auto simp: s'_def)
qed

section \<open>Opening\<close>

text \<open>The two-level directory tree that a state holds: mounted folders, and the files of each.\<close>

definition tree :: "memory \<Rightarrow> u64 \<Rightarrow> (u64 \<times> u8 list) list \<Rightarrow> (u64 \<Rightarrow> (u64 \<times> u8 list) list) \<Rightarrow> bool" where
  "tree m root ds fs \<longleftrightarrow> nodes m root ds \<and> (\<forall>a\<in>fst ` set ds. nodes m (fs_children m a) (fs a))"

text \<open>No node overlaps the buffer.\<close>

definition nodes_apart :: "u64 \<Rightarrow> (u64 \<times> u8 list) list \<Rightarrow> bool" where
  "nodes_apart b ns \<longleftrightarrow> (\<forall>a\<in>fst ` set ns. \<forall>x. in_range a 304 x \<longrightarrow> \<not> in_range b 195 x)"

definition tree_apart :: "u64 \<Rightarrow> (u64 \<times> u8 list) list \<Rightarrow> (u64 \<Rightarrow> (u64 \<times> u8 list) list) \<Rightarrow> bool" where
  "tree_apart b ds fs \<longleftrightarrow> nodes_apart b ds \<and> (\<forall>a\<in>fst ` set ds. nodes_apart b (fs a))"

lemma nodes_off_buffer: "nodes m p ns \<Longrightarrow> nodes_apart b ns \<Longrightarrow> off_buffer b m m' \<Longrightarrow> nodes m' p ns"
  by (rule nodes_cong) (auto simp: nodes_apart_def off_buffer_def)

lemma tree_off_buffer:
  assumes "tree m root ds fs" "tree_apart b ds fs" "off_buffer b m m'"
  shows "tree m' root ds fs"
proof -
  have "fs_children m' a = fs_children m a" if "a \<in> fst ` set ds" for a
    unfolding fs_children_def
    by (rule cell64.rd_cong)
      (use assms(2,3) that in_range_field [of a 256 8 _ 304] in \<open>auto simp: tree_apart_def nodes_apart_def off_buffer_def\<close>)
  then show ?thesis
    using assms nodes_off_buffer unfolding tree_def tree_apart_def by metis
qed

lemma find_node_mem: "find_node ns x \<noteq> 0 \<Longrightarrow> (find_node ns x, x) \<in> set ns"
  by (induction ns x rule: find_node.induct) (auto split: if_splits)

text \<open>What \<open>fopen\<close> promises: the node of the file, unless the folder or the file is missing or the
  file is locked.\<close>

definition open_spec ::
    "memory \<Rightarrow> (u64 \<times> u8 list) list \<Rightarrow> (u64 \<Rightarrow> (u64 \<times> u8 list) list) \<Rightarrow> u8 list \<Rightarrow> u8 list \<Rightarrow> u64" where
  "open_spec m ds fs d f =
     (let folder = find_node ds d; file = find_node (fs folder) f
      in if folder = 0 \<or> file = 0 \<or> fs_rlock m file \<noteq> 0 then 0 else file)"

lemma kmemzero_off_buffer: "off_buffer b m (kmemzero m b 195)"
  by (simp add: off_buffer_def kmemzero_closed)

text \<open>A path of two components in memory, apart from the buffer.\<close>

definition path_at :: "memory \<Rightarrow> u64 \<Rightarrow> u64 \<Rightarrow> u8 list \<Rightarrow> u8 list \<Rightarrow> bool" where
  "path_at m b p d f \<longleftrightarrow> cstr m p (slash # d @ slash # f) \<and> apart b (p + 1) (length (d @ slash # f)) \<and>
     slash \<notin> set d \<and> slash \<notin> set f \<and> f \<noteq> [] \<and> length d < 194 \<and> length f < 195"

lemma scan_folder_name:
  fixes s :: "'a vfs_state_scheme"
  assumes path: "path_at (mem s) b p d f" and tree: "tree (mem s) (root_fs s) ds fs" "tree_apart b ds fs"
  obtains m where "scan_folder s (p + 1) b 0 0 = Some (Scan_break (of_nat (length d + 1)), s\<lparr>mem := m\<rparr>)"
    "off_buffer b (mem s) m" "locate_root_folder (s\<lparr>mem := m\<rparr>) b = Some (find_node ds d)"
proof -
  have P: "cstr (mem s) (p + 1) (d @ slash # f)" "apart b (p + 1) (length (d @ slash # f))"
    "slash \<notin> set d" "f \<noteq> []" "length d < 194" "length f < 195"
    using path by (auto simp: path_at_def)
  obtain m where m: "scan_folder s (p + 1) b 0 0 = Some (Scan_break (of_nat (length d + 1)), s\<lparr>mem := m\<rparr>)"
    "off_buffer b (mem s) m" "cstr m b d"
    using scan_folder_spec [of s "p + 1" d f b 0 "length d"] P by (auto simp: prefix_in_def)
  have "locate_root_folder (s\<lparr>mem := m\<rparr>) b = Some (find_node ds d)"
    unfolding locate_root_folder_def
    by (simp, rule locate_loop_nodes)
      (use tree_off_buffer [OF tree m(2)] m(3) P(5) in \<open>simp_all add: tree_def\<close>)
  from that [OF m(1,2) this] show thesis .
qed

lemma parse_path_spec:
  fixes s :: "'a vfs_state_scheme"
  assumes path: "path_at (mem s) b p d f" and tree: "tree (mem s) (root_fs s) ds fs" "tree_apart b ds fs"
    and folder: "folder = find_node ds d" "folder \<noteq> 0"
  obtains m where "off_buffer b (mem s) m" "cstr m b f" "tree m (root_fs s) ds fs"
    "parse_path calls s b p create =
      (let file = find_node (fs folder) f in
       if file = 0 \<and> \<not> create then Some (EXIT_FAILURE, None, None, s\<lparr>mem := m\<rparr>)
       else do {
         (e, s) \<leftarrow> (if create then call_fcreate calls (fs_fcreate m folder) (s\<lparr>mem := m\<rparr>) folder b
                   else Some (EXIT_SUCCESS, s\<lparr>mem := m\<rparr>));
         Some (e, Some folder, Some file, s)
       })"
proof -
  have P: "cstr (mem s) (p + 1) (d @ slash # f)" "mem s p = slash" "apart b (p + 1) (length (d @ slash # f))"
    "slash \<notin> set d" "slash \<notin> set f" "f \<noteq> []" "length d < 194" "length f < 195"
    using path by (auto simp: path_at_def)
  obtain m1 where m1: "scan_folder s (p + 1) b 0 0 = Some (Scan_break (of_nat (length d + 1)), s\<lparr>mem := m1\<rparr>)"
    "off_buffer b (mem s) m1" and l1: "locate_root_folder (s\<lparr>mem := m1\<rparr>) b = Some folder"
    using scan_folder_name [OF assms(1-3)] unfolding folder(1) .
  define m2 where "m2 = kmemzero m1 b 195"
  have o2: "off_buffer b (mem s) m2"
    unfolding m2_def by (rule off_buffer_trans [OF m1(2) kmemzero_off_buffer])
  have str2: "cstr m2 (p + 1) ((d @ [slash]) @ f)"
    using cstr_off_buffer [OF P(1,3) o2] by simp
  obtain m3 where m3: "scan_file (s\<lparr>mem := m2\<rparr>) (p + 1) b (of_nat (length d + 1)) 0 =
      Some (Some (of_nat (length f)), s\<lparr>mem := m3\<rparr>)" "off_buffer b m2 m3" "prefix_in m3 b f (length f)"
    using scan_file_spec [of "s\<lparr>mem := m2\<rparr>" "p + 1" "d @ [slash]" f b 0 "length f"] P str2
    by (auto simp: prefix_in_def)
  define m where "m = m3(b + of_nat (length f) := 0)"
  have o: "off_buffer b (mem s) m"
    unfolding m_def by (rule off_buffer_upd [OF off_buffer_trans [OF o2 m3(2)] P(8)])
  have nz: "\<forall>c\<in>set f. c \<noteq> 0" using cstr_nonzero [OF P(1)] by simp
  have cf: "cstr m b f" unfolding m_def by (rule prefix_in_cstr [OF m3(3) nz P(8)])
  have t: "tree m (root_fs s) ds fs" by (rule tree_off_buffer [OF tree o])
  have mem: "folder \<in> fst ` set ds" using find_node_mem [of ds d] folder by force
  have l2: "locate_file (s\<lparr>mem := m\<rparr>) folder b = Some (find_node (fs folder) f)"
    unfolding locate_file_def
    by (simp, rule locate_loop_nodes) (use t mem cf P(8) in \<open>auto simp: tree_def\<close>)
  show ?thesis
    using P(2) m1(1) l1 folder(2) m3(1) l2
    by (intro that [OF o cf t]) (simp add: parse_path_def Let_def m_def flip: m2_def)
qed


lemma parse_path_no_folder:
  fixes s :: "'a vfs_state_scheme"
  assumes path: "path_at (mem s) b p d f" and tree: "tree (mem s) (root_fs s) ds fs" "tree_apart b ds fs"
    and folder: "find_node ds d = 0"
  obtains m where "off_buffer b (mem s) m"
    "parse_path calls s b p create = Some (EXIT_FAILURE, None, None, s\<lparr>mem := m\<rparr>)"
proof -
  have "mem s p = slash" using path by (simp add: path_at_def)
  then show thesis
    by (rule_tac scan_folder_name [OF assms(1-3)], rule_tac that) (simp_all add: parse_path_def Let_def folder)
qed

text \<open>A path of one component: the scan stops one byte early, so the last byte is not part of the
  name, and only the folder is reported.\<close>

lemma scan_single:
  fixes s :: "'a vfs_state_scheme"
  assumes "cstr (mem s) q (d @ [c])" "apart b q (length (d @ [c]))" "slash \<notin> set d" "length d < 194"
    "prefix_in (mem s) b d i" "i + k = length d"
  shows "\<exists>m. off_buffer b (mem s) m \<and> cstr m b d \<and>
    scan_folder s q b (of_nat i) (of_nat i) =
      map_option (\<lambda>folder. (Scan_folder folder, s\<lparr>mem := m\<rparr>)) (locate_root_folder (s\<lparr>mem := m\<rparr>) b)"
  using assms
proof (induction k arbitrary: i s)
  case 0
  let ?str = "d @ [c]"
  have i: "i = length d" using "0.prems" by simp
  have "mem s (q + (of_nat i + 1)) = 0" using "0.prems"(1) by (simp add: cstr_nth i add.commute)
  moreover have "(of_nat i :: u64) < of_nat (length ?str)"
    by (rule of_nat_less_64) (use "0.prems"(4) i in simp_all)
  moreover have "\<not> 194 \<le> (of_nat i :: u64)" using "0.prems"(4) i by (simp add: word_le_nat_alt unat_of_nat)
  ultimately have "scan_folder s q b (of_nat i) (of_nat i) =
      map_option (\<lambda>folder. (Scan_folder folder, s\<lparr>mem := (mem s)(b + of_nat i := 0)\<rparr>))
        (locate_root_folder (s\<lparr>mem := (mem s)(b + of_nat i := 0)\<rparr>) b)"
    using kstrlen_cstr [OF "0.prems"(1)]
    by (subst scan_folder.simps)
      (simp add: Let_def map_option_case split: option.split)
  moreover have "cstr ((mem s)(b + of_nat i := 0)) b d"
    using prefix_in_cstr [of "mem s" b d] cstr_nonzero [OF "0.prems"(1)] "0.prems"(4,5) i by simp
  moreover have "off_buffer b (mem s) ((mem s)(b + of_nat i := 0))"
    by (rule off_buffer_upd) (use "0.prems"(4) i in simp_all)
  ultimately show ?case by blast
next
  case (Suc k)
  let ?str = "d @ [c]"
  have i: "i < length d" using Suc.prems by simp
  have at: "mem s (q + of_nat j) = ?str ! j" "?str ! j \<noteq> 0" if "j < length ?str" for j
    using Suc.prems(1) that by (auto simp: cstr_nth)
  have "d ! i \<noteq> slash" using Suc.prems(3) nth_mem [OF i] by metis
  then have c: "mem s (q + of_nat i) = d ! i" "d ! i \<noteq> slash" "mem s (q + (of_nat i + 1)) \<noteq> 0"
    using at [of i] at [of "Suc i"] i by (simp_all add: nth_append add.commute)
  define s' where "s' = s\<lparr>mem := (mem s)(b + of_nat i := d ! i)\<rparr>"
  have off: "off_buffer b (mem s) (mem s')"
    unfolding s'_def by (simp, rule off_buffer_upd) (use Suc.prems(4) i in simp_all)
  have "(of_nat i :: u64) < of_nat (length ?str)"
    by (rule of_nat_less_64) (use Suc.prems(4) i in simp_all)
  moreover have "\<not> 194 \<le> (of_nat i :: u64)" using Suc.prems(4) i by (simp add: word_le_nat_alt unat_of_nat)
  ultimately have step: "scan_folder s q b (of_nat i) (of_nat i) = scan_folder s' q b (of_nat (Suc i)) (of_nat (Suc i))"
    using kstrlen_cstr [OF Suc.prems(1)] c by (subst scan_folder.simps) (simp add: s'_def add.commute)
  have "\<exists>m. off_buffer b (mem s') m \<and> cstr m b d \<and>
    scan_folder s' q b (of_nat (Suc i)) (of_nat (Suc i)) =
      map_option (\<lambda>folder. (Scan_folder folder, s'\<lparr>mem := m\<rparr>)) (locate_root_folder (s'\<lparr>mem := m\<rparr>) b)"
  proof (rule Suc.IH)
    show "cstr (mem s') q ?str" using Suc.prems(1,2) off by (rule cstr_off_buffer)
    show "prefix_in (mem s') b d (Suc i)"
      unfolding s'_def by (simp, rule prefix_in_upd) (use Suc.prems i in simp_all)
  qed (use Suc.prems in simp_all)
  then show ?case using step off_buffer_trans [OF off] by (auto simp: s'_def)
qed

section \<open>Mounting\<close>

definition node_apart :: "u64 \<Rightarrow> u64 \<Rightarrow> bool" where
  "node_apart a b \<longleftrightarrow> (\<forall>x. in_range a 304 x \<longrightarrow> \<not> in_range b 304 x)"

lemma node_field: "unat d + unat k \<le> 304 \<Longrightarrow> in_range (a + d) k x \<Longrightarrow> in_range a 304 x"
  using in_range_field [of a d k x 304] by simp

text \<open>Linking a new node behind the last one.\<close>

lemma nodes_link:
  assumes "nodes m p (ns @ [(a, name)])" "nodes m' c [(c, new)]"
    "fs_next m' a = c" "cstr m' a name"
    "\<forall>x. (\<exists>k\<in>fst ` set ns. in_range k 304 x) \<longrightarrow> m' x = m x"
  shows "nodes m' p (ns @ [(a, name), (c, new)])"
  using assms(1,5)
proof (induction ns arbitrary: p)
  case Nil
  then show ?case using assms(2-4) by simp
next
  case (Cons e ns)
  obtain k n where e: "e = (k, n)" by (cases e)
  have same: "in_range k 304 x \<Longrightarrow> m' x = m x" for x using Cons.prems(2) e by auto
  have k: "p = k" "k \<noteq> 0" "length n < 195" "cstr m k n"
    "nodes m (fs_next m k) (ns @ [(a, name)])" using Cons.prems(1) e by auto
  have "fs_next m' k = fs_next m k"
    unfolding fs_next_def by (rule cell64.rd_cong) (use same node_field [of 248 8 k] in auto)
  moreover have "cstr m' k n" by (rule node_name_cong [OF k(4,3) same])
  ultimately show ?case using Cons.IH [OF k(5)] Cons.prems(2) k e by auto
qed

lemma nodes_last: "nodes m p (ns @ [(a, n)]) \<Longrightarrow> length n < 195 \<and> cstr m a n"
proof (induction ns arbitrary: p)
  case (Cons e ns)
  then show ?case by (cases e) auto
qed simp

lemma name_not_field:
  assumes "i < 195" "195 \<le> unat d" "unat d + unat k \<le> 304"
  shows "\<not> in_range (a + d) k (a + of_nat i)"
proof -
  have i: "unat (of_nat i :: u64) = i" using assms(1) by (simp add: unat_of_nat)
  have "\<not> unat d \<le> unat (of_nat i :: u64)" using i assms by simp
  then have "unat (of_nat i - d) = i + 18446744073709551616 - unat d"
    using unat_sub_if' [of "of_nat i" d] i by simp
  then have "\<not> of_nat i - d < k" using assms by (simp add: word_less_nat_alt)
  then show ?thesis by (simp add: in_range_def)
qed

lemma mount_filesystem_links:
  assumes "nodes (mem s) (root_fs s) (ns @ [(vfs_head s, name)])"
    "\<forall>k\<in>insert c (fst ` set ns). node_apart (vfs_head s) k"
    "\<forall>k\<in>insert (vfs_head s) (fst ` set ns). node_apart c k"
    "c \<noteq> 0" "cstr (mem s) c new" "length new < 195"
  defines "s' \<equiv> mount_filesystem s c"
  shows "nodes (mem s') (root_fs s') (ns @ [(vfs_head s, name), (c, new)])" "vfs_head s' = c"
proof -
  define h where "h = vfs_head s"
  define m1 where "m1 = set_next h c (set_fid c (next_fid s) (mem s))"
  have h': "vfs_head s' = c" "mem s' = set_next c 0 m1" "root_fs s' = root_fs s"
    by (simp_all add: s'_def mount_filesystem_def Let_def m1_def h_def fs_next_def set_next_def cell64.rd_wr_same)
  have out: "mem s' x = mem s x" if x: "\<not> in_range (h + 248) 8 x" "\<not> in_range (c + 208) 8 x" "\<not> in_range (c + 248) 8 x" for x
    using x by (simp add: h'(2) m1_def set_next_def set_fid_def cell64.wr_outside)
  have inh: "in_range (h + 248) 8 x \<Longrightarrow> in_range h 304 x" and inc: "in_range (c + 248) 8 x \<Longrightarrow> in_range c 304 x"
    "in_range (c + 208) 8 x \<Longrightarrow> in_range c 304 x" for x
    using node_field [of 248 8 h x] node_field [of 248 8 c x] node_field [of 208 8 c x] by simp_all
  have keep: "mem s' x = mem s x" if "in_range k 304 x" "k \<in> fst ` set ns" for k x
    using that assms(2,3) inh inc by (intro out) (auto simp: node_apart_def h_def)
  have hn: "nodes (mem s) (root_fs s) (ns @ [(h, name)])" using assms(1) by (simp add: h_def)
  have last: "length name < 195" "cstr (mem s) h name"
    using nodes_last [OF hn] by simp_all
  have low: "mem s' (a + of_nat i) = mem s (a + of_nat i)" if "i < 195" "a = h \<or> a = c" for a i
  proof (rule out)
    have "in_range a 304 (a + of_nat i)" using that(1) by (simp add: in_range_def word_less_nat_alt unat_of_nat)
    then show "\<not> in_range (h + 248) 8 (a + of_nat i)" "\<not> in_range (c + 208) 8 (a + of_nat i)"
      "\<not> in_range (c + 248) 8 (a + of_nat i)"
      using that assms(2,3) inh inc name_not_field [OF that(1)] by (auto simp: node_apart_def h_def)
  qed
  have ch: "cstr (mem s') h name"
    by (rule cstr_cong [OF last(2)]) (use low last(1) in simp)
  have cc: "cstr (mem s') c new"
    by (rule cstr_cong [OF assms(5)]) (use low assms(6) in simp)
  have nx: "fs_next (mem s') c = 0" by (simp add: h'(2) fs_next_def set_next_def cell64.rd_wr_same)
  have nh: "fs_next (mem s') h = c"
  proof -
    have "fs_next (mem s') h = fs_next m1 h"
      unfolding fs_next_def h'(2)
      by (rule cell64.rd_cong) (use assms(2) inh inc in \<open>auto simp: set_next_def node_apart_def h_def intro!: cell64.wr_outside\<close>)
    then show ?thesis by (simp add: m1_def fs_next_def set_next_def cell64.rd_wr_same)
  qed
  show "vfs_head s' = c" by (rule h'(1))
  show "nodes (mem s') (root_fs s') (ns @ [(vfs_head s, name), (c, new)])"
    unfolding h'(3) h_def [symmetric]
    by (rule nodes_link [OF hn _ nh ch]) (use keep cc nx assms(4,6) in auto)
qed

section \<open>The contract of a file system\<close>

text \<open>The list of mounted folders belongs to the virtual file system: no callback may touch the
  pointers to it.\<close>

definition mounts_kept :: "'a vfs_state_scheme \<Rightarrow> 'a vfs_state_scheme \<Rightarrow> bool" where
  "mounts_kept s s' \<longleftrightarrow> root_fs s' = root_fs s \<and> vfs_head s' = vfs_head s \<and> next_fid s' = next_fid s"

lemma mounts_kept_mem [simp]: "mounts_kept s (s\<lparr>mem := m\<rparr>)"
  by (simp add: mounts_kept_def)

lemma mounts_kept_mem_left [simp]: "mounts_kept (s\<lparr>mem := m\<rparr>) t \<longleftrightarrow> mounts_kept s t"
  by (simp add: mounts_kept_def)

lemma mounts_kept_refl [simp]: "mounts_kept s s"
  by (simp add: mounts_kept_def)

lemma mounts_kept_trans: "mounts_kept s t \<Longrightarrow> mounts_kept t u \<Longrightarrow> mounts_kept s u"
  by (simp add: mounts_kept_def)

locale filesystem =
  fixes calls :: "'a fs_calls"
  assumes read_keeps: "call_read calls p s node buf len = Some (e, s') \<Longrightarrow> mounts_kept s s'"
    and write_keeps: "call_write calls p s node buf len = Some (e, s') \<Longrightarrow> mounts_kept s s'"
    and fcreate_keeps: "call_fcreate calls p s node name = Some (e, s') \<Longrightarrow> mounts_kept s s'"
begin

lemma fread_keeps: "fread calls s fp buf len = Some (e, s') \<Longrightarrow> mounts_kept s s'"
  unfolding fread_def by (rule read_keeps)

lemma fwrite_keeps: "fwrite calls s fp buf len = Some (e, s') \<Longrightarrow> mounts_kept s s'"
  unfolding fwrite_def by (rule write_keeps)

end

lemma scan_folder_keeps:
  assumes "scan_folder s path fname i j = Some r"
  shows "mounts_kept s (snd r)"
proof -
  have "mounts_kept s (snd y)" if "scan_folder s path fname i j = Some y" for y
  proof (rule scan_folder.raw_induct [OF _ that, of "\<lambda>s _ _ _ _ y. mounts_kept s (snd y)"])
    fix loop and s :: "'a vfs_state_scheme" and path fname i j y
    assume IH: "\<And>s path fname i j y. loop s path fname i j = Some y \<Longrightarrow> mounts_kept s (snd y)"
      and step: "(do {
     len \<leftarrow> kstrlen (mem s) path;
     if i < len then
       (if 194 \<le> j then Some (Scan_fail, s)
        else if mem s (path + i) = slash \<and> mem s (path + (i + 1)) \<noteq> 0 then
          Some (Scan_break (i + 1), s\<lparr>mem := (mem s)(fname + j := 0)\<rparr>)
        else if mem s (path + (i + 1)) = 0 then do {
          let s = s\<lparr>mem := (mem s)(fname + j := 0)\<rparr>;
          folder \<leftarrow> locate_root_folder s fname;
          Some (Scan_folder folder, s)
        }
        else loop (s\<lparr>mem := (mem s)(fname + j := mem s (path + i))\<rparr>) path fname (i + 1) (j + 1))
     else Some (Scan_break i, s)
   }) = Some y"
    show "mounts_kept s (snd y)"
      using step by (auto simp: Let_def split: bind_splits if_splits dest!: IH)
  qed
  from this [OF assms] show ?thesis .
qed

lemma scan_file_keeps:
  assumes "scan_file s path fname i j = Some r"
  shows "mounts_kept s (snd r)"
proof -
  have "mounts_kept s (snd y)" if "scan_file s path fname i j = Some y" for y
  proof (rule scan_file.raw_induct [OF _ that, of "\<lambda>s _ _ _ _ y. mounts_kept s (snd y)"])
    fix loop and s :: "'a vfs_state_scheme" and path fname i j y
    assume IH: "\<And>s path fname i j y. loop s path fname i j = Some y \<Longrightarrow> mounts_kept s (snd y)"
      and step: "(do {
     len \<leftarrow> kstrlen (mem s) path;
     if i < len then
       (if mem s (path + i) = slash then Some (None, s)
        else if 194 \<le> j then Some (None, s)
        else loop (s\<lparr>mem := (mem s)(fname + j := mem s (path + i))\<rparr>) path fname (i + 1) (j + 1))
     else Some (Some j, s)
   }) = Some y"
    show "mounts_kept s (snd y)"
      using step by (auto split: bind_splits if_splits dest!: IH)
  qed
  from this [OF assms] show ?thesis .
qed

context filesystem
begin

lemma parse_path_keeps:
  assumes "parse_path calls s fname path create = Some (e, d, f, s')"
  shows "mounts_kept s s'"
proof (cases "mem s path = slash")
  case True
  then obtain r s1 where s1: "scan_folder s (path + 1) fname 0 0 = Some (r, s1)"
    using assms by (auto simp: parse_path_def Let_def split: bind_splits)
  note k1 = scan_folder_keeps [OF s1, simplified]
  show ?thesis
    using assms True s1 k1
    by (auto simp: parse_path_def Let_def split: bind_splits if_splits scan.splits option.splits
        dest!: scan_file_keeps fcreate_keeps) (simp_all add: mounts_kept_def)
qed (use assms in \<open>auto simp: parse_path_def mounts_kept_def\<close>)

lemma vfs_fcreate_keeps: "fcreate calls s fname path = Some (e, s') \<Longrightarrow> mounts_kept s s'"
  by (auto simp: fcreate_def split: bind_splits dest: parse_path_keeps)

lemma fopen_keeps: "fopen calls s fname junk path = Some (f, s') \<Longrightarrow> mounts_kept s s'"
  by (auto simp: fopen_def Let_def split: bind_splits if_splits dest: parse_path_keeps)

end

section \<open>A concrete tree\<close>

text \<open>A folder \<open>tmp\<close> at \<open>0x1000\<close> with a file \<open>a\<close> at \<open>0x2000\<close>, and the path \<open>/tmp/a\<close> at \<open>0x3000\<close>; at
  \<open>0x5000\<close> an unmounted node \<open>b\<close>, at \<open>0x6000\<close> the path \<open>/tmpx\<close>.\<close>

definition demo_mem :: memory where
  "demo_mem = st64 ((\<lambda>_. 0)(0x1000 := 0x74, 0x1001 := 0x6D, 0x1002 := 0x70, 0x2000 := 0x61, 0x3000 := 0x2F,
     0x3001 := 0x74, 0x3002 := 0x6D, 0x3003 := 0x70, 0x3004 := 0x2F, 0x3005 := 0x61, 0x5000 := 0x62, 0x6000 := 0x2F,
     0x6001 := 0x74, 0x6002 := 0x6D, 0x6003 := 0x70, 0x6004 := 0x78)) 0x1100 0x2000"

definition demo_fs :: vfs_state where
  "demo_fs = \<lparr>mem = demo_mem, hhdm = 0xFFFF800000000000, memmap = [], bitmap = 0, usable_pages = 0, bitmap_size = 0,
     highest_addr = 0, root_pagemap = 0, cr3 = 0, tlb_flushes = [], heap_head = 0, heap_tail = 0, heap_size = 0,
     bytes_allocated = 0, modules = [], initrd = 0, initrd_size = 0, root_fs = 0x1000, vfs_head = 0x1000, next_fid = 1\<rparr>"

definition no_calls :: "unit fs_calls" where
  "no_calls = \<lparr>call_read = (\<lambda>_ _ _ _ _. None), call_write = (\<lambda>_ _ _ _ _. None), call_fcreate = (\<lambda>_ s _ _. Some (0, s))\<rparr>"

lemma demo_fields [simp]: "mem demo_fs = demo_mem" "root_fs demo_fs = 0x1000" "vfs_head demo_fs = 0x1000"
  by (simp_all add: demo_fs_def)

lemma demo_next: "fs_next demo_mem 0x1000 = 0" "fs_next demo_mem 0x2000 = 0" "fs_children demo_mem 0x1000 = 0x2000"
proof -
  have z: "demo_mem x = 0" if "in_range 0x10F8 8 x \<or> in_range 0x20F8 8 x" for x
  proof -
    have "\<not> in_range 0x1100 8 x" "unat x \<ge> 0x10F8" "unat x < 0x2100"
      using that by (auto simp: in_range_linear)
    moreover have "x \<noteq> 0x2000" using that by (auto simp: in_range_linear)
    ultimately show ?thesis by (auto simp: demo_mem_def cell64.wr_outside)
  qed
  show "fs_next demo_mem 0x1000 = 0" "fs_next demo_mem 0x2000 = 0"
    unfolding fs_next_def by (rule ld64_zero; use z in simp)+
  show "fs_children demo_mem 0x1000 = 0x2000"
    by (simp add: fs_children_def demo_mem_def cell64.rd_wr_same)
qed

lemma demo_tree: "tree demo_mem 0x1000 [(0x1000, [0x74, 0x6D, 0x70])] (\<lambda>_. [(0x2000, [0x61])])"
  using demo_next by (simp add: tree_def) (simp add: demo_mem_def cell64.wr_outside in_range_def)

lemma demo_apart: "tree_apart 0x4000 [(0x1000, [0x74, 0x6D, 0x70])] (\<lambda>_. [(0x2000, [0x61])])"
  by (auto simp: tree_apart_def nodes_apart_def in_range_linear)

lemma demo_path: "path_at demo_mem 0x4000 0x3000 [0x74, 0x6D, 0x70] [0x61]"
proof -
  have "apart 0x4000 0x3001 (Suc (Suc (Suc (Suc (Suc 0)))))"
    by (auto simp: apart_def in_range_linear unat_word_ariths unat_of_nat)
  then show ?thesis
    by (simp add: path_at_def) (simp add: demo_mem_def cell64.wr_outside in_range_def)
qed

section \<open>Properties\<close>



text \<open>Creating \<open>/d/f\<close> calls the callback of the folder \<open>d\<close> with the name \<open>f\<close> in the buffer and
  returns its result, whether or not a file of that name exists.\<close>

theorem fcreate_correct:
  assumes "path_at (mem s) b p d f" "tree (mem s) (root_fs s) ds fs" "tree_apart b ds fs" "find_node ds d \<noteq> 0"
  shows "\<exists>m. off_buffer b (mem s) m \<and> cstr m b f \<and> tree m (root_fs s) ds fs \<and>
    fcreate calls s b p =
      call_fcreate calls (fs_fcreate m (find_node ds d)) (s\<lparr>mem := m\<rparr>) (find_node ds d) b"
  by (rule parse_path_spec [OF assms(1-3) refl assms(4), of calls True])
    (auto simp: fcreate_def Let_def split: bind_splits)

lemma fcreate_correct_witness: "\<exists>m. fcreate no_calls demo_fs 0x4000 0x3000 = Some (0, demo_fs\<lparr>mem := m\<rparr>)"
  using fcreate_correct [of demo_fs "0x4000" "0x3000" "[0x74, 0x6D, 0x70]" "[0x61]" "[(0x1000, [0x74, 0x6D, 0x70])]"
      "\<lambda>_. [(0x2000, [0x61])]" no_calls] demo_path demo_tree demo_apart
  by (auto simp: no_calls_def)

text \<open>Opening a path of one component, such as \<open>/tmp\<close>, looks up the name without its last byte
  and then returns the uninitialised variable \<open>file\<close> unless that is 0 or looks locked.\<close>

theorem fopen_folder_junk:
  assumes "cstr (mem s) p (slash # d @ [c])" "apart b (p + 1) (length (d @ [c]))" "slash \<notin> set d" "length d < 194"
    "tree (mem s) (root_fs s) ds fs" "tree_apart b ds fs"
  shows "\<exists>m. off_buffer b (mem s) m \<and> locate_root_folder (s\<lparr>mem := m\<rparr>) b = Some (find_node ds d) \<and>
    fopen calls s b junk p = Some (if junk = 0 \<or> fs_rlock m junk \<noteq> 0 then 0 else junk, s\<lparr>mem := m\<rparr>)"
proof -
  have q: "cstr (mem s) (p + 1) (d @ [c])" "mem s p = slash" using assms(1) by simp_all
  obtain m where m: "off_buffer b (mem s) m" "cstr m b d"
    "scan_folder s (p + 1) b 0 0 =
      map_option (\<lambda>folder. (Scan_folder folder, s\<lparr>mem := m\<rparr>)) (locate_root_folder (s\<lparr>mem := m\<rparr>) b)"
    using scan_single [OF q(1) assms(2-4), of 0 "length d"] by (auto simp: prefix_in_def)
  have l: "locate_root_folder (s\<lparr>mem := m\<rparr>) b = Some (find_node ds d)"
    unfolding locate_root_folder_def
    by (simp, rule locate_loop_nodes)
      (use tree_off_buffer [OF assms(5,6) m(1)] m(2) assms(4) in \<open>simp_all add: tree_def\<close>)
  have "fopen calls s b junk p = Some (if junk = 0 \<or> fs_rlock m junk \<noteq> 0 then 0 else junk, s\<lparr>mem := m\<rparr>)"
    using m(3) l q(2)
    by (simp add: fopen_def parse_path_def Let_def word_le_nat_alt unat_gt_0 Suc_le_eq)
  with m(1) l show ?thesis by blast
qed

lemma fopen_folder_junk_witness:
  "\<exists>m. locate_root_folder (demo_fs\<lparr>mem := m\<rparr>) 0x4000 = Some 0x1000 \<and>
     fopen no_calls demo_fs 0x4000 0 0x6000 = Some (0, demo_fs\<lparr>mem := m\<rparr>)"
proof -
  have "cstr demo_mem 0x6000 (slash # [0x74, 0x6D, 0x70] @ [0x78])"
    by (simp add: demo_mem_def cell64.wr_outside in_range_def)
  moreover have "apart 0x4000 (0x6000 + 1) (length ([0x74, 0x6D, 0x70] @ [0x78 :: u8]))"
    by (auto simp: apart_def in_range_linear unat_word_ariths unat_of_nat)
  ultimately show ?thesis
    using fopen_folder_junk [of demo_fs "0x6000" "[0x74, 0x6D, 0x70]" "0x78" "0x4000" "[(0x1000, [0x74, 0x6D, 0x70])]"
        "\<lambda>_. [(0x2000, [0x61])]" no_calls 0] demo_tree demo_apart
    by auto
qed

text \<open>Mounting a file system appends its root folder to the list of root folders: all earlier
  folders keep their place and names.\<close>

theorem mount_filesystem_correct:
  assumes "nodes (mem s) (root_fs s) (ns @ [(vfs_head s, name)])"
    "\<forall>k\<in>insert c (fst ` set ns). node_apart (vfs_head s) k"
    "\<forall>k\<in>insert (vfs_head s) (fst ` set ns). node_apart c k"
    "c \<noteq> 0" "cstr (mem s) c new" "length new < 195"
  shows "nodes (mem (mount_filesystem s c)) (root_fs (mount_filesystem s c)) (ns @ [(vfs_head s, name), (c, new)]) \<and>
    vfs_head (mount_filesystem s c) = c"
  using mount_filesystem_links [OF assms] by blast

lemma mount_filesystem_correct_witness:
  "nodes (mem (mount_filesystem demo_fs 0x5000)) 0x1000 [(0x1000, [0x74, 0x6D, 0x70]), (0x5000, [0x62])]"
proof -
  have "nodes (mem demo_fs) (root_fs demo_fs) ([] @ [(vfs_head demo_fs, [0x74, 0x6D, 0x70])])"
    using demo_tree by (simp add: tree_def)
  moreover have "cstr demo_mem 0x5000 [0x62]" by (simp add: demo_mem_def cell64.wr_outside in_range_def)
  moreover have "node_apart 0x1000 0x5000" "node_apart 0x5000 0x1000" by (auto simp: node_apart_def in_range_linear)
  moreover have "root_fs (mount_filesystem demo_fs 0x5000) = 0x1000" by (simp add: mount_filesystem_def)
  ultimately show ?thesis
    using mount_filesystem_correct [of demo_fs "[]" "[0x74, 0x6D, 0x70]" "0x5000" "[0x62]"] by simp
qed

end
