(* ===== verification/Tmpfs.thy ===== *)
theory Tmpfs
  imports Vfs
begin

text \<open>
  \<open>sys/src/fs/tmpfs.c\<close>: the file system in memory that is mounted at \<open>/tmp\<close>.  The pool begins
  with a superblock, followed by file records (\<open>filename\<close> at offset 0, \<open>data_start\<close> at 8); the data
  of a file is a heap block.

  The addresses of the three callbacks are chosen by the linker: they are the parameter \<open>code\<close>.
  \<open>dirname\<close> is the address of the literal \<open>tmp\<close>.  A failed assertion stops the processor (\<open>None\<close>).
\<close>

section \<open>State and callbacks\<close>

record tmpfs_state = vfs_state +
  fs_base :: u64
  mpool :: u64
  mpool_idx :: u64

record tmpfs_code =
  at_read :: u64
  at_write :: u64
  at_fcreate :: u64

abbreviation TMPFS_BLOCK_SIZE :: u64 where "TMPFS_BLOCK_SIZE \<equiv> 50"
abbreviation TMPFS_POOL_N_PAGES :: u64 where "TMPFS_POOL_N_PAGES \<equiv> 1"
abbreviation sizeof_superblock :: u64 where "sizeof_superblock \<equiv> 24"

definition file_data :: "memory \<Rightarrow> u64 \<Rightarrow> u64" where "file_data m file = ld64 m (file + 8)"
definition set_file_data :: "u64 \<Rightarrow> u64 \<Rightarrow> memory \<Rightarrow> memory" where "set_file_data file v m = st64 m (file + 8) v"

text \<open>\<open>data_start\<close> is read again on every round.\<close>

function tmpfs_read_loop :: "memory \<Rightarrow> u64 \<Rightarrow> u64 \<Rightarrow> u64 \<Rightarrow> u64 \<Rightarrow> memory" where
  "tmpfs_read_loop m buf file len i =
     (if i < len then tmpfs_read_loop (m(buf + i := m (file_data m file + i))) buf file len (i + 1) else m)"
  by pat_completeness auto
termination
  by (relation "measure (\<lambda>(m, buf, file, len, i). unat (len - i))") (auto intro: loop_measure)

declare tmpfs_read_loop.simps [simp del]

definition tmpfs_read :: "'a tmpfs_state_scheme \<Rightarrow> u64 \<Rightarrow> u64 \<Rightarrow> u64 \<Rightarrow> u16 \<times> 'a tmpfs_state_scheme" where
  "tmpfs_read s this buf len =
     (let file = mpool s + fs_fidx (mem s) this in
      if file = 0 then (- ENOENT, s)
      else (EXIT_SUCCESS, s\<lparr>mem := tmpfs_read_loop (mem s) buf file len 0\<rparr>))"

text \<open>The bound \<open>_this->fd.off + len\<close> is evaluated on every round.\<close>

partial_function (option) tmpfs_write_loop ::
    "memory \<Rightarrow> u64 \<Rightarrow> u64 \<Rightarrow> u64 \<Rightarrow> u64 \<Rightarrow> u64 \<Rightarrow> u64 \<Rightarrow> memory option" where
  "tmpfs_write_loop m this file buf len i bufidx =
     (if i < fs_off m this + len then
        tmpfs_write_loop (m(file_data m file + i := m (buf + bufidx))) this file buf len (i + 1) (bufidx + 1)
      else Some m)"

definition tmpfs_write :: "'a tmpfs_state_scheme \<Rightarrow> u64 \<Rightarrow> u64 \<Rightarrow> u64 \<Rightarrow> (u16 \<times> 'a tmpfs_state_scheme) option" where
  "tmpfs_write s this buf len = do {
     let file = mpool s + fs_fidx (mem s) this;
     (p, s) \<leftarrow> krealloc s (file_data (mem s) file) (fs_len (mem s) this + len + 1);
     let s = s\<lparr>mem := set_file_data file p (mem s)\<rparr>;
     m \<leftarrow> tmpfs_write_loop (mem s) this file buf len (fs_off (mem s) this) 0;
     let m = set_off this (fs_off m this + len) m;
     let m = set_len this (fs_len m this + len) m;
     let m = m(file_data m file + (fs_len m this - 1) := FS_EOF);
     Some (EXIT_SUCCESS, s\<lparr>mem := m\<rparr>)
   }"

text \<open>Without the terminating NUL of the name.\<close>

definition init_node ::
    "tmpfs_code \<Rightarrow> 'a tmpfs_state_scheme \<Rightarrow> u64 \<Rightarrow> u64 \<Rightarrow> u64 \<Rightarrow> u64 \<Rightarrow> 'a tmpfs_state_scheme option" where
  "init_node code s parent node name len = do {
     n \<leftarrow> kstrlen (mem s) name;
     let s = s\<lparr>mem := kmemcpy (mem s) (fs_fname node) name n\<rparr>;
     Some (s\<lparr>mem := (set_parent node parent \<circ> set_fcreate node 0 \<circ> set_write node (at_write code) \<circ>
       set_read node (at_read code) \<circ> set_n_children node 0 \<circ> set_children node 0 \<circ> set_next node 0 \<circ>
       set_off node 0 \<circ> set_rlock node 0 \<circ> set_flags node FS_FILE \<circ> set_len node len \<circ> set_fid node 0 \<circ>
       set_fidx node (mpool_idx s)) (mem s)\<rparr>)
   }"

partial_function (option) last_child :: "memory \<Rightarrow> u64 \<Rightarrow> u32 \<Rightarrow> u64 \<Rightarrow> u64 option" where
  "last_child m this i child =
     (if ucast i < fs_n_children m this \<and> child \<noteq> 0 then last_child m this (i + 1) (fs_next m child)
      else Some child)"

definition tmpfs_fcreate ::
    "tmpfs_code \<Rightarrow> 'a tmpfs_state_scheme \<Rightarrow> u64 \<Rightarrow> u64 \<Rightarrow> (u16 \<times> 'a tmpfs_state_scheme) option" where
  "tmpfs_fcreate code s this name = do {
     let file_slot = mpool s + mpool_idx s;
     (p, s) \<leftarrow> kmalloc s 1;
     let s = s\<lparr>mem := set_file_data file_slot p (mem s)\<rparr>;
     let s = s\<lparr>mem := (mem s)(file_data (mem s) file_slot := FS_EOF)\<rparr>;
     child_base \<leftarrow> last_child (mem s) this 0 (fs_children (mem s) this);
     s \<leftarrow> (if 0 < fs_n_children (mem s) this then do {
             (n, s) \<leftarrow> kmalloc s sizeof_fsnode;
             let s = s\<lparr>mem := set_next child_base n (mem s)\<rparr>;
             init_node code s this (fs_next (mem s) child_base) name 1
           } else do {
             (n, s) \<leftarrow> kmalloc s sizeof_fsnode;
             let s = s\<lparr>mem := set_children this n (mem s)\<rparr>;
             init_node code s this (fs_children (mem s) this) name 1
           });
     Some (EXIT_SUCCESS, s)
   }"

text \<open>A call through a callback field reaches the function whose address it holds; any other
  address (NULL for a file's \<open>fcreate\<close>) does not return.\<close>

definition tmpfs_calls :: "tmpfs_code \<Rightarrow> 'a tmpfs_state_ext fs_calls" where
  "tmpfs_calls code =
     \<lparr>call_read = (\<lambda>p s this buf len. if p = at_read code then Some (tmpfs_read s this buf len) else None),
      call_write = (\<lambda>p s this buf len. if p = at_write code then tmpfs_write s this buf len else None),
      call_fcreate = (\<lambda>p s this name. if p = at_fcreate code then tmpfs_fcreate code s this name else None)\<rparr>"

section \<open>Initialisation\<close>

definition init_mpool :: "'a tmpfs_state_scheme \<Rightarrow> 'a tmpfs_state_scheme" where
  "init_mpool s =
     (let superblock = mpool s;
          s = s\<lparr>mem := st64 (mem s) superblock (TMPFS_POOL_N_PAGES * 4096 - sizeof_superblock)\<rparr>;
          s = s\<lparr>mem := st64 (mem s) (superblock + 16) (ld64 (mem s) superblock div TMPFS_BLOCK_SIZE)\<rparr>;
          s = s\<lparr>mem := (mem s)(superblock + 8 := of_char (CHR ''T''))\<rparr>;
          s = s\<lparr>mem := (mem s)(superblock + 9 := of_char (CHR ''M''))\<rparr>;
          s = s\<lparr>mem := (mem s)(superblock + 10 := of_char (CHR ''P''))\<rparr>
      in s\<lparr>mpool_idx := sizeof_superblock\<rparr>)"

text \<open>\<open>TMPFS_POOL_VADDR\<close> stands for a call of \<open>pmm_alloc_frame\<close>: the second use allocates again.\<close>

definition tmpfs_init :: "tmpfs_code \<Rightarrow> 'a tmpfs_state_scheme \<Rightarrow> u64 \<Rightarrow> 'a tmpfs_state_scheme option" where
  "tmpfs_init code s dirname = do {
     (base, s) \<leftarrow> kmalloc s sizeof_fsnode;
     let s = s\<lparr>fs_base := base\<rparr>;
     if base = 0 then None
     else do {
       n \<leftarrow> kstrlen (mem s) dirname;
       let s = s\<lparr>mem := kmemcpy (mem s) (fs_fname base) dirname n\<rparr>;
       let s = s\<lparr>mem := (set_next base 0 \<circ> set_off base 0 \<circ> set_rlock base 0 \<circ> set_flags base FS_DIRECTORY \<circ>
             set_len base 0 \<circ> set_fidx base 0) (mem s)\<rparr>;
       (child, s) \<leftarrow> kmalloc s sizeof_fsnode;
       let s = s\<lparr>mem := set_children base child (mem s)\<rparr>;
       if child = 0 then None
       else do {
         let s = s\<lparr>mem := (set_fcreate base (at_fcreate code) \<circ> set_write base (at_write code) \<circ>
               set_read base (at_read code) \<circ> set_n_children base 0 \<circ> set_next child 0) (mem s)\<rparr>;
         let s = mount_filesystem s base;
         let (pool, s) = pmm_alloc_frame s;
         (errno, s) \<leftarrow> mmap s pool TMPFS_POOL_N_PAGES (PROT_READ OR PROT_WRITE);
         let (pool, s) = pmm_alloc_frame s;
         let s = s\<lparr>mpool := pool\<rparr>;
         if errno = - ENOMEM then None else Some (init_mpool s)
       }
     }
   }"

section \<open>Writing\<close>

text \<open>Memory after the first \<open>j\<close> bytes from \<open>buf\<close> have been copied to \<open>d\<close>.\<close>

definition copied :: "memory \<Rightarrow> u64 \<Rightarrow> u64 \<Rightarrow> u64 \<Rightarrow> memory" where
  "copied m d buf j = (\<lambda>x. if in_range d j x then m (buf + (x - d)) else m x)"

lemma copied_Suc:
  assumes "j < n" "m (buf + j) = v"
  shows "(copied m d buf j)(d + j := v) = copied m d buf (j + 1)"
proof (rule ext)
  fix x
  have j1: "unat (j + 1) = Suc (unat j)" by (rule unat_Suc_less [OF assms(1)])
  show "((copied m d buf j)(d + j := v)) x = copied m d buf (j + 1) x"
  proof (cases "x = d + j")
    case True
    then show ?thesis using assms(2) j1 by (simp add: copied_def in_range_def word_less_nat_alt)
  next
    case False
    then have "x - d \<noteq> j" by (auto simp: algebra_simps)
    then have "unat (x - d) \<noteq> unat j" by (simp add: word_unat_eq_iff)
    then have "in_range d (j + 1) x \<longleftrightarrow> in_range d j x"
      using j1 by (auto simp: in_range_def word_less_nat_alt)
    with False show ?thesis by (simp add: copied_def)
  qed
qed

lemma tmpfs_write_loop_spec:
  assumes data: "file_data m file = p" and off: "fs_off m this = off" and wrap: "unat off + unat len < 18446744073709551616"
    and apart: "\<And>x. in_range (p + off) len x \<Longrightarrow>
      \<not> in_range (file + 8) 8 x \<and> \<not> in_range (this + 240) 8 x \<and> \<not> in_range buf len x"
    and j: "unat j + k = unat len"
  shows "tmpfs_write_loop (copied m (p + off) buf j) this file buf len (off + j) j = Some (copied m (p + off) buf len)"
  using j
proof (induction k arbitrary: j)
  let ?M = "copied m (p + off) buf"
  have sub: "in_range (p + off) j x \<Longrightarrow> in_range (p + off) len x" if "unat j \<le> unat len" for j x
    using that by (simp add: in_range_def word_less_nat_alt)
  have fields: "file_data (?M j) file = p" "fs_off (?M j) this = off" if "unat j \<le> unat len" for j
  proof -
    have "file_data (?M j) file = file_data m file"
      unfolding file_data_def by (rule cell64.rd_cong) (use apart sub [OF that] in \<open>auto simp: copied_def\<close>)
    moreover have "fs_off (?M j) this = fs_off m this"
      unfolding fs_off_def by (rule cell64.rd_cong) (use apart sub [OF that] in \<open>auto simp: copied_def\<close>)
    ultimately show "file_data (?M j) file = p" "fs_off (?M j) this = off" using data off by simp_all
  qed
  {
    case 0
    then have "j = len" by (simp add: word_unat_eq_iff)
    then show ?case using fields(2) [of len] by (subst tmpfs_write_loop.simps) simp
  next
    case (Suc k)
    have lt: "j < len" using Suc.prems by (simp add: word_less_nat_alt)
    then have "unat (off + j) < unat (off + len)" using wrap by (simp add: word_less_nat_alt unat_word_ariths)
    then have "off + j < off + len" by (simp add: word_less_nat_alt)
    moreover have src: "?M j (buf + j) = m (buf + j)"
    proof -
      have "in_range buf len (buf + j)" using lt by (simp add: in_range_def)
      then have "\<not> in_range (p + off) j (buf + j)" using apart sub [of j] Suc.prems by auto
      then show ?thesis by (simp add: copied_def)
    qed
    moreover have "(?M j)(p + off + j := m (buf + j)) = ?M (j + 1)" by (rule copied_Suc [OF lt refl])
    moreover have "tmpfs_write_loop (?M (j + 1)) this file buf len (off + (j + 1)) (j + 1) = Some (?M len)"
    proof (rule Suc.IH)
      show "unat (j + 1) + k = unat len" using unat_Suc_less [OF lt] Suc.prems by simp
    qed
    ultimately show ?case
      using fields [of j] Suc.prems by (subst tmpfs_write_loop.simps) (simp add: add.assoc add.left_commute)
  }
qed

lemma tmpfs_read_loop_closed:
  assumes data: "file_data m file = p"
    and apart: "\<And>x. in_range buf len x \<Longrightarrow> \<not> in_range (file + 8) 8 x \<and> \<not> in_range p len x"
    and j: "unat j + k = unat len"
  shows "tmpfs_read_loop (copied m buf p j) buf file len j = copied m buf p len"
  using j
proof (induction k arbitrary: j)
  case 0
  then have "j = len" by (simp add: word_unat_eq_iff)
  then show ?case by (subst tmpfs_read_loop.simps) simp
next
  case (Suc k)
  have lt: "j < len" using Suc.prems by (simp add: word_less_nat_alt)
  have sub: "in_range buf j x \<Longrightarrow> in_range buf len x" for x using lt by (simp add: in_range_def)
  have "file_data (copied m buf p j) file = p"
    unfolding file_data_def data [symmetric]
    by (rule cell64.rd_cong) (use apart sub in \<open>auto simp: copied_def\<close>)
  moreover have "copied m buf p j (p + j) = m (p + j)"
  proof -
    have "in_range p len (p + j)" using lt by (simp add: in_range_def)
    then show ?thesis using apart sub by (auto simp: copied_def)
  qed
  moreover have "(copied m buf p j)(buf + j := m (p + j)) = copied m buf p (j + 1)" by (rule copied_Suc [OF lt refl])
  moreover have "unat (j + 1) + k = unat len"
    using Suc.prems unat_Suc_less [OF lt] by simp
  ultimately show ?case using lt Suc.IH [of "j + 1"] by (subst tmpfs_read_loop.simps) simp
qed

text \<open>A file of the file system: its node is a heap block, its record lies outside the heap, its
  data is a heap block; the offset is below the recorded length.\<close>

definition open_file :: "'a tmpfs_state_scheme \<Rightarrow> u64 \<Rightarrow> (u64 \<times> u64) list \<Rightarrow> u64 \<Rightarrow> u64 \<Rightarrow> bool" where
  "open_file s base bs this db \<longleftrightarrow>
     (let file = mpool s + fs_fidx (mem s) this in
      (\<exists>nb. this = DATA_START nb \<and> (nb, sizeof_fsnode) \<in> set bs) \<and>
      (\<forall>x. in_range file 16 x \<longrightarrow> \<not> heap_area base x) \<and> file \<noteq> 0 \<and>
      file_data (mem s) file = DATA_START db \<and> db \<in> fst ` set bs \<and>
      fs_off (mem s) this < fs_len (mem s) this)"

text \<open>A buffer outside the heap and apart from the file record.\<close>

definition user_buffer :: "'a tmpfs_state_scheme \<Rightarrow> u64 \<Rightarrow> u64 \<Rightarrow> u64 \<Rightarrow> u64 \<Rightarrow> bool" where
  "user_buffer s base this buf len \<longleftrightarrow>
     (\<forall>x. in_range buf len x \<longrightarrow> \<not> heap_area base x \<and> \<not> in_range (mpool s + fs_fidx (mem s) this) 16 x)"

lemma node_cell: "unat d + unat k \<le> 304 \<Longrightarrow> in_range (a + d) k x \<Longrightarrow> in_range a 304 x"
  using in_range_field [of a d k x 304] by simp

lemma record_cell: "in_range (f + 8) 8 x \<Longrightarrow> in_range f 16 x"
  using in_range_field [of f 8 8 x 16] by simp

lemma tmpfs_write_spec:
  fixes s :: "'a tmpfs_state_scheme"
  assumes inv: "heap_inv s base ((h, n) # bs)" and op: "open_file s base ((h, n) # bs) this db"
    and buf: "user_buffer s base this buf len"
    and room: "unat (bytes_allocated s) + unat (fs_len (mem s) this) + unat len + 1 \<le> unat (heap_size s)"
  defines "L \<equiv> fs_len (mem s) this" and "Off \<equiv> fs_off (mem s) this" and "f \<equiv> mpool s + fs_fidx (mem s) this"
  shows "\<exists>p s'. tmpfs_write s this buf len = Some (0, s') \<and> heap_inv s' base ((p - 24, L + len + 1) # (h, n) # bs) \<and>
    file_data (mem s') f = p \<and> fs_off (mem s') this = Off + len \<and> fs_len (mem s') this = L + len \<and>
    fs_fidx (mem s') this = fs_fidx (mem s) this \<and> mpool s' = mpool s \<and>
    (\<forall>i<len. mem s' (p + (Off + i)) = mem s (buf + i)) \<and> (\<forall>x. in_range p (L + len + 1) x \<longrightarrow> heap_area base x)"
proof -
  obtain nb where nb: "this = DATA_START nb" "(nb, sizeof_fsnode) \<in> set ((h, n) # bs)"
    using op by (auto simp: open_file_def Let_def)
  have "db \<in> fst ` set ((h, n) # bs)" using op unfolding open_file_def Let_def by blast
  then obtain k where db: "(db, k) \<in> set ((h, n) # bs)" by (metis imageE prod.collapse)
  have rec: "\<And>x. in_range f 16 x \<Longrightarrow> \<not> heap_area base x" and data: "file_data (mem s) f = DATA_START db"
    and ol: "unat Off < unat L" and bufx: "\<And>x. in_range buf len x \<Longrightarrow> \<not> heap_area base x \<and> \<not> in_range f 16 x"
    using op buf by (auto simp: open_file_def user_buffer_def Let_def f_def L_def Off_def word_less_nat_alt)
  define sz where "sz = L + len + 1"
  have small: "unat (heap_size s) \<le> 1099511627776" by (rule heap_invD(5) [OF inv])
  have szu: "unat sz = unat L + unat len + 1"
    using room small by (simp add: sz_def L_def unat_word_ariths)
  have sz: "0 < unat sz" "unat (bytes_allocated s) + unat sz \<le> unat (heap_size s)"
    using szu room by (simp_all add: L_def)
  define r where "r = h + 24 * (n + 1)"
  define p where "p = r + 24"
  obtain s1 where s1: "krealloc s (DATA_START db) sz = Some (p, s1)" "heap_inv s1 base ((r, sz) # (h, n) # bs)"
    using krealloc_spec [OF inv sz db] unfolding r_def p_def by blast
  note kr = krealloc_frame [OF inv sz db s1(1)]
  have pr: "p = DATA_START r" by (simp add: p_def DATA_START_def)
  \<comment> \<open>The four regions and what \<open>krealloc\<close> does to them.\<close>
  have node: "heap_area base x" "\<not> in_range p sz x" "mem s1 x = mem s x" if "in_range this 304 x" for x
    using live_block_data(3) [OF inv nb(2)] kr(1) [OF nb(2)] that nb(1) by auto
  have outside: "\<not> in_range p sz x" "mem s1 x = mem s x" if "\<not> heap_area base x" for x
    using kr(2) that by auto
  have new: "heap_area base x" if "in_range p sz x" for x using outside(1) that by blast
  define m2 where "m2 = set_file_data f p (mem s1)"
  have m2: "m2 x = mem s1 x" if "\<not> in_range (f + 8) 8 x" for x
    using that by (simp add: m2_def set_file_data_def cell64.wr_outside)
  have f8: "\<not> heap_area base x" if "in_range (f + 8) 8 x" for x using rec record_cell that by blast
  have node2: "m2 x = mem s x" if "in_range this 304 x" for x
    using m2 [of x] node [OF that] f8 by auto
  have fields2: "fs_off m2 this = Off" "fs_len m2 this = L" "fs_fidx m2 this = fs_fidx (mem s) this"
    unfolding fs_off_def fs_len_def fs_fidx_def Off_def L_def
    by (rule cell64.rd_cong; use node2 node_cell [of _ 8 this] in force)+
  have data2: "file_data m2 f = p" by (simp add: m2_def file_data_def set_file_data_def cell64.rd_wr_same)
  define m3 where "m3 = copied m2 (p + Off) buf len"
  have sub: "in_range p sz x" if "in_range (p + Off) len x" for x
    using in_range_field [OF that, of sz] szu ol by simp
  have loop: "tmpfs_write_loop m2 this f buf len Off 0 = Some m3"
  proof -
    have "tmpfs_write_loop (copied m2 (p + Off) buf 0) this f buf len (Off + 0) 0 = Some (copied m2 (p + Off) buf len)"
    proof (rule tmpfs_write_loop_spec [OF data2 fields2(1), of len _ 0 "unat len"])
      show "unat Off + unat len < 18446744073709551616" using szu ol small room by (simp add: L_def)
      show "\<not> in_range (f + 8) 8 x \<and> \<not> in_range (this + 240) 8 x \<and> \<not> in_range buf len x"
        if "in_range (p + Off) len x" for x
        using sub [OF that] new f8 bufx node(2) node_cell [of 240 8 this x] by auto
    qed simp
    moreover have "copied m2 (p + Off) buf 0 = m2" by (rule ext) (simp add: copied_def in_range_def)
    ultimately show ?thesis by (simp add: m3_def)
  qed
  have m3: "m3 x = m2 x" if "\<not> in_range p sz x" for x
    using that sub by (auto simp: m3_def copied_def)
  have node3: "m3 x = m2 x" if "in_range this 304 x" for x using m3 node(2) [OF that] by simp
  have fields3: "fs_off m3 this = Off" "fs_len m3 this = L" "fs_fidx m3 this = fs_fidx (mem s) this"
    unfolding fields2 [symmetric] unfolding fs_off_def fs_len_def fs_fidx_def
    by (rule cell64.rd_cong; use node3 node_cell [of _ 8 this] in force)+
  define m4 where "m4 = set_len this (L + len) (set_off this (Off + len) m3)"
  have fields4: "fs_off m4 this = Off + len" "fs_len m4 this = L + len" "fs_fidx m4 this = fs_fidx (mem s) this"
    "fs_len (set_off this (Off + len) m3) this = L"
    using fields3 by (simp_all add: m4_def fs_off_def fs_len_def fs_fidx_def set_off_def set_len_def cell_simps)
  have m4: "m4 x = m3 x" if "\<not> in_range this 304 x" for x
  proof -
    have "\<not> in_range (this + 240) 8 x" "\<not> in_range (this + 216) 8 x"
      using that node_cell [of 240 8 this x] node_cell [of 216 8 this x] by auto
    then show ?thesis by (simp add: m4_def set_len_def set_off_def cell64.wr_outside)
  qed
  have data4: "file_data m4 f = p"
  proof -
    have "m4 x = m2 x" if "in_range (f + 8) 8 x" for x
      using f8 [OF that] m4 [of x] m3 [of x] node(1) [of x] outside(1) [of x] by auto
    then have "file_data m4 f = file_data m2 f" unfolding file_data_def by (intro cell64.rd_cong) simp
    then show ?thesis using data2 by simp
  qed
  define e where "e = p + (L + len - 1)"
  have Ln: "unat (L + len - 1) = unat L + unat len - 1"
  proof -
    have "unat (L + len) = unat L + unat len" using szu room small by (simp add: unat_word_ariths L_def)
    moreover have "unat L + unat len \<noteq> 0" using ol by simp
    ultimately show ?thesis using unat_minus_one [of "L + len"] by fastforce
  qed
  have e: "in_range p sz e" using Ln szu ol by (simp add: e_def in_range_def word_less_nat_alt)
  define s' where "s' = s1\<lparr>mem := m4(e := FS_EOF)\<rparr>"
  have ret: "tmpfs_write s this buf len = Some (0, s')"
    using s1(1) loop data fields2(1) fields3 fields4 data4 kr(3)
    by (auto simp: tmpfs_write_def Let_def s'_def e_def f_def sz_def L_def Off_def m2_def m4_def add.assoc)
  have out: "m4 x = mem s1 x" if "\<not> in_range p sz x" "\<not> in_range this 304 x" "\<not> in_range (f + 8) 8 x" for x
    using that m4 m3 m2 by simp
  have "heap_inv s' base ((r, sz) # (h, n) # bs)"
    unfolding s'_def
  proof (rule heap_data_write [OF s1(2)])
    fix x assume "(m4(e := FS_EOF)) x \<noteq> mem s1 x"
    then have "in_range p sz x \<or> in_range this 304 x \<or> in_range (f + 8) 8 x"
      using out e by (auto split: if_splits)
    then show "(\<exists>b k. (b, k) \<in> set ((r, sz) # (h, n) # bs) \<and> in_range (DATA_START b) k x) \<or> \<not> heap_area base x"
      using pr nb f8 by (metis list.set_intros)
  qed
  moreover have "fs_off (mem s') this = Off + len" "fs_len (mem s') this = L + len"
    "fs_fidx (mem s') this = fs_fidx (mem s) this" "file_data (mem s') f = p"
  proof -
    have "(m4(e := FS_EOF)) x = m4 x" if "in_range this 304 x \<or> in_range (f + 8) 8 x" for x
      using that e node(2) f8 new by auto
    then have same: "ld64 (m4(e := FS_EOF)) (this + 240) = ld64 m4 (this + 240)"
      "ld64 (m4(e := FS_EOF)) (this + 216) = ld64 m4 (this + 216)"
      "ld64 (m4(e := FS_EOF)) (this + 200) = ld64 m4 (this + 200)" "ld64 (m4(e := FS_EOF)) (f + 8) = ld64 m4 (f + 8)"
      by (intro cell64.rd_cong; use node_cell [of _ 8 this] in force)+
    show "fs_off (mem s') this = Off + len" "fs_len (mem s') this = L + len"
      "fs_fidx (mem s') this = fs_fidx (mem s) this" "file_data (mem s') f = p"
      using fields4 data4 same by (simp_all add: s'_def fs_off_def fs_len_def fs_fidx_def file_data_def)
  qed
  moreover have "mpool s' = mpool s" using kr(3) by (auto simp: s'_def)
  moreover have "mem s' (p + (Off + i)) = mem s (buf + i)" if i: "i < len" for i
  proof -
    have d: "in_range (p + Off) len (p + (Off + i))" using i by (simp add: in_range_def)
    have "p + (Off + i) \<noteq> e"
    proof -
      have "unat (Off + i) = unat Off + unat i"
        using i ol szu room small by (simp add: unat_word_ariths L_def word_less_nat_alt)
      then have "Off + i \<noteq> L + len - 1" using Ln ol i by (auto simp: word_unat_eq_iff word_less_nat_alt)
      then show ?thesis by (simp add: e_def)
    qed
    then have "mem s' (p + (Off + i)) = m3 (p + (Off + i))"
      using m4 node(2) sub [OF d] by (auto simp: s'_def)
    also have "\<dots> = m2 (buf + i)" using d by (simp add: m3_def copied_def)
    also have "\<dots> = mem s (buf + i)"
    proof -
      have "in_range buf len (buf + i)" using i by (simp add: in_range_def)
      then have "\<not> heap_area base (buf + i)" "\<not> in_range f 16 (buf + i)" using bufx by auto
      then show ?thesis using m2 record_cell outside(2) by metis
    qed
    finally show ?thesis .
  qed
  moreover have "r = p - 24" by (simp add: p_def)
  ultimately show ?thesis using ret new unfolding sz_def by (intro exI [of _ p] exI [of _ s']) simp
qed

section \<open>Creating\<close>

lemma fresh_blockD:
  assumes "fresh_block s s' base bs p sz"
  shows "heap_inv s' base ((p - 24, sz) # bs)" "p = DATA_START (p - 24)" "p \<notin> DATA_START ` fst ` set bs"
    "(b, k) \<in> set bs \<Longrightarrow> in_range (DATA_START b) k x \<Longrightarrow> mem s' x = mem s x"
    "(b, k) \<in> set bs \<Longrightarrow> in_range (DATA_START b) k x \<Longrightarrow> \<not> in_range p sz x"
    "\<not> heap_area base x \<Longrightarrow> mem s' x = mem s x" "in_range p sz x \<Longrightarrow> heap_area base x"
    "s' = s\<lparr>mem := mem s', heap_head := p - 24, heap_tail := p - 24, bytes_allocated := bytes_allocated s + sz\<rparr>"
  using assms unfolding fresh_block_def by blast+

text \<open>The first half of \<open>_fcreate\<close>: the new data block, filled with the end marker, becomes the data of the
  record at the start of the pool's free area.\<close>

definition new_slot :: "'a tmpfs_state_scheme \<Rightarrow> 'a tmpfs_state_scheme \<Rightarrow> u64 \<Rightarrow> 'a tmpfs_state_scheme" where
  "new_slot s s1 p = s1\<lparr>mem := (set_file_data (mpool s + mpool_idx s) p (mem s1))(p := FS_EOF)\<rparr>"

lemma new_slot_inv:
  fixes s :: "'a tmpfs_state_scheme"
  assumes f: "fresh_block s s1 base bs p 1"
    and slot: "\<forall>x. in_range (mpool s + mpool_idx s) 16 x \<longrightarrow> \<not> heap_area base x"
  shows "heap_inv (new_slot s s1 p) base ((p - 24, 1) # bs)"
    "(b, k) \<in> set bs \<Longrightarrow> in_range (DATA_START b) k x \<Longrightarrow> mem (new_slot s s1 p) x = mem s x"
    "\<not> heap_area base x \<Longrightarrow> \<not> in_range (mpool s + mpool_idx s) 16 x \<Longrightarrow> mem (new_slot s s1 p) x = mem s x"
    "file_data (set_file_data (mpool s + mpool_idx s) p (mem s1)) (mpool s + mpool_idx s) = p"
proof -
  note D = fresh_blockD [OF f]
  let ?slot = "mpool s + mpool_idx s"
  have p1: "in_range p 1 p" by (simp add: in_range_def)
  have out: "mem (new_slot s s1 p) x = mem s1 x" if "x \<noteq> p" "\<not> in_range (?slot + 8) 8 x" for x
    using that by (simp add: new_slot_def set_file_data_def cell64.wr_outside)
  have rec: "\<not> heap_area base x" if "in_range (?slot + 8) 8 x" for x
    using slot record_cell [OF that] by blast
  show "heap_inv (new_slot s s1 p) base ((p - 24, 1) # bs)"
    unfolding new_slot_def
  proof (rule heap_data_write [OF D(1)])
    fix x assume "((set_file_data ?slot p (mem s1))(p := FS_EOF)) x \<noteq> mem s1 x"
    then have "x = p \<or> in_range (?slot + 8) 8 x" using out [of x] by (auto simp: new_slot_def split: if_splits)
    then show "(\<exists>b k. (b, k) \<in> set ((p - 24, 1) # bs) \<and> in_range (DATA_START b) k x) \<or> \<not> heap_area base x"
      using p1 D(2) rec by (metis list.set_intros(1))
  qed
  show "mem (new_slot s s1 p) x = mem s x" if b: "(b, k) \<in> set bs" "in_range (DATA_START b) k x"
  proof -
    have "heap_area base x"
      using live_block_data(3) [OF D(1), of b k x] b by simp
    then have "x \<noteq> p" "\<not> in_range (?slot + 8) 8 x" using D(5) [OF b] p1 rec by auto
    then show ?thesis using out D(4) [OF b] by simp
  qed
  show "mem (new_slot s s1 p) x = mem s x" if "\<not> heap_area base x" "\<not> in_range ?slot 16 x"
  proof -
    have "x \<noteq> p" using D(7) [OF p1] that(1) by auto
    then show ?thesis using out [of x] record_cell [of ?slot x] that(2) D(6) [OF that(1)] by auto
  qed
  show "file_data (set_file_data ?slot p (mem s1)) ?slot = p"
    by (simp add: file_data_def set_file_data_def cell64.rd_wr_same)
qed

text \<open>The setters of \<open>init_node\<close> stay inside the node.\<close>

lemma init_node_spec:
  fixes s :: "'a tmpfs_state_scheme"
  assumes inv: "heap_inv s base bs" and node: "(node - 24, sizeof_fsnode) \<in> set bs" "node = DATA_START (node - 24)"
    and name: "cstr (mem s) name nm" "length nm < 195"
  obtains m where "init_node code s parent node name len = Some (s\<lparr>mem := m\<rparr>)"
    "\<And>x. \<not> in_range node sizeof_fsnode x \<Longrightarrow> m x = mem s x" "heap_inv (s\<lparr>mem := m\<rparr>) base bs"
    "fs_next m node = 0" "fs_fidx m node = mpool_idx s" "fs_len m node = len" "fs_off m node = 0"
    "fs_read m node = at_read code" "fs_write m node = at_write code"
proof -
  define m1 where "m1 = kmemcpy (mem s) (fs_fname node) name (of_nat (length nm))"
  define m where "m = (set_parent node parent \<circ> set_fcreate node 0 \<circ> set_write node (at_write code) \<circ>
       set_read node (at_read code) \<circ> set_n_children node 0 \<circ> set_children node 0 \<circ> set_next node 0 \<circ>
       set_off node 0 \<circ> set_rlock node 0 \<circ> set_flags node FS_FILE \<circ> set_len node len \<circ> set_fid node 0 \<circ>
       set_fidx node (mpool_idx s)) m1"
  have ret: "init_node code s parent node name len = Some (s\<lparr>mem := m\<rparr>)"
    using kstrlen_cstr [OF name(1)] by (simp add: init_node_def m_def m1_def)
  have out: "m x = mem s x" if x: "\<not> in_range node 304 x" for x
  proof -
    have f8: "\<not> in_range (node + d) 8 x" if "unat d \<le> 296" for d
      using x node_cell [of d 8 node x] that by auto
    have f1: "\<not> in_range (node + d) 1 x" if "unat d \<le> 303" for d
      using x node_cell [of d 1 node x] that by auto
    have "m x = m1 x"
      using f8 f1
      by (simp add: m_def set_parent_def set_fcreate_def set_write_def set_read_def set_n_children_def set_children_def
          set_next_def set_off_def set_rlock_def set_flags_def set_len_def set_fid_def set_fidx_def cell64.wr_outside
          cell8.wr_outside)
    also have "\<dots> = mem s x"
      unfolding m1_def kmemcpy_def
    proof (rule kmemcpy_loop_outside)
      have "\<not> in_range node (of_nat (length nm)) x"
        using x name(2) by (auto simp: in_range_def word_less_nat_alt unat_of_nat)
      then show "\<not> (0 \<le> x - fs_fname node \<and> x - fs_fname node < of_nat (length nm))"
        by (simp add: fs_fname_def in_range_def)
    qed
    finally show ?thesis .
  qed
  have "heap_inv (s\<lparr>mem := m\<rparr>) base bs"
    by (rule heap_data_write [OF inv]) (use out node in metis)
  then show thesis
    by (intro that [OF ret out]) 
      (simp_all add: m_def set_parent_def set_fcreate_def set_write_def set_read_def set_n_children_def set_children_def
        set_next_def set_off_def set_rlock_def set_flags_def set_len_def set_fid_def set_fidx_def fs_next_def fs_fidx_def
        fs_len_def fs_off_def fs_read_def fs_write_def cell_simps)
qed


lemma tmpfs_fcreate_spec:
  fixes s :: "'a tmpfs_state_scheme"
  assumes inv: "heap_inv s base bs" and dir: "this = DATA_START nb" "(nb, sizeof_fsnode) \<in> set bs"
    and none: "fs_n_children (mem s) this = 0"
    and slot: "\<forall>x. in_range (mpool s + mpool_idx s) 16 x \<longrightarrow> \<not> heap_area base x"
    and name: "cstr (mem s) name nm" "length nm < 195"
      "\<forall>i\<le>length nm. \<not> heap_area base (name + of_nat i) \<and> \<not> in_range (mpool s + mpool_idx s) 16 (name + of_nat i)"
    and room: "unat (bytes_allocated s) + 305 \<le> unat (heap_size s)"
  shows "\<exists>node d s'. tmpfs_fcreate code s this name = Some (0, s') \<and>
    heap_inv s' base ((node - 24, sizeof_fsnode) # (d - 24, 1) # bs) \<and>
    node \<notin> DATA_START ` fst ` set bs \<and> fs_children (mem s') this = node \<and> fs_next (mem s') node = 0 \<and>
    fs_n_children (mem s') this = 0 \<and> fs_fidx (mem s') node = mpool_idx s \<and> fs_len (mem s') node = 1 \<and>
    fs_off (mem s') node = 0 \<and> mpool_idx s' = mpool_idx s \<and> mpool s' = mpool s \<and>
    heap_size s' = heap_size s \<and> unat (bytes_allocated s') = unat (bytes_allocated s) + 305 \<and>
    node = DATA_START (node - 24) \<and> d = DATA_START (d - 24) \<and> file_data (mem s') (mpool s + mpool_idx s) = d \<and>
    (\<forall>x. \<not> heap_area base x \<longrightarrow> \<not> in_range (mpool s + mpool_idx s) 16 x \<longrightarrow> mem s' x = mem s x)"
proof -
  obtain d s1 where s1: "kmalloc s 1 = Some (d, s1)" "fresh_block s s1 base bs d 1"
    "unat (bytes_allocated s1) = unat (bytes_allocated s) + 1" "heap_size s1 = heap_size s"
    by (rule kmalloc_fresh [OF inv, of 1]) (use room in auto)
  define s2 where "s2 = new_slot s s1 d"
  note n = new_slot_inv [OF s1(2) slot, folded s2_def]
  have cell: "mem s2 x = mem s x" if "in_range this 304 x" for x using n(2) [OF dir(2)] that dir(1) by simp
  have none2: "fs_n_children (mem s2) this = 0"
    unfolding none [symmetric] fs_n_children_def
    by (rule cell64.rd_cong) (use cell node_cell [of 272 8 this] in simp)
  obtain node s3 where s3: "kmalloc s2 304 = Some (node, s3)" "fresh_block s2 s3 base ((d - 24, 1) # bs) node 304"
    "unat (bytes_allocated s3) = unat (bytes_allocated s2) + 304" "heap_size s3 = heap_size s2"
    by (rule kmalloc_fresh [OF n(1), of 304])
      (use room s1(3,4) in \<open>auto simp: s2_def new_slot_def\<close>)
  note D = fresh_blockD [OF s3(2)]
  define s4 where "s4 = s3\<lparr>mem := set_children this node (mem s3)\<rparr>"
  have tb: "(nb, sizeof_fsnode) \<in> set ((d - 24, 1) # bs)" using dir(2) by simp
  have apart: "\<not> in_range node 304 x" if "in_range this 304 x" for x using D(5) [OF tb] that dir(1) by simp
  have inv4: "heap_inv s4 base ((node - 24, sizeof_fsnode) # (d - 24, 1) # bs)"
    unfolding s4_def
  proof (rule heap_data_write [OF D(1)])
    fix x assume "set_children this node (mem s3) x \<noteq> mem s3 x"
    then have "in_range (this + 256) 8 x"
      using cell64.wr_outside [of "this + 256" x "mem s3" node] by (auto simp: set_children_def)
    then have "in_range this 304 x" using node_cell [of 256 8 this x] by simp
    then show "(\<exists>b k. (b, k) \<in> set ((node - 24, sizeof_fsnode) # (d - 24, 1) # bs) \<and> in_range (DATA_START b) k x) \<or>
        \<not> heap_area base x"
      using dir by (metis list.set_intros(2) tb)
  qed
  have "cstr (mem s4) name nm"
  proof (rule cstr_cong [OF name(1)])
    fix i assume "i \<le> length nm"
    then have o: "\<not> heap_area base (name + of_nat i)" "\<not> in_range (mpool s + mpool_idx s) 16 (name + of_nat i)"
      using name(3) by auto
    have "heap_area base x" if "in_range (this + 256) 8 x" for x
      using live_block_data(3) [OF inv dir(2), of x] node_cell [of 256 8 this x] that dir(1) by simp
    then have "mem s4 (name + of_nat i) = mem s3 (name + of_nat i)"
      using o(1) by (auto simp: s4_def set_children_def intro!: cell64.wr_outside)
    then show "mem s4 (name + of_nat i) = mem s (name + of_nat i)" using D(6) [OF o(1)] n(3) [OF o] by simp
  qed
  from init_node_spec [OF inv4 _ D(2) this name(2), of code this 1]
  obtain m where m: "init_node code s4 this node name 1 = Some (s4\<lparr>mem := m\<rparr>)"
    "\<And>x. \<not> in_range node sizeof_fsnode x \<Longrightarrow> m x = mem s4 x"
    "heap_inv (s4\<lparr>mem := m\<rparr>) base ((node - 24, sizeof_fsnode) # (d - 24, 1) # bs)"
    "fs_next m node = 0" "fs_fidx m node = mpool_idx s4" "fs_len m node = 1" "fs_off m node = 0"
    by (metis list.set_intros(1))
  have same: "m x = mem s4 x" if "in_range this 304 x" for x using m(2) apart [OF that] by simp
  have kids: "fs_children (mem s4) this = node" by (simp add: s4_def fs_children_def set_children_def cell64.rd_wr_same)
  have "fs_children m this = node"
    unfolding kids [symmetric] fs_children_def
    by (rule cell64.rd_cong) (use same node_cell [of 256 8 this] in simp)
  moreover have "fs_n_children m this = 0"
  proof -
    have "fs_n_children m this = fs_n_children (mem s4) this"
      unfolding fs_n_children_def by (rule cell64.rd_cong) (use same node_cell [of 272 8 this] in simp)
    also have "\<dots> = fs_n_children (mem s3) this"
      by (simp add: s4_def fs_n_children_def set_children_def cell_simps)
    also have "\<dots> = fs_n_children (mem s2) this"
      unfolding fs_n_children_def
      by (rule cell64.rd_cong) (use D(4) [OF tb] dir(1) node_cell [of 272 8 this] in simp)
    finally show ?thesis using none2 by simp
  qed
  moreover have fields: "mpool_idx s4 = mpool_idx s" "mpool s4 = mpool s"
    using arg_cong [OF fresh_blockD(8) [OF s1(2)], of mpool] arg_cong [OF fresh_blockD(8) [OF s1(2)], of mpool_idx]
      arg_cong [OF D(8), of mpool] arg_cong [OF D(8), of mpool_idx]
    by (simp_all add: s4_def s2_def new_slot_def)
  moreover have "tmpfs_fcreate code s this name = Some (0, s4\<lparr>mem := m\<rparr>)"
  proof -
    have s2: "s1\<lparr>mem := mem s2\<rparr> = s2" "fs_children (set_children this node (mem s3)) this = node"
      using kids by (simp_all add: s2_def s4_def new_slot_def)
    have m2: "(set_file_data (mpool s + mpool_idx s) d (mem s1))(d := FS_EOF) = mem s2"
      by (simp add: s2_def new_slot_def)
    have "last_child (mem s2) this 0 (fs_children (mem s2) this) = Some (fs_children (mem s2) this)"
      by (subst last_child.simps) (simp add: none2)
    then show ?thesis
      using s1(1) s3(1) m(1) kids none2
      by (simp add: tmpfs_fcreate_def Let_def n(4) s2 m2 flip: s4_def)
  qed
  moreover have "node \<notin> DATA_START ` fst ` set bs" using D(3) by auto
  moreover have "heap_size s4 = heap_size s" "unat (bytes_allocated s4) = unat (bytes_allocated s) + 305"
    using s1(3,4) s3(3,4) by (simp_all add: s4_def s2_def new_slot_def)
  moreover have far: "m x = mem s2 x" if "\<not> heap_area base x" for x
  proof -
    have "\<not> in_range (this + 256) 8 x" "\<not> in_range node 304 x"
      using node_cell [of 256 8 this x] live_block_data(3) [OF inv dir(2), of x] D(7) [of x] that dir(1) by auto
    then show ?thesis
      using m(2) [of x] D(6) [OF that] by (simp add: s4_def set_children_def cell64.wr_outside)
  qed
  moreover have "m x = mem s x" if "\<not> heap_area base x" "\<not> in_range (mpool s + mpool_idx s) 16 x" for x
    using far [OF that(1)] n(3) [OF that] by simp
  moreover have "file_data m (mpool s + mpool_idx s) = d"
  proof -
    have "m x = set_file_data (mpool s + mpool_idx s) d (mem s1) x" if "in_range (mpool s + mpool_idx s + 8) 8 x" for x
    proof -
      have h: "\<not> heap_area base x" using slot record_cell [OF that] by blast
      then have "x \<noteq> d" using fresh_blockD(7) [OF s1(2), of d] by (auto simp: in_range_def)
      then show ?thesis using far [OF h] by (simp add: s2_def new_slot_def)
    qed
    then have "file_data m (mpool s + mpool_idx s) = file_data (set_file_data (mpool s + mpool_idx s) d (mem s1)) (mpool s + mpool_idx s)"
      unfolding file_data_def by (rule cell64.rd_cong)
    then show ?thesis using n(4) by simp
  qed
  ultimately show ?thesis using m D(2) fresh_blockD(2) [OF s1(2)] by (intro exI [of _ node] exI [of _ d] exI [of _ "s4\<lparr>mem := m\<rparr>"]) simp
qed
section \<open>The heap keeps the mounts\<close>

lemma heap_more_mounts: "heap_state.more s' = heap_state.more s \<Longrightarrow> mounts_kept s s'"
  by (cases s; cases s') (simp add: mounts_kept_def)

lemmas heap_keeps_mounts = kmalloc_more [THEN heap_more_mounts] krealloc_more [THEN heap_more_mounts]

lemma init_node_keeps: "init_node code s parent node name len = Some s' \<Longrightarrow> mounts_kept s s'"
  by (auto simp: init_node_def split: bind_splits)

lemma tmpfs_fcreate_keeps: "tmpfs_fcreate code s this name = Some (e, s') \<Longrightarrow> mounts_kept s s'"
  by (auto simp: tmpfs_fcreate_def Let_def split: bind_splits if_splits dest!: heap_keeps_mounts init_node_keeps)
    (simp_all add: mounts_kept_def)

lemma tmpfs_write_keeps: "tmpfs_write s this buf len = Some (e, s') \<Longrightarrow> mounts_kept s s'"
  by (auto simp: tmpfs_write_def Let_def split: bind_splits dest!: heap_keeps_mounts)
    (simp_all add: mounts_kept_def)

interpretation tmpfs: filesystem "tmpfs_calls code" for code
  by unfold_locales
    (auto simp: tmpfs_calls_def tmpfs_read_def Let_def split: if_splits dest: tmpfs_write_keeps tmpfs_fcreate_keeps)

section \<open>Folders\<close>

text \<open>The folder node is a live heap block without children, the record at the start of the free area
  of the pool lies outside the heap, and the heap has room for \<open>n\<close> more bytes.\<close>

definition folder_ready :: "'a tmpfs_state_scheme \<Rightarrow> u64 \<Rightarrow> (u64 \<times> u64) list \<Rightarrow> u64 \<Rightarrow> nat \<Rightarrow> bool" where
  "folder_ready s base bs dir n \<longleftrightarrow> heap_inv s base bs \<and>
     (\<exists>nb. dir = DATA_START nb \<and> (nb, sizeof_fsnode) \<in> set bs) \<and> fs_n_children (mem s) dir = 0 \<and>
     mpool s + mpool_idx s \<noteq> 0 \<and> (\<forall>x. in_range (mpool s + mpool_idx s) 16 x \<longrightarrow> \<not> heap_area base x) \<and>
     unat (bytes_allocated s) + n \<le> unat (heap_size s)"

text \<open>\<open>len\<close> bytes outside the heap and apart from that record.\<close>

definition outside_heap :: "'a tmpfs_state_scheme \<Rightarrow> u64 \<Rightarrow> u64 \<Rightarrow> nat \<Rightarrow> bool" where
  "outside_heap s base buf len \<longleftrightarrow>
     (\<forall>i<len. \<not> heap_area base (buf + of_nat i) \<and> \<not> in_range (mpool s + mpool_idx s) 16 (buf + of_nat i))"

lemma outside_heap_range:
  assumes "outside_heap s base buf (unat len)" "in_range buf len x"
  shows "\<not> heap_area base x \<and> \<not> in_range (mpool s + mpool_idx s) 16 x"
proof -
  have "unat (x - buf) < unat len" using assms(2) by (simp add: in_range_def word_less_nat_alt)
  then show ?thesis using assms(1) by (auto simp: outside_heap_def dest!: spec [of _ "unat (x - buf)"])
qed

section \<open>A concrete file system\<close>

text \<open>A folder node \<open>tmp\<close> in the first heap block, the file system record at \<open>0x5018\<close>, the path
  \<open>/tmp/a\<close> at \<open>0x3000\<close> and the name \<open>a\<close> at \<open>0x3005\<close>.\<close>

definition tmp_mem :: memory where
  "tmp_mem = (header_writes (st32 (\<lambda>_. 0) 0x10000 MAGIC) 0x10000 0x10018 304)(0x10030 := 0x74, 0x10031 := 0x6D,
     0x10032 := 0x70, 0x3000 := 0x2F, 0x3001 := 0x74, 0x3002 := 0x6D, 0x3003 := 0x70, 0x3004 := 0x2F, 0x3005 := 0x61)"

definition tmp_fs :: tmpfs_state where
  "tmp_fs = \<lparr>mem = tmp_mem, hhdm = 0xFFFF800000000000, memmap = [], bitmap = 0xFFFF800000100000, usable_pages = 0,
     bitmap_size = 0x1000, highest_addr = 0, root_pagemap = 0x8000, cr3 = 0x8000, tlb_flushes = [],
     heap_head = 0x10018, heap_tail = 0x10018, heap_size = 0x1000, bytes_allocated = 304, modules = [], initrd = 0,
     initrd_size = 0, root_fs = 0x10030, vfs_head = 0x10030, next_fid = 1, fs_base = 0x10030, mpool = 0x5000,
     mpool_idx = 24\<rparr>"

definition tmp_code :: tmpfs_code where
  "tmp_code = \<lparr>at_read = 0x100, at_write = 0x200, at_fcreate = 0\<rparr>"

lemma tmp_heap: "heap_inv tmp_fs 0x10000 [(0x10018, 304), (0x10000, 0)]"
proof -
  define s0 where "s0 = tmp_fs\<lparr>mem := st32 (\<lambda>_. 0) 0x10000 MAGIC, heap_head := 0x10000, heap_tail := 0x10000, bytes_allocated := 0\<rparr>"
  have "ld64 (\<lambda>_. 0) a = 0" "ld8 (\<lambda>_. 0) a = 0" for a by (simp_all add: ld64_zero ld8_def)
  then have "block_at (mem s0) 0x10000 0 0" by (simp add: s0_def block_defs cell_simps)
  then have "heap_inv s0 0x10000 [(0x10000, 0)]" by (simp add: heap_inv_def s0_def tmp_fs_def)
  from kmalloc_spec(4) [OF this, of 304]
  have "heap_inv (s0\<lparr>mem := header_writes (st32 (\<lambda>_. 0) 0x10000 MAGIC) 0x10000 0x10018 304, heap_head := 0x10018,
      heap_tail := 0x10018, bytes_allocated := 304\<rparr>) 0x10000 [(0x10018, 304), (0x10000, 0)]" (is "heap_inv ?s _ _")
    by (simp add: s0_def tmp_fs_def)
  moreover have "tmp_fs = ?s\<lparr>mem := tmp_mem\<rparr>" by (simp add: s0_def tmp_fs_def)
  moreover have "heap_inv (?s\<lparr>mem := tmp_mem\<rparr>) 0x10000 [(0x10018, 304), (0x10000, 0)]"
  proof (rule heap_data_write [OF calculation(1)])
    fix x assume "tmp_mem x \<noteq> mem ?s x"
    then have "in_range (DATA_START 0x10018) 304 x \<or> unat x < 0x10000"
      by (auto simp: tmp_mem_def DATA_START_def in_range_def split: if_splits)
    then show "(\<exists>b k. (b, k) \<in> set [(0x10018, 304), (0x10000, 0)] \<and> in_range (DATA_START b) k x) \<or> \<not> heap_area 0x10000 x"
      by (auto simp: heap_area_def)
  qed
  ultimately show ?thesis by simp
qed

lemma tmp_zero:
  assumes "unat x < 0x10030 \<and> 0x3005 < unat x \<and> unat x < 0x10000 \<or> 0x10032 < unat x"
  shows "tmp_mem x = 0"
proof -
  have "\<not> in_range 0x10010 8 x" "\<not> in_range 0x10018 24 x" "\<not> in_range 0x10000 4 x"
    using assms by (auto simp: in_range_linear)
  then have "header_writes (st32 (\<lambda>_. 0) 0x10000 MAGIC) 0x10000 0x10018 304 x = 0"
    using header_writes_outside [of "0x10000" x "0x10018"] by (simp add: cell32.wr_outside)
  then show ?thesis using assms by (auto simp: tmp_mem_def)
qed

lemma tmp_field: "0x10032 < unat a \<Longrightarrow> unat a + 8 \<le> 18446744073709551616 \<Longrightarrow> ld64 tmp_mem a = 0"
  by (rule ld64_zero, rule tmp_zero) (simp add: in_range_linear)

lemma tmp_ready: "folder_ready tmp_fs 0x10000 [(0x10018, 304), (0x10000, 0)] 0x10030 n" if "n \<le> 3000"
proof -
  have "fs_n_children tmp_mem 0x10030 = 0" by (simp add: fs_n_children_def tmp_field)
  then show ?thesis
    using tmp_heap that
    by (auto simp: folder_ready_def tmp_fs_def DATA_START_def heap_area_def in_range_linear)
qed

lemma tmp_bytes: "tmp_mem 0x3000 = 0x2F" "tmp_mem 0x3001 = 0x74" "tmp_mem 0x3002 = 0x6D" "tmp_mem 0x3003 = 0x70"
  "tmp_mem 0x3004 = 0x2F" "tmp_mem 0x3005 = 0x61" "tmp_mem 0x3006 = 0" "tmp_mem 0x10030 = 0x74" "tmp_mem 0x10031 = 0x6D"
  "tmp_mem 0x10032 = 0x70" "tmp_mem 0x10033 = 0"
  by (simp_all add: tmp_zero) (simp_all add: tmp_mem_def)

section \<open>Properties\<close>

text \<open>Reading copies the data of the file, when they lie apart from the buffer.\<close>

lemma tmpfs_read_copies:
  assumes "file_data (mem s) (mpool s + fs_fidx (mem s) node) = p" "mpool s + fs_fidx (mem s) node \<noteq> 0"
    "\<And>x. in_range buf len x \<Longrightarrow> \<not> in_range (mpool s + fs_fidx (mem s) node + 8) 8 x \<and> \<not> in_range p len x"
  shows "mem (snd (tmpfs_read s node buf len)) = copied (mem s) buf p len"
proof -
  have "tmpfs_read_loop (copied (mem s) buf p 0) buf (mpool s + fs_fidx (mem s) node) len 0 = copied (mem s) buf p len"
    by (rule tmpfs_read_loop_closed [OF assms(1), of _ _ _ "unat len"]) (use assms(3) in simp_all)
  moreover have "copied (mem s) buf p 0 = mem s" by (rule ext) (simp add: copied_def in_range_def)
  ultimately show ?thesis using assms(2) by (simp add: tmpfs_read_def Let_def)
qed







end
