(* ===== verification/Io.thy ===== *)
theory Io
  imports Tmpfs
begin

text \<open>
  \<open>sys/src/arch/x86/io.c\<close> and the two drivers that only talk to ports, \<open>sys/src/drivers/pit.c\<close>
  and \<open>sys/src/drivers/serial.c\<close>.

  A device answers a read according to everything that has been sent to it and read from it
  before: \<open>bus\<close> is the trace of all accesses, \<open>device\<close> the function from such a trace and a read
  to the value read.  The devices themselves are not under \<open>src/\<close>, so \<open>device\<close> is a component of
  the state that no operation changes, and what a lemma needs of it is a hypothesis.  Accesses to
  the memory-mapped registers of the interrupt controllers are events of the same trace.
\<close>

section \<open>Port accesses\<close>

datatype io_event =
    InB u16
  | InW u16
  | InL u16
  | OutB u16 u8
  | OutW u16 u16
  | OutL u16 u32
  | MmioR u64
  | MmioW u64 u32

record io_state = tmpfs_state +
  bus :: "io_event list"
  device :: "io_event list \<Rightarrow> io_event \<Rightarrow> u32"
  faulty :: u8

definition emit :: "io_event \<Rightarrow> 'a io_state_scheme \<Rightarrow> 'a io_state_scheme" where
  "emit e s = s\<lparr>bus := bus s @ [e]\<rparr>"

definition answer :: "io_event \<Rightarrow> 'a io_state_scheme \<Rightarrow> u32 \<times> 'a io_state_scheme" where
  "answer e s = (device s (bus s) e, emit e s)"

definition inportb :: "'a io_state_scheme \<Rightarrow> u16 \<Rightarrow> u8 \<times> 'a io_state_scheme" where
  "inportb s port = (let (v, s) = answer (InB port) s in (ucast v, s))"

definition outportb :: "'a io_state_scheme \<Rightarrow> u16 \<Rightarrow> u8 \<Rightarrow> 'a io_state_scheme" where
  "outportb s port data = emit (OutB port data) s"

definition outportw :: "'a io_state_scheme \<Rightarrow> u16 \<Rightarrow> u16 \<Rightarrow> 'a io_state_scheme" where
  "outportw s port data = emit (OutW port data) s"

definition inportw :: "'a io_state_scheme \<Rightarrow> u16 \<Rightarrow> u16 \<times> 'a io_state_scheme" where
  "inportw s port = (let (v, s) = answer (InW port) s in (ucast v, s))"

definition outportl :: "'a io_state_scheme \<Rightarrow> u16 \<Rightarrow> u32 \<Rightarrow> 'a io_state_scheme" where
  "outportl s port data = emit (OutL port data) s"

definition inportl :: "'a io_state_scheme \<Rightarrow> u16 \<Rightarrow> u32 \<times> 'a io_state_scheme" where
  "inportl s port = answer (InL port) s"

definition io_wait :: "'a io_state_scheme \<Rightarrow> 'a io_state_scheme" where
  "io_wait s = emit (OutB 0x80 0) s"

section \<open>The interval timer\<close>

abbreviation PIT_FREQ :: u32 where "PIT_FREQ \<equiv> 100"

definition init_pit :: "'a io_state_scheme \<Rightarrow> 'a io_state_scheme" where
  "init_pit s =
     (let divisor = 1193180 div PIT_FREQ;
          s = outportb s 0x43 0x36;
          s = outportb s 0x40 (ucast (divisor AND 0xFF))
      in outportb s 0x40 (ucast (drop_bit 8 divisor)))"

section \<open>The serial port\<close>

abbreviation COM1 :: u16 where "COM1 \<equiv> 0x3F8"

definition serial_init :: "'a io_state_scheme \<Rightarrow> 'a io_state_scheme" where
  "serial_init s =
     (let s = outportb s (COM1 + 1) 0x00;
          s = outportb s (COM1 + 3) 0x80;
          s = outportb s (COM1 + 0) 0x03;
          s = outportb s (COM1 + 1) 0x00;
          s = outportb s (COM1 + 3) 0x03;
          s = outportb s (COM1 + 2) 0xC7;
          s = outportb s (COM1 + 4) 0x0B;
          s = outportb s (COM1 + 4) 0x1E;
          s = outportb s (COM1 + 0) 0xAE;
          (echo, s) = inportb s (COM1 + 0)
      in if echo \<noteq> 0xAE then s\<lparr>faulty := 1\<rparr> else outportb s (COM1 + 4) 0x0F)"

definition is_transmit_empty :: "'a io_state_scheme \<Rightarrow> u8 \<times> 'a io_state_scheme" where
  "is_transmit_empty s = (let (v, s) = inportb s (COM1 + 5) in (v AND 0x20, s))"

text \<open>The driver polls for ever when the transmitter never becomes empty.\<close>

partial_function (option) wait_transmit :: "'a io_state_scheme \<Rightarrow> 'a io_state_scheme option" where
  "wait_transmit s = (let (e, s) = is_transmit_empty s in if e = 0 then wait_transmit s else Some s)"

definition put_char :: "'a io_state_scheme \<Rightarrow> u8 \<Rightarrow> 'a io_state_scheme option" where
  "put_char s c = do { s \<leftarrow> wait_transmit s; Some (outportb s COM1 c) }"

partial_function (option) serial_loop :: "'a io_state_scheme \<Rightarrow> u64 \<Rightarrow> 'a io_state_scheme option" where
  "serial_loop s p =
     (if mem s p = 0 then Some s
      else do { s \<leftarrow> put_char s (mem s p); serial_loop s (p + 1) })"

definition serial_write :: "'a io_state_scheme \<Rightarrow> u64 \<Rightarrow> 'a io_state_scheme option" where
  "serial_write s str = (if faulty s \<noteq> 0 then Some s else serial_loop s str)"

section \<open>What the drivers send\<close>

lemma emit_simps [simp]:
  "bus (emit e s) = bus s @ [e]" "device (emit e s) = device s" "mem (emit e s) = mem s"
  "faulty (emit e s) = faulty s"
  by (simp_all add: emit_def)

lemma emit_emit: "emit e s\<lparr>bus := t\<rparr> = s\<lparr>bus := t\<rparr>"
  by (simp add: emit_def)

text \<open>The divisor reaches the timer low byte first, and the timer then ticks at one hundred hertz to
  within a part in ten thousand.\<close>

lemma init_pit_rate:
  "\<exists>lo hi. bus (init_pit s) = bus s @ [OutB 0x43 0x36, OutB 0x40 lo, OutB 0x40 hi] \<and>
     unat lo + 256 * unat hi = 11931 \<and> 1193180 div (unat lo + 256 * unat hi) = 100"
proof (intro exI)
  show "bus (init_pit s) = bus s @ [OutB 0x43 0x36, OutB 0x40 0x9B, OutB 0x40 0x2E] \<and>
     unat (0x9B :: u8) + 256 * unat (0x2E :: u8) = 11931 \<and> 1193180 div (unat (0x9B :: u8) + 256 * unat (0x2E :: u8)) = 100"
    by (simp add: init_pit_def outportb_def)
qed

text \<open>Without the echo of the loopback test, serial output is switched off.\<close>

lemma serial_init_faulty:
  assumes "\<forall>t. ucast (device s t (InB COM1)) \<noteq> (0xAE :: u8)"
  shows "faulty (serial_init s) = 1" "serial_write (serial_init s) str = Some (serial_init s)"
  using assms by (simp_all add: serial_init_def serial_write_def inportb_def answer_def outportb_def)

text \<open>The bytes sent to the data register in a trace.\<close>

fun sent_byte :: "io_event \<Rightarrow> u8 list" where
  "sent_byte (OutB p b) = (if p = COM1 then [b] else [])"
| "sent_byte _ = []"

definition sent :: "io_event list \<Rightarrow> u8 list" where
  "sent t = concat (map sent_byte t)"

lemma sent_append [simp]: "sent (t @ u) = sent t @ sent u" "sent [] = []" "sent (e # t) = sent_byte e @ sent t"
  by (simp_all add: sent_def)

abbreviation poll :: io_event where "poll \<equiv> InB 0x3FD"

text \<open>The fairness the driver relies on: from every trace on, polling finds the transmitter empty
  at some time.\<close>

definition transmits :: "(io_event list \<Rightarrow> io_event \<Rightarrow> u32) \<Rightarrow> bool" where
  "transmits dev \<longleftrightarrow> (\<forall>t. \<exists>k. dev (t @ replicate k poll) poll AND 0x20 \<noteq> 0)"

lemma sent_polls [simp]: "sent (replicate k poll) = []"
  by (induction k) auto

lemma status_bit: "(ucast (v :: u32) :: u8) AND 0x20 = 0 \<longleftrightarrow> v AND 0x20 = 0"
proof -
  have "(ucast v :: u8) AND 0x20 = ucast (v AND 0x20)" by (rule bit_word_eqI) (auto simp: bit_simps)
  moreover have "take_bit 8 (0x20 :: u32) = 0x20" by simp
  then have "n < 8" if "bit (0x20 :: u32) n" for n using that by (metis bit_take_bit_iff)
  then have "v AND 0x20 = ucast (ucast (v AND 0x20) :: u8)"
    by (intro bit_word_eqI) (auto simp: bit_simps)
  ultimately show ?thesis by (metis unsigned_0)
qed

lemma wait_transmit_polls:
  assumes "device s (bus s @ replicate k poll) poll AND 0x20 \<noteq> 0"
  shows "\<exists>j. wait_transmit s = Some (s\<lparr>bus := bus s @ replicate j poll\<rparr>)"
  using assms
proof (induction k arbitrary: s)
  case 0
  then have "wait_transmit s = Some (emit poll s)"
    by (subst wait_transmit.simps)
      (simp add: is_transmit_empty_def inportb_def answer_def status_bit)
  then show ?case by (intro exI [of _ 1]) (simp add: emit_def)
next
  case (Suc k)
  show ?case
  proof (cases "device s (bus s) poll AND 0x20 = 0")
    case True
    then have w: "wait_transmit s = wait_transmit (emit poll s)"
      by (subst wait_transmit.simps)
        (simp add: is_transmit_empty_def inportb_def answer_def status_bit)
    obtain j where "wait_transmit (emit poll s) = Some ((emit poll s)\<lparr>bus := bus (emit poll s) @ replicate j poll\<rparr>)"
      using Suc.IH [of "emit poll s"] Suc.prems by auto
    then show ?thesis using w by (intro exI [of _ "Suc j"]) (simp add: emit_def)
  next
    case False
    then show ?thesis using Suc.prems
      by (intro exI [of _ 1], subst wait_transmit.simps)
        (simp add: is_transmit_empty_def inportb_def answer_def status_bit emit_def)
  qed
qed

lemma put_char_sends:
  assumes "transmits (device s)"
  shows "\<exists>t. put_char s c = Some (s\<lparr>bus := bus s @ t\<rparr>) \<and> sent t = [c]"
proof -
  obtain j where "wait_transmit s = Some (s\<lparr>bus := bus s @ replicate j poll\<rparr>)"
    using assms wait_transmit_polls by (metis transmits_def)
  then have "put_char s c = Some (s\<lparr>bus := bus s @ (replicate j poll @ [OutB COM1 c])\<rparr>)"
    by (simp add: put_char_def outportb_def emit_def)
  then show ?thesis by (intro exI [of _ "replicate j poll @ [OutB COM1 c]"]) simp
qed

lemma serial_loop_sends:
  assumes "transmits (device s)" "cstr (mem s) p bs"
  shows "\<exists>t. serial_loop s p = Some (s\<lparr>bus := bus s @ t\<rparr>) \<and> sent t = bs"
  using assms
proof (induction bs arbitrary: p s)
  case Nil
  then show ?case by (intro exI [of _ "[]"], subst serial_loop.simps) simp
next
  case (Cons b bs)
  obtain t where t: "put_char s b = Some (s\<lparr>bus := bus s @ t\<rparr>)" "sent t = [b]"
    using put_char_sends [OF Cons.prems(1)] by blast
  obtain u where u: "serial_loop (s\<lparr>bus := bus s @ t\<rparr>) (p + 1) = Some (s\<lparr>bus := bus s @ t @ u\<rparr>)" "sent u = bs"
    using Cons.IH [of "s\<lparr>bus := bus s @ t\<rparr>" "p + 1"] Cons.prems by auto
  have "serial_loop s p = Some (s\<lparr>bus := bus s @ t @ u\<rparr>)"
    using t(1) u(1) Cons.prems(2) by (subst serial_loop.simps) auto
  then show ?case using t(2) u(2) by (intro exI [of _ "t @ u"]) simp
qed

section \<open>Claims\<close>

text \<open>C19: Serial output is live: when the chip passed its test and its transmitter becomes empty again
  and again, writing a string returns and has put exactly the bytes of the string, in order, on the
  data register, changing nothing but the trace.\<close>

theorem serial_write_delivers:
  assumes "transmits (device s)" "cstr (mem s) str bs" "faulty s = 0"
  shows "\<exists>t. serial_write s str = Some (s\<lparr>bus := bus s @ t\<rparr>) \<and> sent (bus s @ t) = sent (bus s) @ bs"
  using serial_loop_sends [OF assms(1,2)] assms(3) by (auto simp: serial_write_def)

text \<open>A chip that becomes ready at every third poll, and the string \<open>Hi\<close>.\<close>

definition third_poll :: "io_event list \<Rightarrow> io_event \<Rightarrow> u32" where
  "third_poll t e = (if 2 \<le> length (takeWhile ((=) poll) (rev t)) then 0x20 else 0)"

definition serial_machine :: io_state where
  "serial_machine = (tmpfs_state.extend tmp_fs (io_state.fields [] third_poll 0))
     \<lparr>mem := (\<lambda>_. 0)(0x3000 := 0x48, 0x3001 := 0x69)\<rparr>"

lemma third_poll_transmits: "transmits third_poll"
  unfolding transmits_def
proof
  fix t
  have "third_poll (t @ [poll, poll]) poll AND 0x20 \<noteq> 0" by (simp add: third_poll_def)
  then show "\<exists>k. third_poll (t @ replicate k poll) poll AND 0x20 \<noteq> 0"
    by (intro exI [where x = 2]) (simp add: numeral_2_eq_2)
qed

theorem serial_write_delivers_witness:
  "\<exists>t. serial_write serial_machine 0x3000 = Some (serial_machine\<lparr>bus := t\<rparr>) \<and> sent t = ascii ''Hi''"
proof -
  have "device serial_machine = third_poll" "cstr (mem serial_machine) 0x3000 (ascii ''Hi'')" "faulty serial_machine = 0"
    "bus serial_machine = []"
    by (simp_all add: serial_machine_def tmpfs_state.defs io_state.defs ascii_def)
  then show ?thesis
    using serial_write_delivers [where s = serial_machine and str = "0x3000" and bs = "ascii ''Hi''"] third_poll_transmits by fastforce
qed

end
