(* ===== verification/Pci.thy ===== *)
theory Pci
  imports Io
begin

text \<open>
  \<open>sys/src/arch/bus/pci/pci.c\<close>: configuration space access through the two ports 0xCF8 and 0xCFC,
  and the search for a device by class.

  \<open>config_bus\<close> is the documented behaviour of the host bridge: a read of the data port gives the
  double word of the configuration space that was addressed last.
\<close>

section \<open>Operations\<close>

abbreviation CONFIG_ADDR :: u16 where "CONFIG_ADDR \<equiv> 0xCF8"
abbreviation CONFIG_DATA :: u16 where "CONFIG_DATA \<equiv> 0xCFC"

record pcidev =
  pd_bus :: u8
  pd_slot :: u8
  pd_func :: u8
  pd_valid :: u8
  pd_bar0 :: u32
  pd_bar1 :: u32
  pd_bar2 :: u32
  pd_bar3 :: u32
  pd_bar4 :: u32
  pd_bar5 :: u32

definition config_address :: "u8 \<Rightarrow> u8 \<Rightarrow> u8 \<Rightarrow> u8 \<Rightarrow> u32" where
  "config_address pbus slot func offset =
     push_bit 16 (ucast pbus) OR push_bit 11 (ucast slot) OR push_bit 8 (ucast func) OR
     ucast (offset AND 0xFC) OR 0x80000000"

definition pci_config_read_word ::
    "'a io_state_scheme \<Rightarrow> u8 \<Rightarrow> u8 \<Rightarrow> u8 \<Rightarrow> u8 \<Rightarrow> u16 \<times> 'a io_state_scheme" where
  "pci_config_read_word s pbus slot func offset =
     (let s = outportl s CONFIG_ADDR (config_address pbus slot func offset);
          (v, s) = inportl s CONFIG_DATA
      in (ucast (drop_bit (unat ((offset AND 2) * 8)) v AND 0xFFFF), s))"

definition get_bar :: "u8 \<Rightarrow> u8 \<Rightarrow> 'a io_state_scheme \<Rightarrow> u8 \<Rightarrow> u8 \<Rightarrow> u8 \<Rightarrow> u32 \<times> 'a io_state_scheme" where
  "get_bar lo_off hi_off s pbus slot func =
     (let (lo, s) = pci_config_read_word s pbus slot func lo_off;
          (hi, s) = pci_config_read_word s pbus slot func hi_off
      in (push_bit 16 (ucast hi) OR ucast lo, s))"

definition get_bar0 :: "'a io_state_scheme \<Rightarrow> u8 \<Rightarrow> u8 \<Rightarrow> u8 \<Rightarrow> u32 \<times> 'a io_state_scheme" where
  "get_bar0 = get_bar 0x10 0x12"
definition get_bar1 :: "'a io_state_scheme \<Rightarrow> u8 \<Rightarrow> u8 \<Rightarrow> u8 \<Rightarrow> u32 \<times> 'a io_state_scheme" where
  "get_bar1 = get_bar 0x14 0x16"
definition get_bar2 :: "'a io_state_scheme \<Rightarrow> u8 \<Rightarrow> u8 \<Rightarrow> u8 \<Rightarrow> u32 \<times> 'a io_state_scheme" where
  "get_bar2 = get_bar 0x18 0x1A"
definition get_bar3 :: "'a io_state_scheme \<Rightarrow> u8 \<Rightarrow> u8 \<Rightarrow> u8 \<Rightarrow> u32 \<times> 'a io_state_scheme" where
  "get_bar3 = get_bar 0x1C 0x1E"
definition get_bar4 :: "'a io_state_scheme \<Rightarrow> u8 \<Rightarrow> u8 \<Rightarrow> u8 \<Rightarrow> u32 \<times> 'a io_state_scheme" where
  "get_bar4 = get_bar 0x20 0x22"
definition get_bar5 :: "'a io_state_scheme \<Rightarrow> u8 \<Rightarrow> u8 \<Rightarrow> u8 \<Rightarrow> u32 \<times> 'a io_state_scheme" where
  "get_bar5 = get_bar 0x24 0x26"

definition set_dev_bars ::
    "pcidev \<Rightarrow> 'a io_state_scheme \<Rightarrow> u8 \<Rightarrow> u8 \<Rightarrow> u8 \<Rightarrow> pcidev \<times> 'a io_state_scheme" where
  "set_dev_bars dev s pbus slot func =
     (let (b0, s) = get_bar0 s pbus slot func;
          (b1, s) = get_bar1 s pbus slot func;
          (b2, s) = get_bar2 s pbus slot func;
          (b3, s) = get_bar3 s pbus slot func;
          (b4, s) = get_bar4 s pbus slot func;
          (b5, s) = get_bar5 s pbus slot func
      in (dev\<lparr>pd_bar0 := b0, pd_bar1 := b1, pd_bar2 := b2, pd_bar3 := b3, pd_bar4 := b4, pd_bar5 := b5\<rparr>, s))"

text \<open>The body of the three loops: the class and the subclass are read separately.\<close>

definition class_matches ::
    "'a io_state_scheme \<Rightarrow> u16 \<Rightarrow> u16 \<Rightarrow> u8 \<Rightarrow> u8 \<Rightarrow> u8 \<Rightarrow> bool \<times> 'a io_state_scheme" where
  "class_matches s baseclass subclass pbus slot func =
     (let (c, s) = pci_config_read_word s pbus slot func 0xA;
          (d, s) = pci_config_read_word s pbus slot func 0xA
      in (drop_bit 8 c = baseclass \<and> subclass = d AND 0xFF, s))"

text \<open>The loop counters are bytes below a constant bound.\<close>

lemma counter_measure:
  fixes i n :: u8
  assumes "i < n" "unat n \<le> k"
  shows "k - unat (i + 1) < k - unat i"
proof -
  have "unat i < k" using assms by (simp add: word_less_nat_alt)
  then show ?thesis using unat_Suc_less [OF assms(1)] by simp
qed

function func_loop ::
    "'a io_state_scheme \<Rightarrow> u16 \<Rightarrow> u16 \<Rightarrow> u8 \<Rightarrow> u8 \<Rightarrow> u8 \<Rightarrow> (u8 \<times> u8 \<times> u8) option \<times> 'a io_state_scheme" where
  "func_loop s baseclass subclass pbus slot func =
     (if func < 8 then
        (let (hit, s) = class_matches s baseclass subclass pbus slot func
         in if hit then (Some (pbus, slot, func), s) else func_loop s baseclass subclass pbus slot (func + 1))
      else (None, s))"
  by pat_completeness auto
termination
  by (relation "measure (\<lambda>(s, b, c, p, l, f). 8 - unat f)") (auto intro: counter_measure)

declare func_loop.simps [simp del]

function slot_loop ::
    "'a io_state_scheme \<Rightarrow> u16 \<Rightarrow> u16 \<Rightarrow> u8 \<Rightarrow> u8 \<Rightarrow> (u8 \<times> u8 \<times> u8) option \<times> 'a io_state_scheme" where
  "slot_loop s baseclass subclass pbus slot =
     (if slot < 32 then
        (case func_loop s baseclass subclass pbus slot 0 of
           (Some d, s) \<Rightarrow> (Some d, s)
         | (None, s) \<Rightarrow> slot_loop s baseclass subclass pbus (slot + 1))
      else (None, s))"
  by pat_completeness auto
termination
  by (relation "measure (\<lambda>(s, b, c, p, l). 32 - unat l)") (auto intro: counter_measure)

declare slot_loop.simps [simp del]

function bus_loop ::
    "'a io_state_scheme \<Rightarrow> u16 \<Rightarrow> u16 \<Rightarrow> u8 \<Rightarrow> (u8 \<times> u8 \<times> u8) option \<times> 'a io_state_scheme" where
  "bus_loop s baseclass subclass pbus =
     (if pbus < 5 then
        (case slot_loop s baseclass subclass pbus 0 of
           (Some d, s) \<Rightarrow> (Some d, s)
         | (None, s) \<Rightarrow> bus_loop s baseclass subclass (pbus + 1))
      else (None, s))"
  by pat_completeness auto
termination
  by (relation "measure (\<lambda>(s, b, c, p). 5 - unat p)") (auto intro: counter_measure)

declare bus_loop.simps [simp del]

text \<open>The result \<open>ret\<close> is a local variable of which only \<open>valid\<close> is set at first: what it held before
  is the argument \<open>junk\<close>.\<close>

definition pci_locate_device ::
    "pcidev \<Rightarrow> 'a io_state_scheme \<Rightarrow> u16 \<Rightarrow> u16 \<Rightarrow> pcidev \<times> 'a io_state_scheme" where
  "pci_locate_device junk s baseclass subclass =
     (let ret = junk\<lparr>pd_valid := 0\<rparr>
      in case bus_loop s baseclass subclass 0 of
           (Some (pbus, slot, func), s) \<Rightarrow>
             set_dev_bars (ret\<lparr>pd_valid := 1, pd_bus := pbus, pd_slot := slot, pd_func := func\<rparr>) s pbus slot func
         | (None, s) \<Rightarrow> (ret, s))"

section \<open>The configuration space\<close>

text \<open>The host bridge answers a read of the data port with the double word addressed last.\<close>

definition config_bus :: "(io_event list \<Rightarrow> io_event \<Rightarrow> u32) \<Rightarrow> (u32 \<Rightarrow> u32) \<Rightarrow> bool" where
  "config_bus dev conf \<longleftrightarrow> (\<forall>t a. dev (t @ [OutL CONFIG_ADDR a]) (InL CONFIG_DATA) = conf a)"

text \<open>Only the trace of bus accesses grows.\<close>

definition bus_grows :: "'a io_state_scheme \<Rightarrow> 'a io_state_scheme \<Rightarrow> bool" where
  "bus_grows s s' \<longleftrightarrow> (\<exists>t. s' = s\<lparr>bus := bus s @ t\<rparr>)"

lemma bus_grows_refl [simp]: "bus_grows s s"
  unfolding bus_grows_def by (rule exI [of _ "[]"]) simp

lemma bus_grows_trans [trans]: "bus_grows s s' \<Longrightarrow> bus_grows s' s'' \<Longrightarrow> bus_grows s s''"
  by (auto simp: bus_grows_def intro: exI [of _ "_ @ _"])

lemma bus_grows_emit: "bus_grows s (emit e s)"
  by (auto simp: bus_grows_def emit_def)

lemma bus_grows_device: "bus_grows s s' \<Longrightarrow> device s' = device s"
  by (auto simp: bus_grows_def)

definition config_word :: "(u32 \<Rightarrow> u32) \<Rightarrow> u8 \<Rightarrow> u8 \<Rightarrow> u8 \<Rightarrow> u8 \<Rightarrow> u16" where
  "config_word conf p l f off = ucast (drop_bit (unat ((off AND 2) * 8)) (conf (config_address p l f off)))"

lemma config_read:
  assumes "config_bus (device s) conf"
  shows "fst (pci_config_read_word s p l f off) = config_word conf p l f off"
    "bus_grows s (snd (pci_config_read_word s p l f off))"
proof -
  have "(ucast (w AND 0xFFFF) :: u16) = ucast w" for w :: u32
  proof -
    have "w AND 0xFFFF = take_bit 16 w" by (simp add: take_bit_eq_mask mask_numeral)
    then show ?thesis by (simp add: bit_eq_iff bit_simps)
  qed
  then show "fst (pci_config_read_word s p l f off) = config_word conf p l f off"
    using assms
    by (simp add: pci_config_read_word_def config_word_def outportl_def inportl_def answer_def config_bus_def)
  show "bus_grows s (snd (pci_config_read_word s p l f off))"
    by (auto simp: pci_config_read_word_def outportl_def inportl_def answer_def
        intro: bus_grows_trans bus_grows_emit)
qed

text \<open>The two halves of a base address register are the two halves of one double word.\<close>

lemma halves_join: "push_bit 16 (ucast (ucast (drop_bit 16 v) :: u16)) OR ucast (ucast v :: u16) = (v :: u32)"
  by (rule bit_word_eqI) (auto simp: bit_simps)

lemma get_bar_spec:
  assumes "config_bus (device s) conf" "config_address p l f hi = config_address p l f lo" "lo AND 2 = 0" "hi AND 2 = 2"
  shows "fst (get_bar lo hi s p l f) = conf (config_address p l f lo)" "bus_grows s (snd (get_bar lo hi s p l f))"
proof -
  obtain v s1 where 1: "pci_config_read_word s p l f lo = (v, s1)" by fastforce
  obtain w s2 where 2: "pci_config_read_word s1 p l f hi = (w, s2)" by fastforce
  have g: "bus_grows s s1" and v: "v = config_word conf p l f lo" using config_read [OF assms(1), of p l f lo] 1 by simp_all
  then have "config_bus (device s1) conf" using assms(1) by (simp add: bus_grows_device)
  from config_read [OF this, of p l f hi] have w: "w = config_word conf p l f hi" "bus_grows s1 s2" using 2 by simp_all
  show "fst (get_bar lo hi s p l f) = conf (config_address p l f lo)"
    using halves_join assms(2-4) by (simp add: get_bar_def 1 2 v w config_word_def)
  show "bus_grows s (snd (get_bar lo hi s p l f))"
    using g w(2) by (auto simp: get_bar_def 1 2 intro: bus_grows_trans)
qed

text \<open>A bus whose bridge answers from the configuration space, and a state that differs from it only by
  more accesses.\<close>

definition bridged :: "(u32 \<Rightarrow> u32) \<Rightarrow> 'a io_state_scheme \<Rightarrow> 'a io_state_scheme \<Rightarrow> bool" where
  "bridged conf s s' \<longleftrightarrow> bus_grows s s' \<and> config_bus (device s') conf"

lemma bridged_refl: "config_bus (device s) conf \<Longrightarrow> bridged conf s s"
  by (simp add: bridged_def)

lemma bridged_step: "bridged conf s s' \<Longrightarrow> bus_grows s' s'' \<Longrightarrow> bridged conf s s''"
  by (metis bridged_def bus_grows_device bus_grows_trans)

lemma config_read_step:
  assumes "bridged conf s s'"
  obtains s'' where "pci_config_read_word s' p l f off = (config_word conf p l f off, s'')" "bridged conf s s''"
  using config_read [of s' conf p l f off] assms bridged_step [OF assms]
  by (metis bridged_def prod.collapse)

lemma get_bar_step:
  assumes "bridged conf s s'" "config_address p l f hi = config_address p l f lo" "lo AND 2 = 0" "hi AND 2 = 2"
  shows "\<exists>s''. get_bar lo hi s' p l f = (conf (config_address p l f lo), s'') \<and> bridged conf s s''"
  using get_bar_spec [OF _ assms(2-4), of s' conf] bridged_step [OF assms(1)] assms(1)
  by (metis bridged_def prod.collapse)

lemma get_bars_step:
  assumes "bridged conf s s'"
  shows "\<exists>s''. get_bar0 s' p l f = (conf (config_address p l f 0x10), s'') \<and> bridged conf s s''"
    "\<exists>s''. get_bar1 s' p l f = (conf (config_address p l f 0x14), s'') \<and> bridged conf s s''"
    "\<exists>s''. get_bar2 s' p l f = (conf (config_address p l f 0x18), s'') \<and> bridged conf s s''"
    "\<exists>s''. get_bar3 s' p l f = (conf (config_address p l f 0x1C), s'') \<and> bridged conf s s''"
    "\<exists>s''. get_bar4 s' p l f = (conf (config_address p l f 0x20), s'') \<and> bridged conf s s''"
    "\<exists>s''. get_bar5 s' p l f = (conf (config_address p l f 0x24), s'') \<and> bridged conf s s''"
  unfolding get_bar0_def get_bar1_def get_bar2_def get_bar3_def get_bar4_def get_bar5_def
  by (rule get_bar_step [OF assms]; simp add: config_address_def)+

definition with_bars :: "(u32 \<Rightarrow> u32) \<Rightarrow> pcidev \<Rightarrow> u8 \<Rightarrow> u8 \<Rightarrow> u8 \<Rightarrow> pcidev" where
  "with_bars conf dev p l f = dev\<lparr>pd_bar0 := conf (config_address p l f 0x10), pd_bar1 := conf (config_address p l f 0x14),
     pd_bar2 := conf (config_address p l f 0x18), pd_bar3 := conf (config_address p l f 0x1C),
     pd_bar4 := conf (config_address p l f 0x20), pd_bar5 := conf (config_address p l f 0x24)\<rparr>"

lemma set_dev_bars_spec:
  assumes "bridged conf s s'"
  shows "\<exists>s''. set_dev_bars dev s' p l f = (with_bars conf dev p l f, s'') \<and> bridged conf s s''"
proof -
  obtain s1 where 1: "get_bar0 s' p l f = (conf (config_address p l f 0x10), s1)" "bridged conf s s1"
    using get_bars_step(1) [OF assms] by blast
  obtain s2 where 2: "get_bar1 s1 p l f = (conf (config_address p l f 0x14), s2)" "bridged conf s s2"
    using get_bars_step(2) [OF 1(2)] by blast
  obtain s3 where 3: "get_bar2 s2 p l f = (conf (config_address p l f 0x18), s3)" "bridged conf s s3"
    using get_bars_step(3) [OF 2(2)] by blast
  obtain s4 where 4: "get_bar3 s3 p l f = (conf (config_address p l f 0x1C), s4)" "bridged conf s s4"
    using get_bars_step(4) [OF 3(2)] by blast
  obtain s5 where 5: "get_bar4 s4 p l f = (conf (config_address p l f 0x20), s5)" "bridged conf s s5"
    using get_bars_step(5) [OF 4(2)] by blast
  obtain s6 where 6: "get_bar5 s5 p l f = (conf (config_address p l f 0x24), s6)" "bridged conf s s6"
    using get_bars_step(6) [OF 5(2)] by blast
  show ?thesis using 6(2) by (simp add: set_dev_bars_def with_bars_def 1 2 3 4 5 6)
qed

section \<open>The search\<close>

definition upto_u8 :: "u8 \<Rightarrow> u8 \<Rightarrow> u8 list" where
  "upto_u8 a b = map of_nat [unat a..<unat b]"

lemma upto_u8_step: "a < b \<Longrightarrow> upto_u8 a b = a # upto_u8 (a + 1) b" "\<not> a < b \<Longrightarrow> upto_u8 a b = []"
  by (auto simp: upto_u8_def upt_conv_Cons unat_Suc_less word_less_nat_alt)

definition funcs :: "u8 \<Rightarrow> u8 \<Rightarrow> u8 \<Rightarrow> (u8 \<times> u8 \<times> u8) list" where
  "funcs p l f = map (\<lambda>f. (p, l, f)) (upto_u8 f 8)"

definition slots :: "u8 \<Rightarrow> u8 \<Rightarrow> (u8 \<times> u8 \<times> u8) list" where
  "slots p l = concat (map (\<lambda>l. funcs p l 0) (upto_u8 l 32))"

definition buses :: "u8 \<Rightarrow> (u8 \<times> u8 \<times> u8) list" where
  "buses p = concat (map (\<lambda>p. slots p 0) (upto_u8 p 5))"

text \<open>The class code of a function is the upper half of the double word at offset 8.\<close>

definition of_class :: "(u32 \<Rightarrow> u32) \<Rightarrow> u16 \<Rightarrow> u16 \<Rightarrow> u8 \<times> u8 \<times> u8 \<Rightarrow> bool" where
  "of_class conf c sc = (\<lambda>(p, l, f). drop_bit 24 (conf (config_address p l f 8)) = ucast c \<and>
     drop_bit 16 (conf (config_address p l f 8)) AND 0xFF = ucast sc)"

lemma class_word:
  "drop_bit 8 (config_word conf p l f 0xA) = c \<longleftrightarrow> drop_bit 24 (conf (config_address p l f 8)) = ucast c"
  "sc = config_word conf p l f 0xA AND 0xFF \<longleftrightarrow> drop_bit 16 (conf (config_address p l f 8)) AND 0xFF = ucast sc"
proof -
  define v where "v = conf (config_address p l f 8)"
  have w: "config_word conf p l f 0xA = ucast (drop_bit 16 v)" by (simp add: config_word_def config_address_def v_def)
  have 1: "drop_bit 24 v = ucast (drop_bit 8 (ucast (drop_bit 16 v) :: u16))"
    "drop_bit 8 (ucast (drop_bit 16 v) :: u16) = ucast (drop_bit 24 v)"
    by (rule bit_word_eqI; auto simp: bit_simps dest: bit_imp_le_length)+
  have 2: "drop_bit 16 v AND 0xFF = ucast ((ucast (drop_bit 16 v) :: u16) AND 0xFF)"
    "(ucast (drop_bit 16 v) :: u16) AND 0xFF = ucast (drop_bit 16 v AND 0xFF)"
    by (rule bit_word_eqI; auto simp: bit_simps dest: bit_imp_le_length)+
  have 3: "ucast (ucast x :: u32) = x" for x :: u16 by (rule bit_word_eqI) (auto simp: bit_simps)
  show "drop_bit 8 (config_word conf p l f 0xA) = c \<longleftrightarrow> drop_bit 24 (conf (config_address p l f 8)) = ucast c"
    unfolding w v_def [symmetric] using 1 3 by metis
  show "sc = config_word conf p l f 0xA AND 0xFF \<longleftrightarrow> drop_bit 16 (conf (config_address p l f 8)) AND 0xFF = ucast sc"
    unfolding w v_def [symmetric] using 2 3 by metis
qed

lemma class_matches_spec:
  assumes "bridged conf s s'"
  shows "\<exists>s''. class_matches s' c sc p l f = (of_class conf c sc (p, l, f), s'') \<and> bridged conf s s''"
proof -
  obtain s1 where 1: "pci_config_read_word s' p l f 0xA = (config_word conf p l f 0xA, s1)" "bridged conf s s1"
    using config_read_step [OF assms] by blast
  obtain s2 where 2: "pci_config_read_word s1 p l f 0xA = (config_word conf p l f 0xA, s2)" "bridged conf s s2"
    using config_read_step [OF 1(2)] by blast
  show ?thesis using 2(2) by (simp add: class_matches_def 1(1) 2(1) of_class_def class_word)
qed

lemma find_append: "find P (xs @ ys) = (case find P xs of None \<Rightarrow> find P ys | Some x \<Rightarrow> Some x)"
  by (induction xs) simp_all

lemma func_loop_spec:
  "bridged conf s s' \<Longrightarrow>
    \<exists>s''. func_loop s' c sc p l f = (find (of_class conf c sc) (funcs p l f), s'') \<and> bridged conf s s''"
proof (induction s' c sc p l f rule: func_loop.induct)
  case (1 s' c sc p l f)
  obtain s1 where 1: "class_matches s' c sc p l f = (of_class conf c sc (p, l, f), s1)" "bridged conf s s1"
    using class_matches_spec [OF "1.prems"] by blast
  then show ?case
    using "1.IH" [OF _ 1(1) [symmetric]] "1.prems"
    by (subst func_loop.simps) (auto simp: funcs_def upto_u8_step)
qed

lemma slot_loop_spec:
  "bridged conf s s' \<Longrightarrow>
    \<exists>s''. slot_loop s' c sc p l = (find (of_class conf c sc) (slots p l), s'') \<and> bridged conf s s''"
proof (induction s' c sc p l rule: slot_loop.induct)
  case (1 s' c sc p l)
  obtain s1 where 1: "func_loop s' c sc p l 0 = (find (of_class conf c sc) (funcs p l 0), s1)" "bridged conf s s1"
    using func_loop_spec [OF "1.prems"] by blast
  then show ?case
    using "1.IH" [OF _ 1(1) [symmetric]] "1.prems"
    by (subst slot_loop.simps) (auto simp: slots_def upto_u8_step find_append split: option.splits)
qed

lemma bus_loop_spec:
  "bridged conf s s' \<Longrightarrow>
    \<exists>s''. bus_loop s' c sc p = (find (of_class conf c sc) (buses p), s'') \<and> bridged conf s s''"
proof (induction s' c sc p rule: bus_loop.induct)
  case (1 s' c sc p)
  obtain s1 where 1: "slot_loop s' c sc p 0 = (find (of_class conf c sc) (slots p 0), s1)" "bridged conf s s1"
    using slot_loop_spec [OF "1.prems"] by blast
  then show ?case
    using "1.IH" [OF _ 1(1) [symmetric]] "1.prems"
    by (subst bus_loop.simps) (auto simp: buses_def upto_u8_step find_append split: option.splits)
qed

section \<open>Claims\<close>

text \<open>The result for the device found at a position, or for none.\<close>

definition located :: "(u32 \<Rightarrow> u32) \<Rightarrow> pcidev \<Rightarrow> (u8 \<times> u8 \<times> u8) option \<Rightarrow> pcidev" where
  "located conf junk d = (case d of
     None \<Rightarrow> junk\<lparr>pd_valid := 0\<rparr>
   | Some (p, l, f) \<Rightarrow> with_bars conf (junk\<lparr>pd_valid := 1, pd_bus := p, pd_slot := l, pd_func := f\<rparr>) p l f)"

text \<open>C24: The search returns the first function, in the order of bus, slot and function number over
  buses 0 to 4, whose class code is the one asked for, with its six base address registers; when there
  is none only \<open>valid\<close> of the result is defined.  Nothing but the trace of the bus changes.\<close>

theorem pci_locate_device_correct:
  assumes "config_bus (device s) conf"
  shows "fst (pci_locate_device junk s c sc) = located conf junk (find (of_class conf c sc) (buses 0)) \<and>
    bus_grows s (snd (pci_locate_device junk s c sc))"
proof -
  obtain s1 where 1: "bus_loop s c sc 0 = (find (of_class conf c sc) (buses 0), s1)" "bridged conf s s1"
    using bus_loop_spec [OF bridged_refl [OF assms]] by blast
  show ?thesis
  proof (cases "find (of_class conf c sc) (buses 0)")
    case None
    then show ?thesis using 1 by (simp add: pci_locate_device_def located_def bridged_def)
  next
    case (Some d)
    obtain p l f where d: "d = (p, l, f)" by (cases d)
    define dev where "dev = junk\<lparr>pd_valid := 1, pd_bus := p, pd_slot := l, pd_func := f\<rparr>"
    obtain s2 where "set_dev_bars dev s1 p l f = (with_bars conf dev p l f, s2)" "bridged conf s s2"
      using set_dev_bars_spec [OF 1(2)] by blast
    then show ?thesis using 1 Some by (simp add: pci_locate_device_def located_def d dev_def bridged_def)
  qed
qed

text \<open>A bus with a bridge at slot 0 and a SATA controller at slot 31, function 2.\<close>

definition demo_config :: "u32 \<Rightarrow> u32" where
  "demo_config a = (if a = 0x8000FA08 then 0x01060100 else if a = 0x8000FA24 then 0xFEBD5000 else
     if a = 0x80000008 then 0x06000000 else 0xFFFFFFFF)"

fun demo_bridge :: "io_event list \<Rightarrow> io_event \<Rightarrow> u32" where
  "demo_bridge t (InL p) = (case rev t of OutL _ a # _ \<Rightarrow> demo_config a | _ \<Rightarrow> 0)"
| "demo_bridge t _ = 0"

definition pci_machine :: io_state where
  "pci_machine = serial_machine\<lparr>device := demo_bridge\<rparr>"

definition blank_dev :: pcidev where
  "blank_dev = \<lparr>pd_bus = 0, pd_slot = 0, pd_func = 0, pd_valid = 0, pd_bar0 = 0, pd_bar1 = 0, pd_bar2 = 0, pd_bar3 = 0,
     pd_bar4 = 0, pd_bar5 = 0\<rparr>"

theorem pci_locate_device_correct_witness:
  "fst (pci_locate_device blank_dev pci_machine 0x01 0x06) =
    located demo_config blank_dev (find (of_class demo_config 0x01 0x06) (buses 0))"
proof -
  have "config_bus (device pci_machine) demo_config" by (simp add: config_bus_def pci_machine_def)
  then show ?thesis using pci_locate_device_correct [of pci_machine demo_config blank_dev "0x01" "0x06"] by simp
qed

end
