(* ===== verification/Framebuffer.thy ===== *)
theory Framebuffer
  imports Io Font
begin

text \<open>
  \<open>sys/src/drivers/video/framebuffer.c\<close>: the linear framebuffer, character drawing and the ioctl that
  user programs reach through a system call.

  \<open>framebuffers\<close> is the loader's answer to the framebuffer request, a list of pointers to
  \<open>struct limine_framebuffer\<close>; \<open>font_data\<close> is the address of \<open>DEFAULT_FONT_DATA\<close>.  The locale
  \<open>canvas\<close> is the contract of putting one pixel; it is interpreted on \<open>framebuffer_putpix\<close>, and all
  drawing loops are shown to be sequences of such steps.
\<close>

section \<open>State and operations\<close>

record fb_state = io_state +
  framebuffers :: "u64 list"
  framebuffer :: u64
  font_data :: u64

definition fb_address :: "memory \<Rightarrow> u64 \<Rightarrow> u64" where "fb_address m fb = ld64 m fb"
definition fb_width :: "memory \<Rightarrow> u64 \<Rightarrow> u64" where "fb_width m fb = ld64 m (fb + 8)"
definition fb_height :: "memory \<Rightarrow> u64 \<Rightarrow> u64" where "fb_height m fb = ld64 m (fb + 16)"
definition fb_pitch :: "memory \<Rightarrow> u64 \<Rightarrow> u64" where "fb_pitch m fb = ld64 m (fb + 24)"

abbreviation FRAMEBUFFER_IOCTL_CLEAR :: u64 where "FRAMEBUFFER_IOCTL_CLEAR \<equiv> 0"
abbreviation FRAMEBUFFER_IOCTL_PUTPIX :: u64 where "FRAMEBUFFER_IOCTL_PUTPIX \<equiv> 1"
abbreviation FRAMEBUFFER_IOCTL_PUTSTR :: u64 where "FRAMEBUFFER_IOCTL_PUTSTR \<equiv> 2"
abbreviation FRAMEBUFFER_GET_PIXEL :: u64 where "FRAMEBUFFER_GET_PIXEL \<equiv> 3"

text \<open>The sum is a 64-bit number, the result is its lower half.\<close>

definition framebuffer_get_index :: "'a fb_state_scheme \<Rightarrow> u32 \<Rightarrow> u32 \<Rightarrow> u32" where
  "framebuffer_get_index s x y = ucast (ucast x + ucast y * (fb_pitch (mem s) (framebuffer s) div 4))"

definition off_screen :: "'a fb_state_scheme \<Rightarrow> u32 \<Rightarrow> u32 \<Rightarrow> bool" where
  "off_screen s x y \<longleftrightarrow> fb_width (mem s) (framebuffer s) - 1 < ucast x \<or> fb_height (mem s) (framebuffer s) - 1 < ucast y"

definition pixel_addr :: "'a fb_state_scheme \<Rightarrow> u32 \<Rightarrow> u32 \<Rightarrow> u64" where
  "pixel_addr s x y = fb_address (mem s) (framebuffer s) + 4 * ucast (framebuffer_get_index s x y)"

definition getpix :: "'a fb_state_scheme \<Rightarrow> u32 \<Rightarrow> u32 \<Rightarrow> u32" where
  "getpix s x y = (if off_screen s x y then 0 else ld32 (mem s) (pixel_addr s x y))"

definition framebuffer_putpix :: "'a fb_state_scheme \<Rightarrow> u32 \<Rightarrow> u32 \<Rightarrow> u32 \<Rightarrow> 'a fb_state_scheme" where
  "framebuffer_putpix s x y color =
     (if off_screen s x y then s else s\<lparr>mem := st32 (mem s) (pixel_addr s x y) color\<rparr>)"

text \<open>The character is signed, so the index of its columns is the sign extension of its value less 32.\<close>

definition font_column :: "'a fb_state_scheme \<Rightarrow> u8 \<Rightarrow> u32 \<Rightarrow> u16" where
  "font_column s c cx = ld16 (mem s) (font_data s + 2 * (scast c * ucast FONT_WIDTH + ucast cx))"

function putch_rows ::
    "'a fb_state_scheme \<Rightarrow> u32 \<Rightarrow> u32 \<Rightarrow> u8 \<Rightarrow> u32 \<Rightarrow> u32 \<Rightarrow> u32 \<Rightarrow> u32 \<Rightarrow> 'a fb_state_scheme" where
  "putch_rows s x y c bg fg cx cy =
     (if cy < FONT_HEIGHT then
        let col = drop_bit (unat cy) (font_column s c cx) AND 1
        in putch_rows (framebuffer_putpix s (x + cx) (y + cy) (if col \<noteq> 0 then fg else bg)) x y c bg fg cx (cy + 1)
      else s)"
  by pat_completeness auto
termination
  by (relation "measure (\<lambda>(s, x, y, c, bg, fg, cx, cy). unat (FONT_HEIGHT - cy))") (simp, simp only: in_measure case_prod_conv loop_measure)

declare putch_rows.simps [simp del]

function putch_cols ::
    "'a fb_state_scheme \<Rightarrow> u32 \<Rightarrow> u32 \<Rightarrow> u8 \<Rightarrow> u32 \<Rightarrow> u32 \<Rightarrow> u32 \<Rightarrow> 'a fb_state_scheme" where
  "putch_cols s x y c bg fg cx =
     (if cx < FONT_WIDTH then putch_cols (putch_rows s x y c bg fg cx 0) x y c bg fg (cx + 1) else s)"
  by pat_completeness auto
termination
  by (relation "measure (\<lambda>(s, x, y, c, bg, fg, cx). unat (FONT_WIDTH - cx))") (simp, simp only: in_measure case_prod_conv loop_measure)

declare putch_cols.simps [simp del]

definition framebuffer_putch :: "'a fb_state_scheme \<Rightarrow> u32 \<Rightarrow> u32 \<Rightarrow> u8 \<Rightarrow> u32 \<Rightarrow> u32 \<Rightarrow> 'a fb_state_scheme" where
  "framebuffer_putch s x y c bg fg = putch_cols s x y (c - 32) bg fg 0"

text \<open>The bounds of \<open>framebuffer_clear\<close> are 64-bit numbers read again in every round while the counters
  have 32 bits, so the loops need not end.\<close>

partial_function (option) clear_row :: "'a fb_state_scheme \<Rightarrow> u32 \<Rightarrow> u32 \<Rightarrow> u32 \<Rightarrow> 'a fb_state_scheme option" where
  "clear_row s color y x =
     (if ucast x < fb_pitch (mem s) (framebuffer s) then clear_row (framebuffer_putpix s x y color) color y (x + 1)
      else Some s)"

partial_function (option) clear_rows :: "'a fb_state_scheme \<Rightarrow> u32 \<Rightarrow> u32 \<Rightarrow> 'a fb_state_scheme option" where
  "clear_rows s color y =
     (if ucast y < fb_height (mem s) (framebuffer s) then
        do { s \<leftarrow> clear_row s color y 0; clear_rows s color (y + 1) }
      else Some s)"

definition framebuffer_clear :: "'a fb_state_scheme \<Rightarrow> u32 \<Rightarrow> 'a fb_state_scheme option" where
  "framebuffer_clear s color = clear_rows s color 0"

definition framebuffer_get_height :: "'a fb_state_scheme \<Rightarrow> u32" where
  "framebuffer_get_height s = ucast (fb_height (mem s) (framebuffer s))"

definition framebuffer_get_width :: "'a fb_state_scheme \<Rightarrow> u32" where
  "framebuffer_get_width s = ucast (fb_width (mem s) (framebuffer s))"

definition framebuffer_init :: "'a fb_state_scheme \<Rightarrow> 'a fb_state_scheme" where
  "framebuffer_init s = s\<lparr>framebuffer := framebuffers s ! 0\<rparr>"

partial_function (option) ioctl_putstr ::
    "'a fb_state_scheme \<Rightarrow> u64 \<Rightarrow> u32 \<Rightarrow> u32 \<Rightarrow> u32 \<Rightarrow> u32 \<Rightarrow> u32 \<Rightarrow> u64 \<Rightarrow> 'a fb_state_scheme option" where
  "ioctl_putstr s str orig_x x y bg fg i =
     do {
       n \<leftarrow> kstrlen (mem s) str;
       if i < n then
         (if mem s (str + i) = 0x0A then ioctl_putstr s str orig_x orig_x (y + (FONT_HEIGHT + 4)) bg fg (i + 1)
          else ioctl_putstr (framebuffer_putch s x y (mem s (str + i)) bg fg) str orig_x (x + FONT_WIDTH) y bg fg (i + 1))
       else Some s
     }"

text \<open>\<open>args\<close> is an array of twenty numbers of the caller.\<close>

definition framebuffer_ioctl ::
    "'a fb_state_scheme \<Rightarrow> u64 \<Rightarrow> (nat \<Rightarrow> u64) \<Rightarrow> (u64 \<times> 'a fb_state_scheme) option" where
  "framebuffer_ioctl s cmd args =
     (if cmd = FRAMEBUFFER_IOCTL_CLEAR then
        do { s \<leftarrow> framebuffer_clear s (ucast (args 0)); Some (0, s) }
      else if cmd = FRAMEBUFFER_IOCTL_PUTPIX then
        (if ucast (framebuffer_get_width s - 5) < args 0 \<or> ucast (framebuffer_get_height s - 5) < args 1 then Some (0, s)
         else Some (0, framebuffer_putpix s (ucast (args 0)) (ucast (args 1)) (ucast (args 2))))
      else if cmd = FRAMEBUFFER_IOCTL_PUTSTR then
        do {
          s \<leftarrow> ioctl_putstr s (args 2) (ucast (args 0)) (ucast (args 0)) (ucast (args 1)) (ucast (args 3)) (ucast (args 4)) 0;
          Some (0, s)
        }
      else if cmd = FRAMEBUFFER_GET_PIXEL then Some (ucast (getpix s (ucast (args 0)) (ucast (args 1))), s)
      else Some (0, s))"

section \<open>The contract of a canvas\<close>

text \<open>Painting a list of points, and the colour that a point has after it.\<close>

fun paint :: "('s \<Rightarrow> u32 \<Rightarrow> u32 \<Rightarrow> u32 \<Rightarrow> 's) \<Rightarrow> 's \<Rightarrow> (u32 \<times> u32 \<times> u32) list \<Rightarrow> 's" where
  "paint put s [] = s"
| "paint put s ((x, y, c) # ps) = paint put (put s x y c) ps"

fun colour_at :: "(u32 \<times> u32 \<times> u32) list \<Rightarrow> u32 \<Rightarrow> u32 \<Rightarrow> u32 \<Rightarrow> u32" where
  "colour_at [] x y d = d"
| "colour_at ((x', y', c) # ps) x y d = colour_at ps x y (if x = x' \<and> y = y' then c else d)"

lemma paint_append: "paint put s (ps @ qs) = paint put (paint put s ps) qs"
  by (induction ps arbitrary: s) auto

lemma colour_at_append: "colour_at (ps @ qs) x y d = colour_at qs x y (colour_at ps x y d)"
  by (induction ps arbitrary: d) auto

lemma colour_at_uniform:
  assumes "\<forall>(x', y', c) \<in> set ps. c = k"
  shows "colour_at ps x y d = (if (x, y, k) \<in> set ps then k else d)"
  using assms by (induction ps arbitrary: d) (auto split: if_splits)

lemma colour_at_absent: "\<forall>c. (x, y, c) \<notin> set ps \<Longrightarrow> colour_at ps x y d = d"
  by (induction ps arbitrary: d) auto

lemma colour_at_function:
  assumes "(x, y, c) \<in> set ps" "\<And>c'. (x, y, c') \<in> set ps \<Longrightarrow> c' = c"
  shows "colour_at ps x y d = c"
proof -
  have "colour_at ps x y d = (if \<exists>c. (x, y, c) \<in> set ps then c else d)"
    using assms(2) by (induction ps arbitrary: d) auto
  then show ?thesis using assms(1) by auto
qed

locale canvas =
  fixes ok :: "'s \<Rightarrow> bool" and shown :: "'s \<Rightarrow> u32 \<Rightarrow> u32 \<Rightarrow> bool"
    and put :: "'s \<Rightarrow> u32 \<Rightarrow> u32 \<Rightarrow> u32 \<Rightarrow> 's" and pix :: "'s \<Rightarrow> u32 \<Rightarrow> u32 \<Rightarrow> u32" and rest :: "'s \<Rightarrow> 'r"
  assumes ok_put: "ok s \<Longrightarrow> ok (put s x y c)"
    and shown_put: "ok s \<Longrightarrow> shown (put s x y c) = shown s"
    and pix_put: "ok s \<Longrightarrow> shown s x' y' \<Longrightarrow>
      pix (put s x y c) x' y' = (if x' = x \<and> y' = y then c else pix s x' y')"
    and rest_put: "ok s \<Longrightarrow> rest (put s x y c) = rest s"
begin

lemma paint_ok: "ok s \<Longrightarrow> ok (paint put s ps)"
  by (induction ps arbitrary: s) (auto simp: ok_put)

lemma paint_shown: "ok s \<Longrightarrow> shown (paint put s ps) = shown s"
  by (induction ps arbitrary: s) (auto simp: ok_put shown_put)

lemma paint_rest: "ok s \<Longrightarrow> rest (paint put s ps) = rest s"
  by (induction ps arbitrary: s) (auto simp: ok_put rest_put)

lemma paint_pix: "ok s \<Longrightarrow> shown s x y \<Longrightarrow> pix (paint put s ps) x y = colour_at ps x y (pix s x y)"
proof (induction ps arbitrary: s)
  case (Cons p ps)
  obtain x' y' c where "p = (x', y', c)" by (cases p)
  then show ?case using Cons.IH [of "put s x' y' c"] Cons.prems by (simp add: ok_put shown_put pix_put)
qed simp

end

section \<open>The framebuffer is a canvas\<close>

abbreviation fb_base :: "'a fb_state_scheme \<Rightarrow> u64" where "fb_base s \<equiv> fb_address (mem s) (framebuffer s)"
definition fb_w :: "'a fb_state_scheme \<Rightarrow> nat" where "fb_w s = unat (fb_width (mem s) (framebuffer s))"
definition fb_h :: "'a fb_state_scheme \<Rightarrow> nat" where "fb_h s = unat (fb_height (mem s) (framebuffer s))"
definition fb_p :: "'a fb_state_scheme \<Rightarrow> nat" where "fb_p s = unat (fb_pitch (mem s) (framebuffer s))"

abbreviation screen_size :: "'a fb_state_scheme \<Rightarrow> u64" where
  "screen_size s \<equiv> fb_height (mem s) (framebuffer s) * fb_pitch (mem s) (framebuffer s)"

text \<open>A framebuffer as a loader delivers it: lines of whole pixels, all pixel indices representable in 32
  bits, and the pixels apart from the descriptor and from the font.\<close>

definition fb_ok :: "'a fb_state_scheme \<Rightarrow> bool" where
  "fb_ok s \<longleftrightarrow> 0 < fb_w s \<and> 0 < fb_h s \<and> fb_h s < 4294967296 \<and> 4 * fb_w s \<le> fb_p s \<and> fb_p s < 4294967296 \<and>
     fb_p s mod 4 = 0 \<and> fb_h s * (fb_p s div 4) \<le> 4294967296 \<and>
     unat (fb_base s) + fb_h s * fb_p s \<le> 18446744073709551616 \<and>
     ranges_disjoint (fb_base s) (screen_size s) (framebuffer s) 32 \<and>
     ranges_disjoint (fb_base s) (screen_size s) (font_data s) 1710"

definition shown :: "'a fb_state_scheme \<Rightarrow> u32 \<Rightarrow> u32 \<Rightarrow> bool" where
  "shown s x y \<longleftrightarrow> unat x < fb_w s \<and> unat y < fb_h s"

text \<open>The bytes of the visible pixels: the padding at the end of a line does not belong to them.\<close>

definition visible_byte :: "'a fb_state_scheme \<Rightarrow> u64 \<Rightarrow> bool" where
  "visible_byte s a \<longleftrightarrow> (let d = unat (a - fb_base s) in d < fb_h s * fb_p s \<and> d mod fb_p s < 4 * fb_w s)"

definition rest :: "'a fb_state_scheme \<Rightarrow> 'a fb_state_scheme" where
  "rest s = s\<lparr>mem := (\<lambda>a. if visible_byte s a then 0 else mem s a)\<rparr>"

lemma screen_size: "fb_ok s \<Longrightarrow> unat (screen_size s) = fb_h s * fb_p s"
proof -
  assume ok: "fb_ok s"
  then have "fb_h s * (fb_p s div 4) * 4 \<le> 4294967296 * 4" unfolding fb_ok_def by simp
  moreover have "fb_p s div 4 * 4 = fb_p s" using ok by (auto simp: fb_ok_def)
  ultimately have "fb_h s * fb_p s < 18446744073709551616" by (simp add: mult.assoc)
  then show ?thesis by (simp add: unat_word_ariths fb_h_def fb_p_def)
qed

lemma shown_iff: "fb_ok s \<Longrightarrow> off_screen s x y \<longleftrightarrow> \<not> shown s x y"
proof -
  assume ok: "fb_ok s"
  have "w - 1 < v \<longleftrightarrow> \<not> unat v < unat w" if "0 < unat w" for v w :: u64
    using that by (auto simp: word_less_nat_alt unat_sub word_le_nat_alt Suc_le_eq)
  then show ?thesis using ok by (simp add: off_screen_def shown_def fb_ok_def fb_w_def fb_h_def)
qed

lemma index_exact:
  fixes x y :: u32 and r :: u64
  assumes "unat x + unat y * unat r < 4294967296"
  shows "unat (ucast (ucast x + ucast y * r) :: u32) = unat x + unat y * unat r"
proof -
  have "unat (ucast y * r) = unat y * unat r" using assms by (simp add: unat_word_ariths)
  then have "unat (ucast x + ucast y * r) = unat x + unat y * unat r" using assms by (simp add: unat_word_ariths)
  then show ?thesis using assms by (simp add: unsigned_ucast_eq take_bit_nat_eq_self)
qed

lemma line_index:
  fixes i j q h :: nat
  assumes "i < q" "j < h"
  shows "i + j * q < h * q"
proof -
  have "i + j * q < Suc j * q" using assms(1) by simp
  also have "\<dots> \<le> h * q" using assms(2) by (intro mult_le_mono1) simp
  finally show ?thesis .
qed

lemma pixel_offset:
  assumes "fb_ok s" "shown s x y"
  shows "unat (pixel_addr s x y - fb_base s) = 4 * unat x + fb_p s * unat y"
    "4 * unat x + fb_p s * unat y + 3 < fb_h s * fb_p s" "4 * unat x + 3 < fb_p s"
proof -
  define q where "q = fb_p s div 4"
  have p: "fb_p s = 4 * q" using assms(1) by (auto simp: fb_ok_def q_def)
  have b: "unat x < q" "unat y < fb_h s" "fb_h s * q \<le> 4294967296"
    using assms by (auto simp: fb_ok_def shown_def q_def)
  have i: "unat x + unat y * q < fb_h s * q" using line_index [OF b(1,2)] .
  have "unat (fb_pitch (mem s) (framebuffer s) div 4) = q" by (simp add: unat_div fb_p_def q_def)
  then have "unat (framebuffer_get_index s x y) = unat x + unat y * q"
    using index_exact [of x y "fb_pitch (mem s) (framebuffer s) div 4"] i b(3)
    by (simp add: framebuffer_get_index_def)
  then have "unat (4 * ucast (framebuffer_get_index s x y) :: u64) = 4 * (unat x + unat y * q)"
    using i b(3) by (simp add: unat_word_ariths)
  then show "unat (pixel_addr s x y - fb_base s) = 4 * unat x + fb_p s * unat y"
    by (simp only: pixel_addr_def add_diff_cancel_left' p) (simp add: algebra_simps)
  show "4 * unat x + 3 < fb_p s" using b(1) by (simp add: p)
  have "4 * a + 4 \<le> 4 * b" if "a < b" for a b :: nat using that by simp
  from this [OF i] have "4 * (unat x + unat y * q) + 4 \<le> 4 * (fb_h s * q)" .
  then show "4 * unat x + fb_p s * unat y + 3 < fb_h s * fb_p s" by (simp only: p) (simp add: algebra_simps)
qed

lemma visible_in_screen: "fb_ok s \<Longrightarrow> visible_byte s a \<Longrightarrow> in_range (fb_base s) (screen_size s) a"
  by (simp add: visible_byte_def Let_def in_range_def word_less_nat_alt screen_size)

text \<open>Distinct pixels share no byte.\<close>

lemma pixel_byte:
  assumes "fb_ok s" "shown s x y" "in_range (pixel_addr s x y) 4 a"
  shows "unat (a - fb_base s) div fb_p s = unat y" "unat (a - fb_base s) mod fb_p s div 4 = unat x" "visible_byte s a"
proof -
  define d where "d = unat (a - pixel_addr s x y)"
  have d: "d < 4" using assms(3) by (simp add: in_range_def d_def word_less_nat_alt)
  have "a - fb_base s = (pixel_addr s x y - fb_base s) + (a - pixel_addr s x y)" by simp
  then have "unat (a - fb_base s) = unat (pixel_addr s x y - fb_base s) + d"
    using pixel_offset [OF assms(1,2)] d assms(1) screen_size [OF assms(1)] unat_less_64 [of "screen_size s"]
    by (simp only: unat_word_ariths d_def) simp
  then have e: "unat (a - fb_base s) = (4 * unat x + d) + fb_p s * unat y"
    using pixel_offset(1) [OF assms(1,2)] by simp
  have r: "4 * unat x + d < fb_p s" using pixel_offset(3) [OF assms(1,2)] d by linarith
  show "unat (a - fb_base s) div fb_p s = unat y" using r by (simp only: e) simp
  have m: "unat (a - fb_base s) mod fb_p s = 4 * unat x + d" using r by (simp only: e) simp
  then show "unat (a - fb_base s) mod fb_p s div 4 = unat x" using d by simp
  have "unat (a - fb_base s) < fb_h s * fb_p s" using e d pixel_offset(2) [OF assms(1,2)] by linarith
  then show "visible_byte s a"
    using m d assms(2) by (simp add: visible_byte_def Let_def shown_def)
qed

lemma putpix_mem:
  assumes "fb_ok s" "\<not> visible_byte s a"
  shows "mem (framebuffer_putpix s x y c) a = mem s a"
  using assms pixel_byte(3) [OF assms(1), of x y a] cell32.wr_outside [of "pixel_addr s x y" a "mem s" c]
  by (auto simp: framebuffer_putpix_def shown_iff)

lemma putpix_fields [simp]:
  "framebuffer (framebuffer_putpix s x y c) = framebuffer s" "font_data (framebuffer_putpix s x y c) = font_data s"
  by (simp_all add: framebuffer_putpix_def)

text \<open>States that agree off the visible pixels have the same descriptor and the same font.\<close>

definition same_screen :: "'a fb_state_scheme \<Rightarrow> 'a fb_state_scheme \<Rightarrow> bool" where
  "same_screen s s' \<longleftrightarrow> framebuffer s' = framebuffer s \<and> font_data s' = font_data s \<and>
     (\<forall>a. \<not> visible_byte s a \<longrightarrow> mem s' a = mem s a)"

lemma same_screen_cell:
  assumes "fb_ok s" "same_screen s s'" "in_range (framebuffer s) 32 a \<or> in_range (font_data s) 1710 a"
  shows "mem s' a = mem s a"
proof -
  have "\<not> in_range (fb_base s) (screen_size s) a"
    using assms(1,3) by (auto simp: fb_ok_def dest: ranges_disjointD)
  then show ?thesis using assms(1,2) visible_in_screen by (auto simp: same_screen_def)
qed

lemma in_range_field_32:
  assumes "in_range (p + k) 8 a" "unat k \<le> 24"
  shows "in_range p 32 a"
proof -
  have "unat (a - (p + k)) < 8" using assms(1) by (simp add: in_range_def word_less_nat_alt)
  moreover have "a - p = (a - (p + k)) + k" by simp
  ultimately have "unat (a - p) < 32" using assms(2) by (simp only: unat_word_ariths) simp
  then show ?thesis by (simp add: in_range_def word_less_nat_alt)
qed

lemma same_screen_field:
  assumes "fb_ok s" "same_screen s s'" "unat k \<le> 24"
  shows "ld64 (mem s') (framebuffer s + k) = ld64 (mem s) (framebuffer s + k)"
  by (rule cell64.rd_cong) (use assms same_screen_cell in_range_field_32 in blast)

lemma same_screen_geometry:
  assumes "fb_ok s" "same_screen s s'"
  shows "fb_base s' = fb_base s" "screen_size s' = screen_size s" "fb_w s' = fb_w s" "fb_h s' = fb_h s" "fb_p s' = fb_p s"
  using same_screen_field [OF assms, of 0] same_screen_field [OF assms, of 8] same_screen_field [OF assms, of 16]
    same_screen_field [OF assms, of 24] assms(2)
  by (simp_all add: fb_address_def fb_width_def fb_height_def fb_pitch_def fb_w_def fb_h_def fb_p_def same_screen_def)

lemma same_screen_ok:
  assumes "fb_ok s" "same_screen s s'"
  shows "fb_ok s'" "shown s' = shown s" "visible_byte s' = visible_byte s"
    "pixel_addr s' = pixel_addr s" "off_screen s' = off_screen s"
proof -
  show ok: "fb_ok s'"
    using assms unfolding fb_ok_def same_screen_geometry [OF assms] same_screen_def by simp
  show sh: "shown s' = shown s"
    by (intro ext) (simp add: shown_def same_screen_geometry [OF assms])
  show "visible_byte s' = visible_byte s"
    by (intro ext) (simp add: visible_byte_def same_screen_geometry [OF assms])
  show "off_screen s' = off_screen s"
    by (intro ext) (simp add: shown_iff [OF ok] shown_iff [OF assms(1)] sh)
  have "fb_pitch (mem s') (framebuffer s') = fb_pitch (mem s) (framebuffer s)"
    using same_screen_geometry(5) [OF assms] by (simp add: fb_p_def word_unat_eq_iff)
  then show "pixel_addr s' = pixel_addr s"
    by (intro ext) (simp add: pixel_addr_def framebuffer_get_index_def same_screen_geometry [OF assms])
qed

lemma putpix_same: "fb_ok s \<Longrightarrow> same_screen s (framebuffer_putpix s x y c)"
  by (simp add: same_screen_def putpix_mem)

lemma putpix_get:
  assumes "fb_ok s" "shown s x' y'"
  shows "getpix (framebuffer_putpix s x y c) x' y' = (if x' = x \<and> y' = y then c else getpix s x' y')"
proof -
  note same = same_screen_ok [OF assms(1) putpix_same [OF assms(1)], of x y c]
  have g: "getpix (framebuffer_putpix s x y c) x' y' = ld32 (mem (framebuffer_putpix s x y c)) (pixel_addr s x' y')"
    using assms by (simp add: getpix_def same shown_iff)
  have g0: "getpix s x' y' = ld32 (mem s) (pixel_addr s x' y')" using assms by (simp add: getpix_def shown_iff)
  consider "\<not> shown s x y" | "shown s x y" "x' = x \<and> y' = y" | "shown s x y" "\<not> (x' = x \<and> y' = y)" by blast
  then show ?thesis
  proof cases
    case 1
    then have "framebuffer_putpix s x y c = s" using assms(1) by (simp add: framebuffer_putpix_def shown_iff)
    then show ?thesis using 1 assms(2) by auto
  next
    case 2
    then show ?thesis using g assms(1) by (simp add: framebuffer_putpix_def shown_iff cell32.rd_wr_same)
  next
    case 3
    have "ld32 (st32 (mem s) (pixel_addr s x y) c) (pixel_addr s x' y') = ld32 (mem s) (pixel_addr s x' y')"
    proof (rule cell32.rd_cong, rule cell32.wr_outside)
      fix a assume a: "in_range (pixel_addr s x' y') 4 a"
      show "\<not> in_range (pixel_addr s x y) 4 a"
        using pixel_byte(1,2) [OF assms a] pixel_byte(1,2) [OF assms(1) 3(1), of a] 3(2)
        by (metis word_unat_eq_iff)
    qed
    then show ?thesis using g g0 3 assms(1) by (auto simp: framebuffer_putpix_def shown_iff)
  qed
qed

lemma putpix_rest: "fb_ok s \<Longrightarrow> rest (framebuffer_putpix s x y c) = rest s"
proof -
  assume ok: "fb_ok s"
  have "visible_byte (framebuffer_putpix s x y c) = visible_byte s"
    by (rule same_screen_ok(3) [OF ok putpix_same [OF ok]])
  moreover have "(\<lambda>a. if visible_byte s a then 0 else mem (framebuffer_putpix s x y c) a) =
      (\<lambda>a. if visible_byte s a then 0 else mem s a)"
    using putpix_mem [OF ok] by (intro ext) simp
  moreover have "(framebuffer_putpix s x y c)\<lparr>mem := m\<rparr> = s\<lparr>mem := m\<rparr>" for m
    by (simp add: framebuffer_putpix_def)
  ultimately show ?thesis by (simp add: rest_def)
qed

interpretation screen: canvas fb_ok shown framebuffer_putpix getpix rest
  by unfold_locales
    (auto simp: putpix_get putpix_rest intro: same_screen_ok [OF _ putpix_same])

section \<open>Drawing loops are paintings\<close>

text \<open>Memory off the screen after a painting, and what depends on it only.\<close>

lemma paint_same: "fb_ok s \<Longrightarrow> same_screen s (paint framebuffer_putpix s ps)"
proof (induction ps arbitrary: s)
  case (Cons p ps)
  obtain x y c where p: "p = (x, y, c)" by (cases p)
  have "same_screen (framebuffer_putpix s x y c) (paint framebuffer_putpix (framebuffer_putpix s x y c) ps)"
    by (rule Cons.IH, rule screen.ok_put [OF Cons.prems])
  then show ?case using putpix_same [OF Cons.prems, of x y c]
    by (simp add: p same_screen_def same_screen_ok(3) [OF Cons.prems putpix_same [OF Cons.prems]])
qed (simp add: same_screen_def)

lemma paint_painted: "\<exists>qs. paint put (paint put s ps) rs = paint put s qs"
  by (metis paint_append)

lemma putch_rows_paint: "\<exists>ps. putch_rows s x y c bg fg cx cy = paint framebuffer_putpix s ps"
proof (induction s x y c bg fg cx cy rule: putch_rows.induct)
  case (1 s x y c bg fg cx cy)
  then show ?case
    by (subst putch_rows.simps) (metis paint.simps)
qed

lemma putch_cols_paint: "\<exists>ps. putch_cols s x y c bg fg cx = paint framebuffer_putpix s ps"
proof (induction s x y c bg fg cx rule: putch_cols.induct)
  case (1 s x y c bg fg cx)
  show ?case
  proof (cases "cx < FONT_WIDTH")
    case True
    obtain ps where ps: "putch_rows s x y c bg fg cx 0 = paint framebuffer_putpix s ps"
      using putch_rows_paint by blast
    obtain rs where "putch_cols (putch_rows s x y c bg fg cx 0) x y c bg fg (cx + 1) =
        paint framebuffer_putpix (putch_rows s x y c bg fg cx 0) rs"
      using "1.IH" [OF True] by blast
    then have "putch_cols s x y c bg fg cx = paint framebuffer_putpix (paint framebuffer_putpix s ps) rs"
      using True ps by (subst putch_cols.simps) simp
    then show ?thesis using paint_painted by metis
  next
    case False
    then show ?thesis by (subst putch_cols.simps) (metis paint.simps(1))
  qed
qed

lemma putch_paint: "\<exists>ps. framebuffer_putch s x y c bg fg = paint framebuffer_putpix s ps"
  unfolding framebuffer_putch_def by (rule putch_cols_paint)

text \<open>Clearing: the points of a line, and of the lines below one.\<close>

definition row_points :: "u32 \<Rightarrow> u32 \<Rightarrow> nat \<Rightarrow> nat \<Rightarrow> (u32 \<times> u32 \<times> u32) list" where
  "row_points color y x p = map (\<lambda>j. (of_nat j, y, color)) [x..<p]"

lemma clear_row_paint:
  "fb_ok s \<Longrightarrow> unat x \<le> fb_p s \<Longrightarrow>
    clear_row s color y x = Some (paint framebuffer_putpix s (row_points color y (unat x) (fb_p s)))"
proof (induction "fb_p s - unat x" arbitrary: s x)
  case 0
  then have "\<not> ucast x < fb_pitch (mem s) (framebuffer s)" by (simp add: fb_p_def word_less_nat_alt)
  then show ?case using 0 by (subst clear_row.simps) (simp add: row_points_def)
next
  case (Suc n)
  then have lt: "unat x < fb_p s" by linarith
  define s1 where "s1 = framebuffer_putpix s x y color"
  have p: "fb_p s1 = fb_p s" "fb_ok s1"
    unfolding s1_def using same_screen_geometry(5) same_screen_ok(1) putpix_same Suc.prems(1) by blast+
  have "fb_p s < 4294967296" using Suc.prems(1) by (simp add: fb_ok_def)
  then have "x < of_nat (fb_p s)" using lt by (simp add: word_less_nat_alt unat_of_nat)
  then have sx: "unat (x + 1) = Suc (unat x)" by (rule unat_Suc_less)
  have "clear_row s1 color y (x + 1) = Some (paint framebuffer_putpix s1 (row_points color y (Suc (unat x)) (fb_p s)))"
    using Suc.hyps(1) [of s1 "x + 1"] Suc.hyps(2) lt p by (simp add: sx)
  moreover have "ucast x < fb_pitch (mem s) (framebuffer s)" using lt by (simp add: fb_p_def word_less_nat_alt)
  moreover have "row_points color y (unat x) (fb_p s) = (x, y, color) # row_points color y (Suc (unat x)) (fb_p s)"
    using lt by (simp add: row_points_def upt_conv_Cons)
  ultimately show ?case by (subst clear_row.simps) (simp add: s1_def)
qed

lemma clear_rows_paint:
  "fb_ok s \<Longrightarrow> unat y \<le> fb_h s \<Longrightarrow> clear_rows s color y = Some (paint framebuffer_putpix s
     (concat (map (\<lambda>j. row_points color (of_nat j) 0 (fb_p s)) [unat y..<fb_h s])))"
proof (induction "fb_h s - unat y" arbitrary: s y)
  case 0
  then have "\<not> ucast y < fb_height (mem s) (framebuffer s)" by (simp add: fb_h_def word_less_nat_alt)
  then show ?case using 0 by (subst clear_rows.simps) simp
next
  case (Suc n)
  then have lt: "unat y < fb_h s" by linarith
  define s1 where "s1 = paint framebuffer_putpix s (row_points color y 0 (fb_p s))"
  have row: "clear_row s color y 0 = Some s1"
    using clear_row_paint [OF Suc.prems(1), of 0] by (simp add: s1_def)
  have p: "fb_p s1 = fb_p s" "fb_h s1 = fb_h s" "fb_ok s1"
    unfolding s1_def using same_screen_geometry(4,5) same_screen_ok(1) paint_same Suc.prems(1) by blast+
  have "fb_h s < 4294967296" using Suc.prems(1) by (simp add: fb_ok_def)
  then have "y < of_nat (fb_h s)" using lt by (simp add: word_less_nat_alt unat_of_nat)
  then have sy: "unat (y + 1) = Suc (unat y)" by (rule unat_Suc_less)
  have "clear_rows s1 color (y + 1) = Some (paint framebuffer_putpix s1
      (concat (map (\<lambda>j. row_points color (of_nat j) 0 (fb_p s)) [Suc (unat y)..<fb_h s])))"
    using Suc.hyps(1) [of s1 "y + 1"] Suc.hyps(2) lt p by (simp add: sy)
  moreover have "ucast y < fb_height (mem s) (framebuffer s)" using lt by (simp add: fb_h_def word_less_nat_alt)
  moreover have "[unat y..<fb_h s] = unat y # [Suc (unat y)..<fb_h s]" using lt by (simp add: upt_conv_Cons)
  ultimately show ?case using row by (subst clear_rows.simps) (simp add: s1_def paint_append)
qed

text \<open>A string that the screen does not cover.\<close>

definition string_off :: "'a fb_state_scheme \<Rightarrow> u64 \<Rightarrow> u8 list \<Rightarrow> bool" where
  "string_off s p bs \<longleftrightarrow> cstr (mem s) p bs \<and> (\<forall>i\<le>length bs. \<not> visible_byte s (p + of_nat i))"

lemma string_off_same:
  assumes "fb_ok s" "same_screen s s'" "string_off s p bs"
  shows "string_off s' p bs"
proof -
  have "cstr (mem s') p bs"
    by (rule cstr_cong [of "mem s"]) (use assms in \<open>auto simp: string_off_def same_screen_def\<close>)
  then show ?thesis using assms(3) same_screen_ok(3) [OF assms(1,2)] by (simp add: string_off_def)
qed

lemma ioctl_putstr_paint:
  assumes "fb_ok s" "string_off s str bs"
  shows "\<exists>ps. ioctl_putstr s str ox x y bg fg i = Some (paint framebuffer_putpix s ps)"
  using assms
proof (induction "unat (of_nat (length bs) - i)" arbitrary: s x y i rule: less_induct)
  case less
  have n: "kstrlen (mem s) str = Some (of_nat (length bs))"
    using less.prems(2) kstrlen_cstr by (auto simp: string_off_def)
  show ?case
  proof (cases "i < of_nat (length bs)")
    case False
    then have "ioctl_putstr s str ox x y bg fg i = Some s" using n by (subst ioctl_putstr.simps) simp
    then show ?thesis by (intro exI [of _ "[]"]) simp
  next
    case True
    note m = loop_measure [OF True]
    obtain ps where ps: "framebuffer_putch s x y (mem s (str + i)) bg fg = paint framebuffer_putpix s ps"
      using putch_paint by blast
    note same = paint_same [OF less.prems(1), of ps]
    obtain qs where qs: "ioctl_putstr s str ox ox (y + (FONT_HEIGHT + 4)) bg fg (i + 1) = Some (paint framebuffer_putpix s qs)"
      using less.hyps [OF m less.prems] by blast
    obtain rs where rs: "ioctl_putstr (paint framebuffer_putpix s ps) str ox (x + FONT_WIDTH) y bg fg (i + 1) =
        Some (paint framebuffer_putpix (paint framebuffer_putpix s ps) rs)"
      using less.hyps [OF m same_screen_ok(1) [OF less.prems(1) same] string_off_same [OF less.prems(1) same less.prems(2)]]
      by blast
    show ?thesis
    proof (cases "mem s (str + i) = 0x0A")
      case nl: True
      then have "ioctl_putstr s str ox x y bg fg i = Some (paint framebuffer_putpix s qs)"
        using n True qs by (subst ioctl_putstr.simps) simp
      then show ?thesis by blast
    next
      case nl: False
      then have "ioctl_putstr s str ox x y bg fg i = Some (paint framebuffer_putpix (paint framebuffer_putpix s ps) rs)"
        using n True rs ps by (subst ioctl_putstr.simps) simp
      then show ?thesis using paint_painted by metis
    qed
  qed
qed

section \<open>The glyphs\<close>

definition font_loaded :: "'a fb_state_scheme \<Rightarrow> bool" where
  "font_loaded s \<longleftrightarrow> (\<forall>i < length DEFAULT_FONT_DATA. ld16 (mem s) (font_data s + 2 * of_nat i) = DEFAULT_FONT_DATA ! i)"

definition glyph :: "u8 \<Rightarrow> nat \<Rightarrow> nat \<Rightarrow> bool" where
  "glyph c i j = bit (DEFAULT_FONT_DATA ! (9 * unat (c - 32) + i)) j"

lemma scast_small:
  fixes c :: u8
  assumes "unat c < 128"
  shows "(scast c :: 'b::len word) = ucast c"
proof -
  have "take_bit 7 c = c" using assms by (simp add: word_unat_eq_iff unsigned_take_bit_eq take_bit_nat_eq_self)
  then have small: "\<not> bit c n" if "7 \<le> n" for n using that by (metis bit_take_bit_iff not_less)
  show ?thesis
    by (rule bit_word_eqI) (use small in \<open>auto simp: bit_simps min_def not_less\<close>)
qed

lemma font_column_glyph:
  assumes "font_loaded s" "unat c < 95" "unat cx < 9"
  shows "font_column s c cx = DEFAULT_FONT_DATA ! (9 * unat c + unat cx)"
proof -
  have l: "9 * unat c + unat cx < length DEFAULT_FONT_DATA" using assms(2,3) by (simp add: length_font)
  have "scast c * ucast FONT_WIDTH + ucast cx = (of_nat (9 * unat c + unat cx) :: u64)"
    using assms(2) by (simp add: scast_small mult.commute)
  then show ?thesis using assms(1) l unfolding font_loaded_def font_column_def by metis
qed

lemma font_byte:
  assumes "i < length DEFAULT_FONT_DATA" "in_range (font_data s + 2 * of_nat i) 2 a"
  shows "in_range (font_data s) 1710 a"
proof -
  have "unat (a - (font_data s + 2 * of_nat i)) < 2" using assms(2) by (simp add: in_range_def word_less_nat_alt)
  moreover have "unat (2 * of_nat i :: u64) = 2 * i" using assms(1) by (simp add: unat_word_ariths length_font unat_of_nat)
  moreover have "a - font_data s = (a - (font_data s + 2 * of_nat i)) + 2 * of_nat i" by simp
  ultimately have "unat (a - font_data s) < 1710"
    using assms(1) by (simp only: unat_word_ariths) (simp add: length_font)
  then show ?thesis by (simp add: in_range_def word_less_nat_alt)
qed

lemma font_kept:
  assumes "fb_ok s" "same_screen s s'" "font_loaded s"
  shows "font_loaded s'"
proof -
  have "ld16 (mem s') (font_data s + 2 * of_nat i) = ld16 (mem s) (font_data s + 2 * of_nat i)"
    if "i < length DEFAULT_FONT_DATA" for i
    by (rule cell16.rd_cong) (use same_screen_cell [OF assms(1,2)] font_byte [OF that] in blast)
  then show ?thesis using assms(2,3) by (simp add: font_loaded_def same_screen_def)
qed

text \<open>The points of a column, and of all columns from one on.\<close>

definition column_points :: "u32 \<Rightarrow> u32 \<Rightarrow> u8 \<Rightarrow> u32 \<Rightarrow> u32 \<Rightarrow> nat \<Rightarrow> nat \<Rightarrow> (u32 \<times> u32 \<times> u32) list" where
  "column_points x y c bg fg i j =
     map (\<lambda>j. (x + of_nat i, y + of_nat j, if bit (DEFAULT_FONT_DATA ! (9 * unat c + i)) j then fg else bg)) [j..<16]"

definition glyph_points :: "u32 \<Rightarrow> u32 \<Rightarrow> u8 \<Rightarrow> u32 \<Rightarrow> u32 \<Rightarrow> nat \<Rightarrow> (u32 \<times> u32 \<times> u32) list" where
  "glyph_points x y c bg fg i = concat (map (\<lambda>i. column_points x y c bg fg i 0) [i..<9])"

lemma column_bit: "drop_bit j (w :: u16) AND 1 \<noteq> 0 \<longleftrightarrow> bit w j"
  by (simp add: and_one_eq bit_iff_odd_drop_bit odd_iff_mod_2_eq_one)

lemma putch_rows_glyph:
  assumes "unat c < 95" "unat cx < 9"
  shows "fb_ok s \<Longrightarrow> font_loaded s \<Longrightarrow> putch_rows s x y c bg fg cx cy =
    paint framebuffer_putpix s (column_points x y c bg fg (unat cx) (unat cy))"
proof (induction "16 - unat cy" arbitrary: s cy)
  case 0
  then have "\<not> cy < FONT_HEIGHT" by (simp add: word_less_nat_alt)
  then show ?case using 0 by (subst putch_rows.simps) (simp add: column_points_def)
next
  case (Suc n)
  then have lt: "cy < FONT_HEIGHT" "unat cy < 16" by (simp_all add: word_less_nat_alt)
  define s1 where "s1 = framebuffer_putpix s (x + cx) (y + cy)
     (if drop_bit (unat cy) (font_column s c cx) AND 1 \<noteq> 0 then fg else bg)"
  have s1: "fb_ok s1" "font_loaded s1"
    unfolding s1_def using Suc.prems same_screen_ok(1) font_kept putpix_same by blast+
  have sc: "unat (cy + 1) = Suc (unat cy)" by (rule unat_Suc_less [OF lt(1)])
  have "putch_rows s1 x y c bg fg cx (cy + 1) =
      paint framebuffer_putpix s1 (column_points x y c bg fg (unat cx) (Suc (unat cy)))"
    using Suc.hyps(1) [of "cy + 1" s1] Suc.hyps(2) s1 by (simp add: sc)
  moreover have "column_points x y c bg fg (unat cx) (unat cy) =
      (x + cx, y + cy, if drop_bit (unat cy) (font_column s c cx) AND 1 \<noteq> 0 then fg else bg) #
      column_points x y c bg fg (unat cx) (Suc (unat cy))"
    using lt(2) by (simp add: column_points_def upt_conv_Cons font_column_glyph [OF Suc.prems(2) assms] column_bit)
  ultimately show ?case using lt(1) by (subst putch_rows.simps) (simp add: s1_def Let_def)
qed

lemma putch_cols_glyph:
  assumes "unat c < 95"
  shows "fb_ok s \<Longrightarrow> font_loaded s \<Longrightarrow> putch_cols s x y c bg fg cx =
    paint framebuffer_putpix s (glyph_points x y c bg fg (unat cx))"
proof (induction "9 - unat cx" arbitrary: s cx)
  case 0
  then have "\<not> cx < FONT_WIDTH" by (simp add: word_less_nat_alt)
  then show ?case using 0 by (subst putch_cols.simps) (simp add: glyph_points_def)
next
  case (Suc n)
  then have lt: "cx < FONT_WIDTH" "unat cx < 9" by (simp_all add: word_less_nat_alt)
  define s1 where "s1 = putch_rows s x y c bg fg cx 0"
  have p: "s1 = paint framebuffer_putpix s (column_points x y c bg fg (unat cx) 0)"
    unfolding s1_def using putch_rows_glyph [OF assms lt(2) Suc.prems, of x y bg fg 0] by simp
  have s1: "fb_ok s1" "font_loaded s1"
    unfolding p using Suc.prems same_screen_ok(1) font_kept paint_same by blast+
  have sc: "unat (cx + 1) = Suc (unat cx)" by (rule unat_Suc_less [OF lt(1)])
  have "putch_cols s1 x y c bg fg (cx + 1) = paint framebuffer_putpix s1 (glyph_points x y c bg fg (Suc (unat cx)))"
    using Suc.hyps(1) [of "cx + 1" s1] Suc.hyps(2) s1 by (simp add: sc)
  moreover have "glyph_points x y c bg fg (unat cx) =
      column_points x y c bg fg (unat cx) 0 @ glyph_points x y c bg fg (Suc (unat cx))"
    using lt(2) by (simp add: glyph_points_def upt_conv_Cons)
  moreover have "putch_cols s x y c bg fg cx = putch_cols s1 x y c bg fg (cx + 1)"
    using lt(1) by (subst putch_cols.simps) (simp add: s1_def)
  ultimately show ?case by (simp add: p paint_append)
qed

lemma of_nat_diff_iff:
  fixes X x :: u32
  assumes "i < 4294967296"
  shows "X = x + of_nat i \<longleftrightarrow> unat (X - x) = i"
proof -
  have "X = x + of_nat i \<longleftrightarrow> X - x = of_nat i" by (auto simp: algebra_simps)
  then show ?thesis using assms by (auto simp: word_unat_eq_iff unat_of_nat)
qed

lemma glyph_points_mem:
  "(X, Y, k) \<in> set (glyph_points x y c bg fg 0) \<longleftrightarrow> unat (X - x) < 9 \<and> unat (Y - y) < 16 \<and>
     k = (if bit (DEFAULT_FONT_DATA ! (9 * unat c + unat (X - x))) (unat (Y - y)) then fg else bg)"
proof -
  have "(X, Y, k) \<in> set (glyph_points x y c bg fg 0) \<longleftrightarrow> (\<exists>i<9. \<exists>j<16. unat (X - x) = i \<and> unat (Y - y) = j \<and>
     k = (if bit (DEFAULT_FONT_DATA ! (9 * unat c + i)) j then fg else bg))"
    by (force simp: glyph_points_def column_points_def of_nat_diff_iff)
  then show ?thesis by auto
qed

text \<open>What drawing a character and clearing paint.\<close>

lemma putch_draws:
  assumes "fb_ok s" "font_loaded s" "32 \<le> unat c" "unat c \<le> 126"
  shows "\<exists>ps. framebuffer_putch s x y c bg fg = paint framebuffer_putpix s ps \<and>
    (\<forall>X Y d. colour_at ps X Y d =
      (if unat (X - x) < 9 \<and> unat (Y - y) < 16 then (if glyph c (unat (X - x)) (unat (Y - y)) then fg else bg) else d))"
proof (intro exI conjI allI)
  have "unat (c - 32) = unat c - 32" using assms(3) by (simp add: unat_sub word_le_nat_alt)
  then have "unat (c - 32) < 95" using assms(4) by simp
  then show "framebuffer_putch s x y c bg fg = paint framebuffer_putpix s (glyph_points x y (c - 32) bg fg 0)"
    using putch_cols_glyph [OF _ assms(1,2), of "c - 32" x y bg fg 0] by (simp add: framebuffer_putch_def)
  show "colour_at (glyph_points x y (c - 32) bg fg 0) X Y d =
      (if unat (X - x) < 9 \<and> unat (Y - y) < 16 then (if glyph c (unat (X - x)) (unat (Y - y)) then fg else bg) else d)" for X Y d
    unfolding glyph_def
    by (cases "unat (X - x) < 9 \<and> unat (Y - y) < 16")
      (auto intro!: colour_at_function colour_at_absent simp: glyph_points_mem)
qed

lemma clear_draws:
  assumes "fb_ok s"
  shows "\<exists>ps. framebuffer_clear s color = Some (paint framebuffer_putpix s ps) \<and>
    (\<forall>X Y d. shown s X Y \<longrightarrow> colour_at ps X Y d = color)"
proof -
  define ps where "ps = concat (map (\<lambda>j. row_points color (of_nat j) 0 (fb_p s)) [0..<fb_h s])"
  have c: "framebuffer_clear s color = Some (paint framebuffer_putpix s ps)"
    using clear_rows_paint [OF assms, of 0 color] by (simp add: framebuffer_clear_def ps_def)
  have u: "\<forall>(x, y, c) \<in> set ps. c = color" by (auto simp: ps_def row_points_def)
  have "(x, y, color) \<in> set ps" if "shown s x y" for x y
  proof -
    have "unat x < fb_p s" "unat y < fb_h s" using that assms by (auto simp: shown_def fb_ok_def)
    then show ?thesis by (force simp: ps_def row_points_def intro: image_eqI [of _ _ "unat x"] bexI [of _ "unat y"])
  qed
  then show ?thesis using c colour_at_uniform [OF u] by auto
qed

lemma getpix_off: "fb_ok s \<Longrightarrow> \<not> shown s x y \<Longrightarrow> getpix s x y = 0"
  by (simp add: getpix_def shown_iff)

text \<open>Every command of the driver paints.\<close>

lemma framebuffer_ioctl_paints:
  assumes "fb_ok s" "cmd = FRAMEBUFFER_IOCTL_PUTSTR \<longrightarrow> (\<exists>bs. string_off s (args 2) bs)"
  shows "\<exists>r ps. framebuffer_ioctl s cmd args = Some (r, paint framebuffer_putpix s ps)"
proof -
  obtain ps where clear: "framebuffer_clear s (ucast (args 0)) = Some (paint framebuffer_putpix s ps)"
    using clear_rows_paint [OF assms(1), of 0] by (simp add: framebuffer_clear_def)
  have one: "\<exists>qs. framebuffer_putpix s x y c = paint framebuffer_putpix s qs" for x y c by (metis paint.simps)
  have none: "\<exists>qs. s = paint framebuffer_putpix s qs" by (metis paint.simps(1))
  show ?thesis
  proof (cases "cmd = FRAMEBUFFER_IOCTL_PUTSTR")
    case True
    then obtain bs where "string_off s (args 2) bs" using assms(2) by blast
    then obtain qs where "ioctl_putstr s (args 2) (ucast (args 0)) (ucast (args 0)) (ucast (args 1)) (ucast (args 3))
        (ucast (args 4)) 0 = Some (paint framebuffer_putpix s qs)"
      using ioctl_putstr_paint [OF assms(1)] by blast
    then show ?thesis using True by (auto simp: framebuffer_ioctl_def)
  next
    case False
    then have "framebuffer_ioctl s cmd args \<in> {Some (r, paint framebuffer_putpix s qs) | r qs. True}"
      unfolding framebuffer_ioctl_def using clear by (auto simp: one none)
    then show ?thesis by blast
  qed
qed

section \<open>Claims\<close>

text \<open>C34: Drawing a printable character paints its glyph: a visible pixel at distance (i, j) from the
  position gets the foreground colour when bit \<open>j\<close> of column \<open>i\<close> of the character is set in the font
  and the background colour otherwise, every other pixel keeps its colour, and nothing but visible
  pixels is written.\<close>

theorem framebuffer_putch_correct:
  assumes "fb_ok s" "font_loaded s" "32 \<le> unat c" "unat c \<le> 126"
  shows "rest (framebuffer_putch s x y c bg fg) = rest s \<and>
    (shown s X Y \<longrightarrow> getpix (framebuffer_putch s x y c bg fg) X Y =
      (if unat (X - x) < 9 \<and> unat (Y - y) < 16 then (if glyph c (unat (X - x)) (unat (Y - y)) then fg else bg)
       else getpix s X Y))"
proof -
  obtain ps where "framebuffer_putch s x y c bg fg = paint framebuffer_putpix s ps"
    "\<forall>X Y d. colour_at ps X Y d =
      (if unat (X - x) < 9 \<and> unat (Y - y) < 16 then (if glyph c (unat (X - x)) (unat (Y - y)) then fg else bg) else d)"
    using putch_draws [OF assms] by blast
  then show ?thesis using assms(1) by (simp add: screen.paint_rest screen.paint_pix)
qed

text \<open>C35: Clearing the screen returns although its bounds are wider than its counters, gives every
  visible pixel the colour and writes nothing else: not the padding at the end of the lines, over
  which the loop runs too.\<close>

theorem framebuffer_clear_correct:
  assumes "fb_ok s"
  shows "\<exists>s'. framebuffer_clear s color = Some s' \<and> rest s' = rest s \<and>
    (\<forall>x y. getpix s' x y = (if shown s x y then color else 0))"
proof -
  obtain ps where ps: "framebuffer_clear s color = Some (paint framebuffer_putpix s ps)"
    "\<forall>X Y d. shown s X Y \<longrightarrow> colour_at ps X Y d = color"
    using clear_draws [OF assms] by blast
  have "getpix (paint framebuffer_putpix s ps) x y = (if shown s x y then color else 0)" for x y
    using screen.paint_pix [OF assms] getpix_off [OF screen.paint_ok [OF assms]] ps(2)
    by (simp add: screen.paint_shown [OF assms])
  then show ?thesis using ps(1) screen.paint_rest [OF assms] by blast
qed

text \<open>Whatever command and arguments a program passes, the framebuffer driver returns, and the only
  memory it changes is that of visible pixels; the string of the command that draws text has to end
  and to lie off the screen.\<close>

theorem framebuffer_ioctl_safe:
  assumes "fb_ok s" "cmd = FRAMEBUFFER_IOCTL_PUTSTR \<longrightarrow> (\<exists>bs. string_off s (args 2) bs)"
  shows "\<exists>r s'. framebuffer_ioctl s cmd args = Some (r, s') \<and> rest s' = rest s \<and> fb_ok s'"
  using framebuffer_ioctl_paints [of s cmd args, OF assms] assms(1) screen.paint_rest screen.paint_ok by blast

text \<open>A screen of twenty by twenty pixels with four bytes of padding at the end of a line.\<close>

definition screen_mem :: memory where
  "screen_mem = st64 (st64 (st64 (st64 (\<lambda>a. let d = unat (a - 0x40000) in
       if d < 1710 then ucast (drop_bit (8 * (d mod 2)) (DEFAULT_FONT_DATA ! (d div 2)))
       else if a = 0x3000 then 0x48 else if a = 0x3001 then 0x0A else if a = 0x3002 then 0x69 else 0)
     0x30000 0x50000) 0x30008 20) 0x30010 20) 0x30018 84"

definition screen_machine :: fb_state where
  "screen_machine = io_state.extend (serial_machine\<lparr>mem := screen_mem\<rparr>) (fb_state.fields [0x30000] 0x30000 0x40000)"

lemma screen_machine_fields:
  "mem screen_machine = screen_mem" "framebuffer screen_machine = 0x30000" "font_data screen_machine = 0x40000"
  by (simp_all add: screen_machine_def io_state.defs fb_state.defs)

lemma screen_geometry:
  "fb_base screen_machine = 0x50000" "screen_size screen_machine = 20 * 84" "fb_w screen_machine = 20"
  "fb_h screen_machine = 20" "fb_p screen_machine = 84"
  by (simp_all add: screen_machine_fields screen_mem_def fb_address_def fb_width_def fb_height_def fb_pitch_def
      fb_w_def fb_h_def fb_p_def cell_simps)

lemma screen_ok: "fb_ok screen_machine"
  unfolding fb_ok_def screen_geometry by (simp add: screen_machine_fields ranges_disjoint_def)

lemma screen_mem_font:
  assumes "d < 1710"
  shows "screen_mem (0x40000 + of_nat d) = ucast (drop_bit (8 * (d mod 2)) (DEFAULT_FONT_DATA ! (d div 2)))"
proof -
  have u: "unat (of_nat d :: u64) = d" using assms by (simp add: unat_of_nat)
  then have n: "unat (0x40000 + of_nat d :: u64) = 0x40000 + d" using assms by (simp add: unat_word_ariths)
  have "\<not> in_range (0x30000 + k) 8 (0x40000 + of_nat d)" if "unat k \<le> 24" for k :: u64
    using that assms n by (subst in_range_linear) (simp_all add: unat_word_ariths)
  from this [of 0] this [of 8] this [of 16] this [of 24] show ?thesis
    using u assms by (simp add: screen_mem_def cell64.wr_outside Let_def)
qed

lemma screen_font: "font_loaded screen_machine"
proof -
  have "ld16 screen_mem (0x40000 + 2 * of_nat i) = DEFAULT_FONT_DATA ! i" if "i < 855" for i
    using screen_mem_font [of "2 * i"] screen_mem_font [of "2 * i + 1"] that
    by (subst ld16_eq_iff) (simp add: add.assoc add.commute)
  then show ?thesis by (simp add: font_loaded_def screen_machine_fields length_font)
qed

lemma screen_string: "string_off screen_machine 0x3000 [0x48, 0x0A, 0x69]"
proof -
  have "screen_mem a = (if a = 0x3000 then 0x48 else if a = 0x3001 then 0x0A else if a = 0x3002 then 0x69 else 0)"
    if "unat a < 0x30000" for a
  proof -
    have "\<not> in_range (0x30000 + k) 8 a" if "unat k \<le> 24" for k :: u64
      using that \<open>unat a < 0x30000\<close> by (subst in_range_linear) (simp_all add: unat_word_ariths)
    from this [of 0] this [of 8] this [of 16] this [of 24]
    have "screen_mem a = (let d = unat (a - 0x40000) in
       if d < 1710 then ucast (drop_bit (8 * (d mod 2)) (DEFAULT_FONT_DATA ! (d div 2)))
       else if a = 0x3000 then 0x48 else if a = 0x3001 then 0x0A else if a = 0x3002 then 0x69 else 0)"
      by (simp add: screen_mem_def cell64.wr_outside)
    moreover have "\<not> unat (a - 0x40000) < 1710" using that by (simp add: unat_sub_if')
    ultimately show ?thesis by simp
  qed
  then have "cstr screen_mem 0x3000 [0x48, 0x0A, 0x69]" by simp
  moreover have "\<not> visible_byte screen_machine (0x3000 + of_nat i)" if "i \<le> 3" for i
  proof -
    have "unat (of_nat i :: u64) = i" using that by (simp add: unat_of_nat)
    then have "1680 \<le> unat (0x3000 + of_nat i - 0x50000 :: u64)" using that by (simp add: unat_sub_if')
    then show ?thesis unfolding visible_byte_def screen_geometry Let_def by simp
  qed
  ultimately show ?thesis by (simp add: string_off_def screen_machine_fields)
qed

theorem framebuffer_putch_correct_witness:
  "getpix (framebuffer_putch screen_machine 3 4 0x41 0 0xFFFFFF) 6 9 = (if glyph 0x41 3 5 then 0xFFFFFF else 0)"
  using framebuffer_putch_correct [OF screen_ok screen_font, of "0x41" 3 4 0 "0xFFFFFF" 6 9]
  by (simp add: shown_def screen_geometry)

theorem framebuffer_clear_correct_witness:
  "\<exists>s'. framebuffer_clear screen_machine 0x123456 = Some s' \<and> getpix s' 19 7 = 0x123456"
  using framebuffer_clear_correct [OF screen_ok, of "0x123456"] by (fastforce simp: shown_def screen_geometry)

theorem framebuffer_ioctl_safe_witness:
  "\<exists>r s'. framebuffer_ioctl screen_machine FRAMEBUFFER_IOCTL_PUTSTR ((\<lambda>_. 0)(2 := 0x3000)) = Some (r, s') \<and>
     rest s' = rest screen_machine"
proof -
  have "string_off screen_machine (((\<lambda>_. 0)(2 := 0x3000 :: u64)) (2 :: nat)) [0x48, 0x0A, 0x69]"
    using screen_string by simp
  then show ?thesis using framebuffer_ioctl_safe [OF screen_ok] by blast
qed

end
