(* ===== verification/Acpi.thy ===== *)
theory Acpi
  imports Framebuffer
begin

text \<open>
  \<open>sys/src/firmware/acpi/acpi.c\<close>: the firmware tables, in which the kernel looks up the addresses of
  the interrupt controllers and the global interrupt that a legacy interrupt line is wired to.

  \<open>rsdp\<close> is the loader's answer to the RSDP request; \<open>acpi_ioapic_base\<close> and \<open>acpi_lapic_base\<close> are the
  static variables \<open>ioapic_base\<close> and \<open>lapic_base\<close> of \<open>acpi.c\<close>.  The address of the string literal
  \<open>"APIC"\<close> is a parameter.  A loop over the entries of the MADT does not end when an entry has length
  zero, and the assertion about the checksum stops the processor: both are \<open>None\<close>.
\<close>

section \<open>State and operations\<close>

record acpi_state = fb_state +
  rsdp :: u64
  rsdt :: u64
  madt :: u64
  rsdt_entry_count :: u32
  acpi_ioapic_base :: u64
  acpi_lapic_base :: u64

definition rsdp_rsdtaddr :: "memory \<Rightarrow> u64 \<Rightarrow> u32" where "rsdp_rsdtaddr m p = ld32 m (p + 16)"

abbreviation sizeof_acpi_header :: u64 where "sizeof_acpi_header \<equiv> 36"
definition header_signature :: "u64 \<Rightarrow> u64" where "header_signature p = p"
definition header_length :: "memory \<Rightarrow> u64 \<Rightarrow> u32" where "header_length m p = ld32 m (p + 4)"
definition rsdt_table :: "memory \<Rightarrow> u64 \<Rightarrow> u32 \<Rightarrow> u32" where "rsdt_table m p i = ld32 m (p + 36 + 4 * ucast i)"

abbreviation sizeof_madt :: u64 where "sizeof_madt \<equiv> 44"
definition madt_lapic_addr :: "memory \<Rightarrow> u64 \<Rightarrow> u32" where "madt_lapic_addr m p = ld32 m (p + 36)"

definition apic_type :: "memory \<Rightarrow> u64 \<Rightarrow> u8" where "apic_type m p = ld8 m p"
definition apic_length :: "memory \<Rightarrow> u64 \<Rightarrow> u8" where "apic_length m p = ld8 m (p + 1)"
definition io_apic_addr :: "memory \<Rightarrow> u64 \<Rightarrow> u32" where "io_apic_addr m p = ld32 m (p + 4)"
definition override_source :: "memory \<Rightarrow> u64 \<Rightarrow> u8" where "override_source m p = ld8 m (p + 3)"
definition override_interrupt :: "memory \<Rightarrow> u64 \<Rightarrow> u32" where "override_interrupt m p = ld32 m (p + 4)"

abbreviation APIC_TYPE_IO_APIC :: u8 where "APIC_TYPE_IO_APIC \<equiv> 1"
abbreviation APIC_TYPE_INTERRUPT_OVERRIDE :: u8 where "APIC_TYPE_INTERRUPT_OVERRIDE \<equiv> 2"

partial_function (option) find_madt_loop :: "u64 \<Rightarrow> 'a acpi_state_scheme \<Rightarrow> u32 \<Rightarrow> 'a acpi_state_scheme option" where
  "find_madt_loop lit s i =
     (if i < rsdt_entry_count s then
        let current = ucast (rsdt_table (mem s) (rsdt s) i)
        in do {
          c \<leftarrow> kstrncmp (mem s) (header_signature current) lit 4;
          if c = 0 then Some (s\<lparr>madt := current\<rparr>) else find_madt_loop lit s (i + 1)
        }
      else Some s)"

definition find_madt :: "u64 \<Rightarrow> 'a acpi_state_scheme \<Rightarrow> 'a acpi_state_scheme option" where
  "find_madt lit s = find_madt_loop lit s 0"

definition madt_end :: "'a acpi_state_scheme \<Rightarrow> u64" where
  "madt_end s = madt s + ucast (header_length (mem s) (madt s))"

partial_function (option) parse_madt_loop :: "'a acpi_state_scheme \<Rightarrow> u64 \<Rightarrow> u64 \<Rightarrow> 'a acpi_state_scheme option" where
  "parse_madt_loop s cur fin =
     (if cur < fin then
        let s = (if apic_type (mem s) cur = APIC_TYPE_IO_APIC
                 then s\<lparr>acpi_ioapic_base := ucast (io_apic_addr (mem s) cur)\<rparr> else s)
        in parse_madt_loop s (cur + ucast (apic_length (mem s) cur)) fin
      else Some s)"

definition parse_madt :: "'a acpi_state_scheme \<Rightarrow> 'a acpi_state_scheme option" where
  "parse_madt s =
     (let s = s\<lparr>acpi_lapic_base := ucast (madt_lapic_addr (mem s) (madt s))\<rparr>
      in parse_madt_loop s (madt s + sizeof_madt) (madt_end s))"

function checksum_loop :: "memory \<Rightarrow> u64 \<Rightarrow> u32 \<Rightarrow> u8 \<Rightarrow> u8" where
  "checksum_loop m header i acc =
     (if i < header_length m header then checksum_loop m header (i + 1) (acc + m (header + ucast i)) else acc)"
  by pat_completeness auto
termination
  by (relation "measure (\<lambda>(m, header, i, acc). unat (header_length m header - i))") (auto intro: loop_measure)

declare checksum_loop.simps [simp del]

definition do_checksum :: "memory \<Rightarrow> u64 \<Rightarrow> bool" where
  "do_checksum m header \<longleftrightarrow> unat (checksum_loop m header 0 0) mod 0x100 = 0"

definition acpi_get_ioapic_base :: "'a acpi_state_scheme \<Rightarrow> u64" where
  "acpi_get_ioapic_base s = acpi_ioapic_base s"

definition acpi_get_lapic_base :: "'a acpi_state_scheme \<Rightarrow> u64" where
  "acpi_get_lapic_base s = acpi_lapic_base s"

partial_function (option) remap_loop :: "memory \<Rightarrow> u8 \<Rightarrow> u64 \<Rightarrow> u64 \<Rightarrow> u16 option" where
  "remap_loop m irq cur fin =
     (if cur < fin then
        (if apic_type m cur = APIC_TYPE_INTERRUPT_OVERRIDE \<and> override_source m cur = irq
         then Some (ucast (override_interrupt m cur))
         else remap_loop m irq (cur + ucast (apic_length m cur)) fin)
      else Some (ucast irq))"

definition acpi_remap_irq :: "'a acpi_state_scheme \<Rightarrow> u8 \<Rightarrow> u16 option" where
  "acpi_remap_irq s irq = remap_loop (mem s) irq (madt s + sizeof_madt) (madt_end s)"

definition acpi_init :: "u64 \<Rightarrow> 'a acpi_state_scheme \<Rightarrow> 'a acpi_state_scheme option" where
  "acpi_init lit s =
     (let s = s\<lparr>rsdt := ucast (rsdp_rsdtaddr (mem s) (rsdp s))\<rparr>
      in if do_checksum (mem s) (rsdt s) then
           (let s = s\<lparr>rsdt_entry_count :=
                ucast ((ucast (header_length (mem s) (rsdt s)) - sizeof_acpi_header) div 4)\<rparr>
            in do { s \<leftarrow> find_madt lit s; parse_madt s })
         else None)"

section \<open>The entries of the MADT\<close>

text \<open>The abstract content: the address of an I/O APIC, the wiring of a legacy line, or anything else.\<close>

datatype madt_entry = IoApic u32 | Override u8 u32 | OtherEntry

definition entry_at :: "memory \<Rightarrow> u64 \<Rightarrow> madt_entry" where
  "entry_at m p = (if apic_type m p = 1 then IoApic (io_apic_addr m p)
     else if apic_type m p = 2 then Override (override_source m p) (override_interrupt m p) else OtherEntry)"

text \<open>A well-formed run of entries ends exactly at \<open>fin\<close>; no entry is empty or extends beyond it.\<close>

fun entries :: "memory \<Rightarrow> u64 \<Rightarrow> u64 \<Rightarrow> madt_entry list \<Rightarrow> bool" where
  "entries m cur fin [] \<longleftrightarrow> cur = fin"
| "entries m cur fin (e # es) \<longleftrightarrow> cur < fin \<and> apic_length m cur \<noteq> 0 \<and> ucast (apic_length m cur) \<le> fin - cur \<and>
     entry_at m cur = e \<and>
     entries m (cur + ucast (apic_length m cur)) fin es"

text \<open>They depend on nothing but the memory up to eight bytes beyond their end.\<close>

lemma entry_cong:
  assumes "\<And>i. i < 8 \<Longrightarrow> m' (p + i) = m (p + i)"
  shows "apic_length m' p = apic_length m p" "entry_at m' p = entry_at m p"
proof -
  have e: "m' p = m p" "m' (p + 1) = m (p + 1)" "m' (p + 3) = m (p + 3)"
    using assms [of 0] assms [of 1] assms [of 3] by simp_all
  have "ld32 m' (p + 4) = ld32 m (p + 4)"
  proof (rule cell32.rd_cong)
    fix x assume "in_range (p + 4) 4 x"
    then have "unat (x - (p + 4)) < 4" by (simp add: in_range_def word_less_nat_alt)
    moreover have "x - p = (x - (p + 4)) + 4" by simp
    ultimately have "unat (x - p) < 8" by (simp only: unat_word_ariths) simp
    then show "m' x = m x" using assms [of "x - p"] by (simp add: word_less_nat_alt)
  qed
  then show "apic_length m' p = apic_length m p" "entry_at m' p = entry_at m p"
    by (simp_all add: apic_length_def entry_at_def apic_type_def io_apic_addr_def override_source_def
        override_interrupt_def ld8_def e)
qed

lemma entries_cong:
  assumes "entries m cur fin es" "unat cur \<le> unat fin" "unat fin + 8 \<le> 18446744073709551616"
    "\<And>a. unat cur \<le> unat a \<Longrightarrow> unat a < unat fin + 8 \<Longrightarrow> m' a = m a"
  shows "entries m' cur fin es"
  using assms(1,2,4)
proof (induction es arbitrary: cur)
  case Nil
  then show ?case by simp
next
  case (Cons e es)
  have p: "cur < fin" "apic_length m cur \<noteq> 0" "ucast (apic_length m cur) \<le> fin - cur" "entry_at m cur = e"
    "entries m (cur + ucast (apic_length m cur)) fin es"
    using Cons.prems(1) unfolding entries.simps by blast+
  have b: "unat cur < unat fin" using p(1) by (simp add: word_less_nat_alt)
  have "m' (cur + i) = m (cur + i)" if "i < 8" for i
  proof -
    have "unat (cur + i) = unat cur + unat i"
      using that b assms(3) by (simp add: unat_word_ariths word_less_nat_alt)
    then show ?thesis using Cons.prems(3) [of "cur + i"] that b by (simp add: word_less_nat_alt)
  qed
  note same = entry_cong [of m' cur m, OF this]
  have "unat (fin - cur) = unat fin - unat cur" using p(1) by (simp add: unat_sub)
  then have "unat (apic_length m cur) \<le> unat fin - unat cur" using p(3) by (simp add: word_le_nat_alt)
  then have n: "unat (cur + ucast (apic_length m cur)) = unat cur + unat (apic_length m cur)"
    "unat cur + unat (apic_length m cur) \<le> unat fin"
    using b assms(3) by (simp_all add: unat_word_ariths)
  have "entries m' (cur + ucast (apic_length m cur)) fin es"
    by (rule Cons.IH [OF p(5)]) (use n Cons.prems(3) in simp_all)
  then show ?case by (simp only: entries.simps same p) simp
qed

fun last_ioapic :: "madt_entry list \<Rightarrow> u64 \<Rightarrow> u64" where
  "last_ioapic [] d = d"
| "last_ioapic (IoApic a # es) d = last_ioapic es (ucast a)"
| "last_ioapic (_ # es) d = last_ioapic es d"

fun wired_to :: "madt_entry list \<Rightarrow> u8 \<Rightarrow> u32" where
  "wired_to [] irq = ucast irq"
| "wired_to (Override src gsi # es) irq = (if src = irq then gsi else wired_to es irq)"
| "wired_to (_ # es) irq = wired_to es irq"

lemma last_ioapic_entry:
  assumes "entry_at m cur = e"
  shows "last_ioapic (e # es) d = last_ioapic es (if apic_type m cur = 1 then ucast (io_apic_addr m cur) else d)"
  unfolding assms [symmetric] entry_at_def by simp

lemma parse_madt_loop_entries:
  "entries (mem s) cur fin es \<Longrightarrow>
    parse_madt_loop s cur fin = Some (s\<lparr>acpi_ioapic_base := last_ioapic es (acpi_ioapic_base s)\<rparr>)"
proof (induction es arbitrary: s cur)
  case Nil
  then show ?case by (subst parse_madt_loop.simps) simp
next
  case (Cons e es)
  define s1 where "s1 = (if apic_type (mem s) cur = APIC_TYPE_IO_APIC
     then s\<lparr>acpi_ioapic_base := ucast (io_apic_addr (mem s) cur)\<rparr> else s)"
  have p: "cur < fin" "entry_at (mem s) cur = e"
    "entries (mem s) (cur + ucast (apic_length (mem s) cur)) fin es"
    using Cons.prems by (simp_all only: entries.simps)
  have m: "mem s1 = mem s" by (simp add: s1_def)
  have "parse_madt_loop s cur fin = parse_madt_loop s1 (cur + ucast (apic_length (mem s) cur)) fin"
    using p(1) m by (subst parse_madt_loop.simps) (simp only: s1_def [symmetric] Let_def if_True)
  also have "\<dots> = Some (s1\<lparr>acpi_ioapic_base := last_ioapic es (acpi_ioapic_base s1)\<rparr>)"
    by (rule Cons.IH) (simp only: m p(3))
  also have "\<dots> = Some (s\<lparr>acpi_ioapic_base := last_ioapic (e # es) (acpi_ioapic_base s)\<rparr>)"
    unfolding last_ioapic_entry [OF p(2)] s1_def by simp
  finally show ?case .
qed

lemma remap_loop_entries:
  "entries m cur fin es \<Longrightarrow> remap_loop m irq cur fin = Some (ucast (wired_to es irq))"
proof (induction es arbitrary: cur)
  case Nil
  have "(ucast (ucast irq :: u32) :: u16) = ucast irq" by (rule bit_word_eqI) (auto simp: bit_simps)
  then show ?case using Nil by (subst remap_loop.simps) simp
next
  case (Cons e es)
  have "remap_loop m irq (cur + ucast (apic_length m cur)) fin = Some (ucast (wired_to es irq))"
    using Cons by simp
  then show ?case
    using Cons.prems by (subst remap_loop.simps) (cases e; simp add: entry_at_def split: if_splits)
qed

section \<open>The search for the MADT and the checksum\<close>

text \<open>The tables that the RSDT lists, and the first with a given signature.\<close>

definition rsdt_tables :: "memory \<Rightarrow> u64 \<Rightarrow> nat \<Rightarrow> u64 list" where
  "rsdt_tables m p n = map (\<lambda>i. ucast (rsdt_table m p (of_nat i))) [0..<n]"

definition has_signature :: "memory \<Rightarrow> u8 list \<Rightarrow> u64 \<Rightarrow> bool" where
  "has_signature m sig p \<longleftrightarrow> bytes_at m (header_signature p) (length sig) = sig"

definition apic_signature :: "u8 list" where "apic_signature = ascii ''APIC''"

lemma length_apic_signature [simp]: "length apic_signature = 4"
  by (simp add: apic_signature_def ascii_def)

lemma find_madt_loop_spec:
  assumes "bytes_at (mem s) lit 4 = apic_signature"
  shows "find_madt_loop lit s i = Some (case find (has_signature (mem s) apic_signature)
      (map (\<lambda>i. ucast (rsdt_table (mem s) (rsdt s) (of_nat i))) [unat i..<unat (rsdt_entry_count s)]) of
      None \<Rightarrow> s | Some t \<Rightarrow> s\<lparr>madt := t\<rparr>)"
proof (induction "unat (rsdt_entry_count s - i)" arbitrary: i rule: less_induct)
  case less
  have c: "kstrncmp (mem s) (header_signature p) lit 4 = Some (if has_signature (mem s) apic_signature p then 0 else 1)" for p
    using kstrncmp_bytes [of 4 "mem s" "header_signature p" lit] assms by (simp add: has_signature_def)
  show ?case
  proof (cases "i < rsdt_entry_count s")
    case True
    have u: "[unat i..<unat (rsdt_entry_count s)] = unat i # [unat (i + 1)..<unat (rsdt_entry_count s)]"
      using True by (simp add: upt_conv_Cons word_less_nat_alt unat_Suc_less)
    show ?thesis using less.hyps [OF loop_measure [OF True]] True
      by (subst find_madt_loop.simps) (simp add: c u Let_def)
  next
    case False
    then have "unat (rsdt_entry_count s) \<le> unat i" by (simp add: word_less_nat_alt)
    then show ?thesis using False by (subst find_madt_loop.simps) simp
  qed
qed

lemma checksum_loop_sum:
  "checksum_loop m h i acc = acc + sum_list (map (\<lambda>k. m (h + of_nat k)) [unat i..<unat (header_length m h)])"
proof (induction m h i acc rule: checksum_loop.induct)
  case (1 m h i acc)
  show ?case
  proof (cases "i < header_length m h")
    case True
    then have u: "[unat i..<unat (header_length m h)] = unat i # [unat (i + 1)..<unat (header_length m h)]"
      by (simp add: upt_conv_Cons word_less_nat_alt unat_Suc_less)
    show ?thesis using "1.IH" [OF True] True by (subst checksum_loop.simps) (simp add: u add.assoc)
  next
    case False
    then have "unat (header_length m h) \<le> unat i" by (simp add: word_less_nat_alt)
    then show ?thesis using False by (subst checksum_loop.simps) simp
  qed
qed

lemma sum_list_unat: "unat (sum_list (xs :: u8 list)) = sum_list (map unat xs) mod 256"
proof (induction xs)
  case (Cons x xs)
  then show ?case by (simp add: unat_word_ariths mod_simps)
qed simp

lemma do_checksum_sum:
  "do_checksum m h \<longleftrightarrow> sum_list (map unat (bytes_at m h (unat (header_length m h)))) mod 256 = 0"
  by (simp add: do_checksum_def checksum_loop_sum sum_list_unat bytes_at_def comp_def)

section \<open>Claims\<close>

text \<open>A set of tables as firmware leaves it: the literal is in memory, the RSDT holds \<open>n\<close> table addresses
  and one of them is a MADT with well-formed entries.\<close>

definition acpi_tables :: "u64 \<Rightarrow> 'a acpi_state_scheme \<Rightarrow> nat \<Rightarrow> u64 \<Rightarrow> madt_entry list \<Rightarrow> bool" where
  "acpi_tables lit s n t es \<longleftrightarrow>
     (let r = ucast (rsdp_rsdtaddr (mem s) (rsdp s))
      in bytes_at (mem s) lit 4 = apic_signature \<and> unat (header_length (mem s) r) = 36 + 4 * n \<and>
         find (has_signature (mem s) apic_signature) (rsdt_tables (mem s) r n) = Some t \<and>
         entries (mem s) (t + sizeof_madt) (t + ucast (header_length (mem s) t)) es)"

text \<open>C20: With well-formed tables the initialisation succeeds exactly when the bytes of the RSDT sum up to
  zero modulo 256 and stops the processor otherwise; it then knows the first MADT, the address of the
  last I/O APIC listed there and the local APIC, and every legacy interrupt line is mapped to the global
  interrupt of its first override entry, or to itself.\<close>

theorem acpi_init_correct:
  assumes "acpi_tables lit s n t es"
  shows "(case acpi_init lit s of
      None \<Rightarrow> sum_list (map unat (bytes_at (mem s) (ucast (rsdp_rsdtaddr (mem s) (rsdp s))) (36 + 4 * n))) mod 256 \<noteq> 0
    | Some s' \<Rightarrow> sum_list (map unat (bytes_at (mem s) (ucast (rsdp_rsdtaddr (mem s) (rsdp s))) (36 + 4 * n))) mod 256 = 0 \<and>
        mem s' = mem s \<and> madt s' = t \<and> acpi_get_ioapic_base s' = last_ioapic es (acpi_ioapic_base s) \<and>
        acpi_get_lapic_base s' = ucast (madt_lapic_addr (mem s) t) \<and>
        (\<forall>irq. acpi_remap_irq s' irq = Some (ucast (wired_to es irq))))"
proof -
  define r where "r = (ucast (rsdp_rsdtaddr (mem s) (rsdp s)) :: u64)"
  have len: "unat (header_length (mem s) r) = 36 + 4 * n" and lit: "bytes_at (mem s) lit 4 = apic_signature"
    and t: "find (has_signature (mem s) apic_signature) (rsdt_tables (mem s) r n) = Some t"
    and es: "entries (mem s) (t + sizeof_madt) (t + ucast (header_length (mem s) t)) es"
    using assms by (auto simp: acpi_tables_def Let_def r_def)
  show ?thesis
  proof (cases "do_checksum (mem s) r")
    case False
    then have "acpi_init lit s = None" by (simp add: acpi_init_def r_def)
    then show ?thesis using False len by (simp add: do_checksum_sum r_def)
  next
    case True
    define s1 where "s1 = s\<lparr>rsdt := r, rsdt_entry_count :=
        ucast ((ucast (header_length (mem s) r) - sizeof_acpi_header) div 4)\<rparr>"
    have bound: "36 + 4 * n < 4294967296" using len unat_less_32 [of "header_length (mem s) r"] by simp
    have "unat ((ucast (header_length (mem s) r) :: u64) - 36) = 4 * n" using len by (simp add: unat_sub word_le_nat_alt)
    then have "unat (((ucast (header_length (mem s) r) :: u64) - 36) div 4) = n" by (simp add: unat_div)
    then have cnt: "unat (rsdt_entry_count s1) = n"
      using bound by (simp add: s1_def unsigned_ucast_eq take_bit_nat_eq_self)
    have "find_madt lit s1 = Some (s1\<lparr>madt := t\<rparr>)"
      using find_madt_loop_spec [of s1 lit 0] lit t cnt by (simp add: find_madt_def s1_def rsdt_tables_def)
    moreover define s2 where "s2 = s1\<lparr>madt := t, acpi_lapic_base := ucast (madt_lapic_addr (mem s) t)\<rparr>"
    have "parse_madt (s1\<lparr>madt := t\<rparr>) = Some (s2\<lparr>acpi_ioapic_base := last_ioapic es (acpi_ioapic_base s)\<rparr>)"
      using parse_madt_loop_entries [of s2 "t + sizeof_madt" "t + ucast (header_length (mem s) t)" es] es
      by (simp add: parse_madt_def madt_end_def s2_def s1_def)
    ultimately have i: "acpi_init lit s = Some (s2\<lparr>acpi_ioapic_base := last_ioapic es (acpi_ioapic_base s)\<rparr>)"
      using True by (simp add: acpi_init_def s1_def r_def)
    have "acpi_remap_irq (s2\<lparr>acpi_ioapic_base := a\<rparr>) irq = Some (ucast (wired_to es irq))" for a irq
      using remap_loop_entries [OF es, of irq] by (simp add: acpi_remap_irq_def madt_end_def s2_def s1_def)
    then show ?thesis using i True len
      by (simp add: do_checksum_sum s2_def s1_def acpi_get_ioapic_base_def acpi_get_lapic_base_def r_def)
  qed
qed

text \<open>Tables with one MADT: an I/O APIC at 0xFEC00000, and line 0 wired to interrupt 2.\<close>

definition acpi_bytes :: "u8 list" where
  "acpi_bytes =
    [0, 0, 0, 0, 0, 0, 0, 0, 0, 0, 0, 0, 0, 0, 0, 0, 0x14, 0x10, 0x0E, 0,
     0x52, 0x53, 0x44, 0x54, 40, 0, 0, 0, 1, 0x40, 0, 0, 0, 0, 0, 0, 0, 0, 0, 0, 0, 0, 0, 0, 0, 0, 0, 0, 0, 0, 0, 0, 0, 0, 0, 0,
     0x3C, 0x10, 0x0E, 0,
     0x41, 0x50, 0x49, 0x43, 66, 0, 0, 0, 1, 0, 0, 0, 0, 0, 0, 0, 0, 0, 0, 0, 0, 0, 0, 0, 0, 0, 0, 0, 0, 0, 0, 0, 0, 0, 0, 0,
     0, 0, 0xE0, 0xFE, 1, 0, 0, 0,
     1, 12, 0, 0, 0, 0, 0xC0, 0xFE, 0, 0, 0, 0,
     2, 10, 0, 0, 2, 0, 0, 0, 0, 0,
     0x41, 0x50, 0x49, 0x43]"

definition acpi_mem :: memory where
  "acpi_mem a = (let i = unat (a - 0xE1000) in if i < 130 then acpi_bytes ! i else 0)"

definition acpi_machine :: acpi_state where
  "acpi_machine = fb_state.extend (screen_machine\<lparr>mem := acpi_mem\<rparr>) (acpi_state.fields 0xE1000 0 0 0 0 0)"

lemma acpi_machine_fields: "mem acpi_machine = acpi_mem" "rsdp acpi_machine = 0xE1000" "acpi_ioapic_base acpi_machine = 0"
  by (simp_all add: acpi_machine_def fb_state.defs acpi_state.defs)

lemma acpi_machine_tables:
  "acpi_tables 0xE107E acpi_machine 1 0xE103C [IoApic 0xFEC00000, Override 0 2]"
proof -
  have "rsdp_rsdtaddr acpi_mem 0xE1000 = 0xE1014"
    by (simp add: rsdp_rsdtaddr_def ld32_eq_iff acpi_mem_def acpi_bytes_def)
  moreover have "header_length acpi_mem 0xE1014 = 40" "header_length acpi_mem 0xE103C = 66"
    by (simp_all add: header_length_def ld32_eq_iff acpi_mem_def acpi_bytes_def)
  moreover have "rsdt_table acpi_mem 0xE1014 0 = 0xE103C"
    by (simp add: rsdt_table_def ld32_eq_iff acpi_mem_def acpi_bytes_def)
  moreover have "bytes_at acpi_mem 0xE107E 4 = apic_signature" "bytes_at acpi_mem 0xE103C 4 = apic_signature"
    by (simp_all add: bytes_at_def apic_signature_def ascii_def acpi_mem_def acpi_bytes_def upt_rec)
  moreover have "entries acpi_mem 0xE1068 0xE107E [IoApic 0xFEC00000, Override 0 2]"
    by (simp add: entry_at_def apic_type_def apic_length_def ld8_def io_apic_addr_def override_source_def
        override_interrupt_def ld32_eq_iff acpi_mem_def acpi_bytes_def)
  ultimately show ?thesis
    by (simp add: acpi_tables_def acpi_machine_fields rsdt_tables_def has_signature_def header_signature_def)
qed

theorem acpi_init_correct_witness:
  "\<exists>s'. acpi_init 0xE107E acpi_machine = Some s' \<and> acpi_get_ioapic_base s' = 0xFEC00000 \<and> acpi_remap_irq s' 0 = Some 2 \<and>
    acpi_remap_irq s' 4 = Some 4"
proof -
  have r: "rsdp_rsdtaddr acpi_mem 0xE1000 = 0xE1014"
    by (simp add: rsdp_rsdtaddr_def ld32_eq_iff acpi_mem_def acpi_bytes_def)
  have "sum_list (map unat (bytes_at acpi_mem 0xE1014 40)) mod 256 = 0"
    by (simp add: bytes_at_def acpi_mem_def acpi_bytes_def upt_rec)
  then show ?thesis
    using acpi_init_correct [OF acpi_machine_tables]
    by (auto simp: acpi_machine_fields r split: option.splits)
qed

end
