(* ===== verification/Apic.thy ===== *)
theory Apic
  imports Acpi
begin

text \<open>
  \<open>sys/src/arch/x86/apic/ioapic.c\<close> and \<open>sys/src/arch/x86/apic/lapic.c\<close>: the I/O interrupt controller,
  whose registers are reached through a select and a data window, and the local controller.

  \<open>ioapic\<close> and \<open>lapic\<close> are the static variables \<open>ioapic_base\<close> and \<open>lapic_base\<close> of the two files.  A
  volatile access is an event of the bus trace; the abstract register file of the I/O APIC is read off
  the trace, as the data sheet describes it.
\<close>

section \<open>State and operations\<close>

record apic_state = acpi_state +
  ioapic :: u64
  lapic :: u64

abbreviation IOWIN :: u64 where "IOWIN \<equiv> 0x10"
abbreviation IOAPICVER :: u8 where "IOAPICVER \<equiv> 0x01"
abbreviation IOREDTBL :: u8 where "IOREDTBL \<equiv> 0x10"

definition ioapic_read :: "'a apic_state_scheme \<Rightarrow> u8 \<Rightarrow> u32 \<times> 'a apic_state_scheme" where
  "ioapic_read s r =
     (let s = emit (MmioW (ioapic s) (ucast r)) s
      in answer (MmioR (ioapic s + IOWIN)) s)"

definition ioapic_write :: "'a apic_state_scheme \<Rightarrow> u8 \<Rightarrow> u32 \<Rightarrow> 'a apic_state_scheme" where
  "ioapic_write s r v =
     (let s = emit (MmioW (ioapic s) (ucast r)) s
      in emit (MmioW (ioapic s + IOWIN) v) s)"

definition ioapic_set_entry :: "'a apic_state_scheme \<Rightarrow> u8 \<Rightarrow> u64 \<Rightarrow> 'a apic_state_scheme" where
  "ioapic_set_entry s index data =
     (let s = ioapic_write s (IOREDTBL + index * 2) (ucast data)
      in ioapic_write s (IOREDTBL + index * 2 + 1) (ucast (drop_bit 32 data)))"

function mask_loop :: "'a apic_state_scheme \<Rightarrow> u32 \<Rightarrow> u32 \<Rightarrow> 'a apic_state_scheme" where
  "mask_loop s max_red_entries i =
     (if i < max_red_entries then mask_loop (ioapic_set_entry s (ucast i) (push_bit 16 1)) max_red_entries (i + 1)
      else s)"
  by pat_completeness auto
termination
  by (relation "measure (\<lambda>(s, n, i). unat (n - i))") (auto intro: loop_measure)

declare mask_loop.simps [simp del]

definition ioapic_init :: "'a apic_state_scheme \<Rightarrow> 'a apic_state_scheme" where
  "ioapic_init s =
     (let s = s\<lparr>ioapic := acpi_get_ioapic_base s\<rparr>;
          (v, s) = ioapic_read s IOAPICVER
      in mask_loop s ((drop_bit 16 v AND 0xFF) + 1) 0)"

abbreviation LAPIC_EOI :: u16 where "LAPIC_EOI \<equiv> 0x00b0"
abbreviation LAPIC_LDR :: u16 where "LAPIC_LDR \<equiv> 0x00d0"
abbreviation LAPIC_DFR :: u16 where "LAPIC_DFR \<equiv> 0x00e0"
abbreviation LAPIC_SVR :: u16 where "LAPIC_SVR \<equiv> 0x00f0"

definition lapic_write :: "'a apic_state_scheme \<Rightarrow> u16 \<Rightarrow> u32 \<Rightarrow> 'a apic_state_scheme" where
  "lapic_write s r v = emit (MmioW (lapic s + ucast r) v) s"

definition lapic_send_eoi :: "'a apic_state_scheme \<Rightarrow> 'a apic_state_scheme" where
  "lapic_send_eoi s = lapic_write s LAPIC_EOI 0"

definition lapic_init :: "'a apic_state_scheme \<Rightarrow> 'a apic_state_scheme" where
  "lapic_init s =
     (let s = s\<lparr>lapic := acpi_get_lapic_base s\<rparr>;
          s = lapic_write s LAPIC_DFR 0xFFFFFFFF;
          s = lapic_write s LAPIC_LDR 0x01000000
      in lapic_write s LAPIC_SVR (push_bit 8 1 OR 0xFF))"

section \<open>The register file behind the window\<close>

text \<open>The register selected and the contents of the registers after a trace of accesses; a register that
  was never written has its reset value \<open>d\<close>.\<close>

fun ioapic_step :: "u64 \<Rightarrow> u32 \<times> (u32 \<Rightarrow> u32) \<Rightarrow> io_event \<Rightarrow> u32 \<times> (u32 \<Rightarrow> u32)" where
  "ioapic_step base (sel, regs) (MmioW a v) =
     (if a = base then (v, regs) else if a = base + 0x10 then (sel, regs(sel := v)) else (sel, regs))"
| "ioapic_step base st _ = st"

definition ioapic_regs :: "u64 \<Rightarrow> (u32 \<Rightarrow> u32) \<Rightarrow> io_event list \<Rightarrow> u32 \<Rightarrow> u32" where
  "ioapic_regs base d t = snd (foldl (ioapic_step base) (0, d) t)"

definition redirection :: "(u32 \<Rightarrow> u32) \<Rightarrow> nat \<Rightarrow> u64" where
  "redirection regs i = push_bit 32 (ucast (regs (0x11 + 2 * of_nat i))) OR ucast (regs (0x10 + 2 * of_nat i))"

definition masked :: "u64 \<Rightarrow> bool" where "masked e \<longleftrightarrow> bit e 16"
definition vector_of :: "u64 \<Rightarrow> u8" where "vector_of e = ucast e"

lemma ioapic_regs_snoc:
  "ioapic_regs base d (t @ [MmioW base r, MmioW (base + 0x10) v]) = (ioapic_regs base d t)(r := v)"
proof -
  obtain sel regs where "foldl (ioapic_step base) (0, d) t = (sel, regs)" by fastforce
  then show ?thesis by (simp add: ioapic_regs_def)
qed

lemma ioapic_write_regs:
  "ioapic_regs (ioapic s) d (bus (ioapic_write s r v)) = (ioapic_regs (ioapic s) d (bus s))(ucast r := v)"
  by (simp add: ioapic_write_def Let_def emit_def ioapic_regs_snoc)

text \<open>The writes go to distinct registers as long as the index is below 120: the register number is a byte.\<close>

lemma entry_registers:
  assumes "unat i < 120"
  shows "(ucast (IOREDTBL + i * 2) :: u32) = 0x10 + 2 * of_nat (unat i)" "(ucast (IOREDTBL + i * 2 + 1) :: u32) = 0x11 + 2 * of_nat (unat i)"
    "(ucast (17 + i * 2) :: u32) = 0x11 + 2 * of_nat (unat i)"
  using assms by (simp_all add: word_unat_eq_iff unat_word_ariths unat_of_nat)

lemma redirection_write:
  assumes "i < 120" "j < 120"
  shows "redirection (regs(0x10 + 2 * of_nat i := ucast w, 0x11 + 2 * of_nat i := ucast (drop_bit 32 w))) j =
    (if j = i then w else redirection regs j)"
proof -
  have n: "(of_nat k :: u32) = of_nat l \<longleftrightarrow> k = l" if "k < 1000" "l < 1000" for k l
    using that by (simp add: word_unat_eq_iff unat_of_nat)
  have e: "0x10 + 2 * of_nat k = (of_nat (16 + 2 * k) :: u32)" "0x11 + 2 * of_nat k = (of_nat (17 + 2 * k) :: u32)" for k
    by simp_all
  have w: "push_bit 32 (ucast (ucast (drop_bit 32 w) :: u32)) OR ucast (ucast w :: u32) = w"
    by (rule bit_word_eqI) (auto simp: bit_simps)
  have "17 + 2 * j \<noteq> 16 + 2 * i" "16 + 2 * j \<noteq> 17 + 2 * i" by presburger+
  then show ?thesis
    unfolding redirection_def e using assms w by (simp add: n del: of_nat_add of_nat_mult of_nat_numeral)
qed

lemma set_entry_redirection:
  assumes "unat i < 120" "j < 120"
  shows "redirection (ioapic_regs (ioapic s) d (bus (ioapic_set_entry s i w))) j =
    (if j = unat i then w else redirection (ioapic_regs (ioapic s) d (bus s)) j)"
proof -
  have "ioapic (ioapic_write s r v) = ioapic s" for r v by (simp add: ioapic_write_def emit_def)
  then have "ioapic_regs (ioapic s) d (bus (ioapic_set_entry s i w)) =
      (ioapic_regs (ioapic s) d (bus s))(0x10 + 2 * of_nat (unat i) := ucast w, 0x11 + 2 * of_nat (unat i) := ucast (drop_bit 32 w))"
    using ioapic_write_regs [of "ioapic_write s (IOREDTBL + i * 2) (ucast w)"]
    by (simp add: ioapic_set_entry_def ioapic_write_regs entry_registers [OF assms(1)])
  then show ?thesis using redirection_write [OF assms] by simp
qed

lemma set_entry_keeps:
  "mem (ioapic_set_entry s i w) = mem s" "ioapic (ioapic_set_entry s i w) = ioapic s"
  by (simp_all add: ioapic_set_entry_def ioapic_write_def emit_def)

lemma mask_loop_redirection:
  "unat n \<le> 120 \<Longrightarrow> j < 120 \<Longrightarrow>
    redirection (ioapic_regs (ioapic s) d (bus (mask_loop s n i))) j =
    (if unat i \<le> j \<and> j < unat n then push_bit 16 1 else redirection (ioapic_regs (ioapic s) d (bus s)) j)"
proof (induction s n i rule: mask_loop.induct)
  case (1 s n i)
  show ?case
  proof (cases "i < n")
    case True
    then have i: "unat i < unat n" by (simp add: word_less_nat_alt)
    then have u: "unat (ucast i :: u8) = unat i" using "1.prems"
      by (simp add: unsigned_ucast_eq take_bit_nat_eq_self)
    have "redirection (ioapic_regs (ioapic s) d (bus (mask_loop s n i))) j =
        (if unat (i + 1) \<le> j \<and> j < unat n then push_bit 16 1
         else redirection (ioapic_regs (ioapic s) d (bus (ioapic_set_entry s (ucast i) (push_bit 16 1)))) j)"
      using "1.IH" [OF True "1.prems"] True by (subst mask_loop.simps) (simp add: set_entry_keeps)
    then show ?thesis
      using set_entry_redirection [of "ucast i" j s d "push_bit 16 1"] "1.prems" i u unat_Suc_less [OF True]
      by (auto simp del: push_bit_of_1)
  next
    case False
    then show ?thesis by (subst mask_loop.simps) (auto simp: word_less_nat_alt)
  qed
qed

lemma mask_loop_keeps: "mem (mask_loop s n i) = mem s \<and> ioapic (mask_loop s n i) = ioapic s"
proof (induction s n i rule: mask_loop.induct)
  case (1 s n i)
  then show ?case by (cases "i < n") (subst mask_loop.simps, simp add: set_entry_keeps)+
qed

text \<open>The number of entries that the version register reports.\<close>

definition red_entries :: "'a apic_state_scheme \<Rightarrow> nat" where
  "red_entries s = unat (drop_bit 16 (device s (bus s @ [MmioW (acpi_ioapic_base s) 1]) (MmioR (acpi_ioapic_base s + IOWIN)))
     AND 0xFF) + 1"

lemma ioapic_init_masks:
  assumes "j < red_entries s" "red_entries s \<le> 120"
  shows "redirection (ioapic_regs (acpi_ioapic_base s) d (bus (ioapic_init s))) j = push_bit 16 1"
    "ioapic (ioapic_init s) = acpi_ioapic_base s" "mem (ioapic_init s) = mem s"
proof -
  define s1 where "s1 = s\<lparr>ioapic := acpi_ioapic_base s\<rparr>"
  define v where "v = device s (bus s @ [MmioW (acpi_ioapic_base s) 1]) (MmioR (acpi_ioapic_base s + IOWIN))"
  define s2 where "s2 = snd (ioapic_read s1 IOAPICVER)"
  have r: "ioapic_read s1 IOAPICVER = (v, s2)"
    by (simp add: s2_def v_def s1_def ioapic_read_def answer_def emit_def)
  have i: "ioapic_init s = mask_loop s2 ((drop_bit 16 v AND 0xFF) + 1) 0"
    using r by (simp add: ioapic_init_def s1_def acpi_get_ioapic_base_def)
  have k: "ioapic s2 = acpi_ioapic_base s" "mem s2 = mem s" by (simp_all add: s2_def s1_def ioapic_read_def answer_def emit_def)
  have "drop_bit 16 v AND 0xFF \<le> 0xFF" by (simp add: word_and_le1)
  then have "unat (drop_bit 16 v AND 0xFF) \<le> 0xFF" by (simp add: word_le_nat_alt)
  then have n: "unat ((drop_bit 16 v AND 0xFF) + 1) = red_entries s"
    by (simp add: red_entries_def v_def unat_word_ariths)
  show "redirection (ioapic_regs (acpi_ioapic_base s) d (bus (ioapic_init s))) j = push_bit 16 1"
    using mask_loop_redirection [of "(drop_bit 16 v AND 0xFF) + 1" j s2 d 0] assms i k n by (simp del: push_bit_of_1)
  show "ioapic (ioapic_init s) = acpi_ioapic_base s" "mem (ioapic_init s) = mem s"
    by (simp_all add: i k mask_loop_keeps)
qed

text \<open>The local APIC: three registers are written, the last with the enable bit and the spurious vector.\<close>

lemma lapic_init_writes:
  "bus (lapic_init s) = bus s @ [MmioW (acpi_lapic_base s + 0xE0) 0xFFFFFFFF,
     MmioW (acpi_lapic_base s + 0xD0) 0x01000000, MmioW (acpi_lapic_base s + 0xF0) 0x1FF]"
  by (simp add: lapic_init_def lapic_write_def emit_def acpi_get_lapic_base_def)

end
