(* ===== verification/Idt.thy ===== *)
theory Idt
  imports Apic
begin

text \<open>
  \<open>sys/src/arch/x64/idt.c\<close>, \<open>sys/src/arch/x64/interrupts.c\<close>, the registration half of
  \<open>sys/src/intr/exceptions.c\<close> and \<open>sys/src/intr/init.c\<close>: the interrupt descriptor table, in which
  the kernel enters the addresses of its handlers.

  \<open>idt\<close> is the address of the table.  The addresses that the linker gives the handlers are the
  parameter \<open>isr_code\<close>.  A bit field of \<open>intr_gate_descriptor_t\<close> is set by reading its byte,
  replacing the bits and writing it back.  \<open>idt_gate\<close> is the processor's reading of an entry.
\<close>

section \<open>Bit fields\<close>

definition set_bits :: "u64 \<Rightarrow> nat \<Rightarrow> nat \<Rightarrow> u8 \<Rightarrow> memory \<Rightarrow> memory" where
  "set_bits a lo n v m = st8 m a ((ld8 m a AND NOT (push_bit lo (mask n))) OR push_bit lo (take_bit n v))"

definition get_bits :: "u64 \<Rightarrow> nat \<Rightarrow> nat \<Rightarrow> memory \<Rightarrow> u8" where
  "get_bits a lo n m = take_bit n (drop_bit lo (ld8 m a))"

lemma bit_set_bits:
  "bit (set_bits a lo n v m b) k \<longleftrightarrow>
     (if b = a \<and> lo \<le> k \<and> k < lo + n then k < 8 \<and> bit v (k - lo) else bit (m b) k)"
  by (auto simp: set_bits_def st8_def ld8_def bit_simps mask_eq_exp_minus_1[symmetric] dest: bit_imp_le_length)

lemma bit_get_bits: "bit (get_bits a lo n m) k \<longleftrightarrow> k < n \<and> bit (m a) (lo + k)"
  by (auto simp: get_bits_def ld8_def bit_simps)

section \<open>State and operations\<close>

record idt_state = apic_state +
  idt :: u64

abbreviation TRAP_GATE_FLAGS :: u16 where "TRAP_GATE_FLAGS \<equiv> 0x8F"
abbreviation INT_GATE_FLAGS :: u16 where "INT_GATE_FLAGS \<equiv> 0x8E"
abbreviation IDT_INT_GATE_USER :: u16 where "IDT_INT_GATE_USER \<equiv> 0xEE"

definition idt_entry :: "u64 \<Rightarrow> u8 \<Rightarrow> u64" where "idt_entry table v = table + 16 * ucast v"

definition set_isr_low16 :: "u64 \<Rightarrow> u16 \<Rightarrow> memory \<Rightarrow> memory" where "set_isr_low16 d v m = st16 m d v"
definition set_cs :: "u64 \<Rightarrow> u16 \<Rightarrow> memory \<Rightarrow> memory" where "set_cs d v m = st16 m (d + 2) v"
definition set_ist :: "u64 \<Rightarrow> u8 \<Rightarrow> memory \<Rightarrow> memory" where "set_ist d v = set_bits (d + 4) 0 2 v"
definition set_zero :: "u64 \<Rightarrow> u8 \<Rightarrow> memory \<Rightarrow> memory" where "set_zero d v = set_bits (d + 4) 2 1 v"
definition set_zero1 :: "u64 \<Rightarrow> u8 \<Rightarrow> memory \<Rightarrow> memory" where "set_zero1 d v = set_bits (d + 4) 3 3 v"
definition set_type :: "u64 \<Rightarrow> u8 \<Rightarrow> memory \<Rightarrow> memory" where "set_type d v = set_bits (d + 5) 0 4 v"
definition set_zero2 :: "u64 \<Rightarrow> u8 \<Rightarrow> memory \<Rightarrow> memory" where "set_zero2 d v = set_bits (d + 5) 4 1 v"
definition set_dpl :: "u64 \<Rightarrow> u8 \<Rightarrow> memory \<Rightarrow> memory" where "set_dpl d v = set_bits (d + 5) 5 2 v"
definition set_p :: "u64 \<Rightarrow> u8 \<Rightarrow> memory \<Rightarrow> memory" where "set_p d v = set_bits (d + 5) 7 1 v"
definition set_isr_mid16 :: "u64 \<Rightarrow> u16 \<Rightarrow> memory \<Rightarrow> memory" where "set_isr_mid16 d v m = st16 m (d + 6) v"
definition set_isr_high32 :: "u64 \<Rightarrow> u32 \<Rightarrow> memory \<Rightarrow> memory" where "set_isr_high32 d v m = st32 m (d + 8) v"
definition set_reserved :: "u64 \<Rightarrow> u32 \<Rightarrow> memory \<Rightarrow> memory" where "set_reserved d v m = st32 m (d + 12) v"

definition set_desc :: "'a idt_state_scheme \<Rightarrow> u8 \<Rightarrow> u64 \<Rightarrow> u16 \<Rightarrow> 'a idt_state_scheme" where
  "set_desc s vector isr gtype =
     (let desc = idt_entry (idt s) vector; m = mem s;
          m = set_isr_low16 desc (ucast (isr AND 0xFFFF)) m;
          m = set_isr_mid16 desc (ucast (drop_bit 16 isr AND 0xFFFF)) m;
          m = set_isr_high32 desc (ucast (drop_bit 32 isr)) m;
          m = set_cs desc 0x28 m;
          m = set_ist desc 0 m;
          m = set_zero desc 0 m;
          m = set_zero1 desc 0 m;
          m = set_zero2 desc 0 m;
          m = set_reserved desc 0 m;
          m = set_type desc (ucast gtype) m;
          m = set_p desc 1 m;
          m = set_dpl desc 3 m
      in s\<lparr>mem := m\<rparr>)"

definition register_trap :: "'a idt_state_scheme \<Rightarrow> u8 \<Rightarrow> u64 \<Rightarrow> 'a idt_state_scheme" where
  "register_trap s vector isr = set_desc s vector isr TRAP_GATE_FLAGS"

definition register_user_int :: "'a idt_state_scheme \<Rightarrow> u8 \<Rightarrow> u64 \<Rightarrow> 'a idt_state_scheme" where
  "register_user_int s vector isr = set_desc s vector isr IDT_INT_GATE_USER"

text \<open>The index of the redirection entry is a byte, the interrupt number that ACPI gives has 16 bits.\<close>

definition register_irq :: "'a idt_state_scheme \<Rightarrow> u8 \<Rightarrow> u8 \<Rightarrow> u64 \<Rightarrow> 'a idt_state_scheme option" where
  "register_irq s irq vector isr =
     (let s = set_desc s vector isr INT_GATE_FLAGS
      in do { g \<leftarrow> acpi_remap_irq s irq; Some (ioapic_set_entry s (ucast g) (ucast vector)) })"

record isr_code =
  at_vec :: "nat \<Rightarrow> u64"
  at_irq0_isr :: u64
  at_syscall_entry :: u64

definition init_exceptions :: "isr_code \<Rightarrow> 'a idt_state_scheme \<Rightarrow> 'a idt_state_scheme" where
  "init_exceptions code s =
     (let s = register_trap s 0 (at_vec code 0);
          s = register_trap s 1 (at_vec code 1);
          s = register_trap s 3 (at_vec code 3);
          s = register_trap s 4 (at_vec code 5);
          s = register_trap s 5 (at_vec code 5);
          s = register_trap s 6 (at_vec code 6);
          s = register_trap s 8 (at_vec code 8);
          s = register_trap s 10 (at_vec code 10);
          s = register_trap s 11 (at_vec code 11);
          s = register_trap s 12 (at_vec code 12);
          s = register_trap s 13 (at_vec code 13)
      in register_trap s 14 (at_vec code 14))"

definition intr_init :: "isr_code \<Rightarrow> 'a idt_state_scheme \<Rightarrow> 'a idt_state_scheme option" where
  "intr_init code s =
     (let s = init_exceptions code s
      in do {
        s \<leftarrow> register_irq s 0 0x20 (at_irq0_isr code);
        Some (register_user_int s 0x80 (at_syscall_entry code))
      })"

section \<open>What the processor reads\<close>

record gate =
  gate_offset :: u64
  gate_selector :: u16
  gate_ist :: u8
  gate_type :: u8
  gate_dpl :: u8
  gate_present :: u8

definition idt_gate :: "memory \<Rightarrow> u64 \<Rightarrow> u8 \<Rightarrow> gate" where
  "idt_gate m table v =
     (let d = idt_entry table v
      in \<lparr>gate_offset = push_bit 32 (ucast (ld32 m (d + 8))) OR push_bit 16 (ucast (ld16 m (d + 6))) OR ucast (ld16 m d),
          gate_selector = ld16 m (d + 2), gate_ist = get_bits (d + 4) 0 3 m, gate_type = get_bits (d + 5) 0 4 m,
          gate_dpl = get_bits (d + 5) 5 2 m, gate_present = get_bits (d + 5) 7 1 m\<rparr>)"

text \<open>A gate of the kernel: the kernel's code segment, no separate stack, and open to user mode.\<close>

definition kernel_gate :: "u64 \<Rightarrow> u8 \<Rightarrow> gate" where
  "kernel_gate isr ty = \<lparr>gate_offset = isr, gate_selector = 0x28, gate_ist = 0, gate_type = ty, gate_dpl = 3, gate_present = 1\<rparr>"

lemma set_bits_outside: "x \<noteq> a \<Longrightarrow> set_bits a lo n v m x = m x"
  by (simp add: set_bits_def st8_def)

lemma set_desc_outside:
  assumes "\<not> in_range (idt_entry (idt s) v) 16 x"
  shows "mem (set_desc s v isr ty) x = mem s x"
proof -
  define d where "d = idt_entry (idt s) v"
  have n: "\<not> in_range (d + k) n x" if "unat k + unat n \<le> 16" for k n
  proof
    assume "in_range (d + k) n x"
    then have "unat (x - (d + k)) < unat n" by (simp add: in_range_def word_less_nat_alt)
    moreover have "x - d = (x - (d + k)) + k" by simp
    ultimately have "unat (x - d) < 16" using that by (simp only: unat_word_ariths) simp
    then show False using assms by (simp add: in_range_def word_less_nat_alt d_def)
  qed
  have e: "x \<noteq> d + k" if "unat k < 16" for k
    using n [of k 1] that by (auto simp: in_range_def)
  show ?thesis
    using n [of 0 2] n [of 2 2] n [of 6 2] n [of 8 4] n [of 12 4] e [of 4] e [of 5]
    by (simp add: set_desc_def Let_def set_isr_low16_def set_cs_def set_ist_def set_zero_def set_zero1_def set_type_def
        set_zero2_def set_dpl_def set_p_def set_isr_mid16_def set_isr_high32_def set_reserved_def set_bits_outside
        cell16.wr_outside cell32.wr_outside d_def)
qed

interpretation c16_32: two_cells ld16 st16 2 ld32 st32 4 by unfold_locales
interpretation c32_16: two_cells ld32 st32 4 ld16 st16 2 by unfold_locales

lemma set_bits_other:
  "\<not> in_range p 2 a \<Longrightarrow> ld16 (set_bits a lo n v m) p = ld16 m p"
  "\<not> in_range p 4 a \<Longrightarrow> ld32 (set_bits a lo n v m) p = ld32 m p"
  by (simp_all add: set_bits_def st8_def cell16.rd_outside_update cell32.rd_outside_update)

lemma join_offset:
  "push_bit 32 (ucast (ucast (drop_bit 32 a) :: u32)) OR push_bit 16 (ucast (ucast (drop_bit 16 a AND 0xFFFF) :: u16)) OR
     ucast (ucast (a AND 0xFFFF) :: u16) = (a :: u64)"
proof -
  have m: "b AND 0xFFFF = take_bit 16 b" for b :: u64 by (simp add: take_bit_eq_mask mask_numeral)
  show ?thesis
    unfolding m
  proof (rule bit_word_eqI)
    fix n assume "n < LENGTH(64)"
    then show "bit (push_bit 32 (ucast (ucast (drop_bit 32 a) :: u32)) OR
        push_bit 16 (ucast (ucast (take_bit 16 (drop_bit 16 a)) :: u16)) OR ucast (ucast (take_bit 16 a) :: u16) :: u64) n = bit a n"
      by (cases "n < 32") (auto simp: bit_simps)
  qed
qed

lemmas gate_writers = set_isr_low16_def set_cs_def set_ist_def set_zero_def set_zero1_def set_type_def
  set_zero2_def set_dpl_def set_p_def set_isr_mid16_def set_isr_high32_def set_reserved_def

lemma set_desc_gate: "idt_gate (mem (set_desc s v isr ty)) (idt s) v = kernel_gate isr (take_bit 4 (ucast ty))"
proof -
  define d where "d = idt_entry (idt s) v"
  define m where "m = mem (set_desc s v isr ty)"
  have f: "ld16 m d = ucast (isr AND 0xFFFF)" "ld16 m (d + 6) = ucast (drop_bit 16 isr AND 0xFFFF)"
    "ld32 m (d + 8) = ucast (drop_bit 32 isr)" "ld16 m (d + 2) = 0x28"
    by (simp_all add: m_def set_desc_def Let_def gate_writers d_def set_bits_other in_range_def cell_simps
        c16_32.rd_wr_other c32_16.rd_wr_other)
  have w: "\<not> in_range p 2 q \<Longrightarrow> st16 m' p v' q = m' q" "\<not> in_range p 4 q \<Longrightarrow> st32 m' p w' q = m' q" for p q m' v' w'
    by (simp_all add: cell16.wr_outside cell32.wr_outside)
  have three: "bit (3 :: u8) j \<longleftrightarrow> j < 2" for j
    using bit_mask_iff [of 2 j, where 'a = u8] bit_imp_le_length [of "3 :: u8" j] by (auto simp: mask_numeral)
  have b4: "bit (m (d + 4)) k \<longleftrightarrow> 6 \<le> k \<and> bit (mem s (d + 4)) k" for k
    by (auto simp: m_def set_desc_def Let_def gate_writers d_def bit_set_bits w in_range_def)
  have b5: "bit (m (d + 5)) k \<longleftrightarrow> (if k < 4 then bit ty k else 5 \<le> k \<and> k < 8)" for k
  proof -
    have "bit (m (d + 5)) k \<longleftrightarrow> (if k < 4 then bit ty k else if k = 4 then False
        else if k < 7 then bit (3 :: u8) (k - 5) else k = 7)"
      by (auto simp: m_def set_desc_def Let_def gate_writers d_def bit_set_bits w in_range_def bit_simps
          dest: bit_imp_le_length)
    then show ?thesis unfolding three by auto
  qed
  have "get_bits (d + 4) 0 3 m = 0" by (rule bit_word_eqI) (auto simp: bit_get_bits b4)
  moreover have "get_bits (d + 5) 0 4 m = take_bit 4 (ucast ty)" by (rule bit_word_eqI) (auto simp: bit_get_bits b5 bit_simps)
  moreover have "get_bits (d + 5) 5 2 m = mask 2" by (rule bit_word_eqI) (auto simp: bit_get_bits b5 bit_simps)
  moreover have "get_bits (d + 5) 7 1 m = mask 1" by (rule bit_word_eqI) (auto simp: bit_get_bits b5 bit_simps)
  ultimately show ?thesis
    by (simp add: idt_gate_def kernel_gate_def Let_def join_offset mask_numeral flip: d_def m_def add: f)
qed

lemma unat_entry_offset: "unat (16 * ucast v :: u64) = 16 * unat (v :: u8)"
proof -
  have "16 * unat v < 18446744073709551616" using unat_less_8 [of v] by linarith
  then show ?thesis by (simp add: unat_word_ariths)
qed

lemma unat_add_exact: "unat a + unat b < 18446744073709551616 \<Longrightarrow> unat (a + b :: u64) = unat a + unat b"
  by (simp add: unat_word_ariths)

lemma idt_offset:
  assumes "in_range (idt_entry t v) 16 x"
  shows "unat (x - t) = 16 * unat v + unat (x - idt_entry t v)" "unat (x - idt_entry t v) < 16"
proof -
  show 1: "unat (x - idt_entry t v) < 16" using assms by (simp add: in_range_def word_less_nat_alt)
  have e: "x - t = 16 * ucast v + (x - idt_entry t v)" by (simp add: idt_entry_def)
  have "unat (16 * ucast v :: u64) + unat (x - idt_entry t v) < 18446744073709551616"
    using 1 unat_less_8 [of v] unat_entry_offset [of v] by linarith
  then show "unat (x - t) = 16 * unat v + unat (x - idt_entry t v)"
    by (simp only: e unat_add_exact unat_entry_offset)
qed

lemma entries_distinct:
  assumes "v \<noteq> w" "in_range (idt_entry t v) 16 x"
  shows "\<not> in_range (idt_entry t w) 16 x"
proof
  assume w: "in_range (idt_entry t w) 16 x"
  have "unat v = unat w" using idt_offset [OF assms(2)] idt_offset [OF w] block_index_inj(1) by metis
  then show False using assms(1) by (simp add: word_unat_eq_iff)
qed

lemma idt_gate_cong:
  assumes "\<And>x. in_range (idt_entry t v) 16 x \<Longrightarrow> m x = m' x"
  shows "idt_gate m t v = idt_gate m' t v"
proof -
  define d where "d = idt_entry t v"
  have i: "in_range d 16 x" if "in_range (d + k) n x" "unat k + unat n \<le> 16" for k n x
  proof -
    have "unat (x - (d + k)) < unat n" using that(1) by (simp add: in_range_def word_less_nat_alt)
    moreover have "x - d = (x - (d + k)) + k" by simp
    ultimately have "unat (x - d) < 16" using that(2) by (simp only: unat_word_ariths) simp
    then show ?thesis by (simp add: in_range_def word_less_nat_alt)
  qed
  have 2: "ld16 m (d + k) = ld16 m' (d + k)" if "unat k \<le> 14" for k
    by (rule cell16.rd_cong, rule assms) (use i [of k 2] that in \<open>simp add: d_def\<close>)
  have 4: "ld32 m (d + k) = ld32 m' (d + k)" if "unat k \<le> 12" for k
    by (rule cell32.rd_cong, rule assms) (use i [of k 4] that in \<open>simp add: d_def\<close>)
  have 1: "m (d + k) = m' (d + k)" if "unat k \<le> 15" for k
    by (rule assms) (use i [of k 1 "d + k"] that in \<open>simp add: d_def in_range_def\<close>)
  show ?thesis
    using 2 [of 0] 2 [of 2] 2 [of 6] 4 [of 8] 1 [of 4] 1 [of 5]
    by (simp add: idt_gate_def Let_def get_bits_def ld8_def flip: d_def)
qed

lemma set_desc_other:
  "v \<noteq> w \<Longrightarrow> idt_gate (mem (set_desc s v isr ty)) (idt s) w = idt_gate (mem s) (idt s) w"
  by (rule idt_gate_cong, rule set_desc_outside) (metis entries_distinct)

lemma set_desc_fields [simp]:
  "idt (set_desc s v isr ty) = idt s" "bus (set_desc s v isr ty) = bus s" "ioapic (set_desc s v isr ty) = ioapic s"
  "madt (set_desc s v isr ty) = madt s"
  by (simp_all add: set_desc_def Let_def)

text \<open>Every registration changes one gate of the table.\<close>

lemma set_desc_table:
  "idt_gate (mem (set_desc s v isr ty)) (idt s) w =
    (if w = v then kernel_gate isr (take_bit 4 (ucast ty)) else idt_gate (mem s) (idt s) w)"
  using set_desc_gate set_desc_other by metis

lemma in_table:
  assumes "in_range (idt_entry t v) 16 x"
  shows "in_range t 4096 x"
proof -
  have "unat (x - t) < 4096" using idt_offset [OF assms] unat_less_8 [of v] by linarith
  then show ?thesis by (simp add: in_range_def word_less_nat_alt)
qed

lemma set_desc_off_table: "\<not> in_range (idt s) 4096 x \<Longrightarrow> mem (set_desc s v isr ty) x = mem s x"
  by (rule set_desc_outside) (use in_table in blast)

section \<open>The exceptions\<close>

text \<open>The handlers of the vectors that the code registers: vector 4 gets the handler of vector 5.\<close>

definition exception_handler :: "isr_code \<Rightarrow> u8 \<Rightarrow> u64 option" where
  "exception_handler code v =
     (if v \<in> {0, 1, 3, 5, 6, 8, 10, 11, 12, 13, 14} then Some (at_vec code (unat v))
      else if v = 4 then Some (at_vec code 5) else None)"

definition installed :: "isr_code \<Rightarrow> u8 \<Rightarrow> gate option" where
  "installed code v =
     (if v = 0x20 then Some (kernel_gate (at_irq0_isr code) 0xE)
      else if v = 0x80 then Some (kernel_gate (at_syscall_entry code) 0xE)
      else map_option (\<lambda>h. kernel_gate h 0xF) (exception_handler code v))"

lemma init_exceptions_fields [simp]:
  "idt (init_exceptions code s) = idt s" "bus (init_exceptions code s) = bus s"
  "ioapic (init_exceptions code s) = ioapic s" "madt (init_exceptions code s) = madt s"
  by (simp_all add: init_exceptions_def register_trap_def Let_def)

lemma init_exceptions_off_table: "\<not> in_range (idt s) 4096 x \<Longrightarrow> mem (init_exceptions code s) x = mem s x"
  by (simp add: init_exceptions_def register_trap_def Let_def set_desc_off_table)

lemma init_exceptions_table:
  "idt_gate (mem (init_exceptions code s)) (idt s) w =
    (case exception_handler code w of None \<Rightarrow> idt_gate (mem s) (idt s) w | Some h \<Rightarrow> kernel_gate h 0xF)"
proof -
  have t: "idt_gate (mem (register_trap s v isr)) t w =
      (if w = v then kernel_gate isr 0xF else idt_gate (mem s) t w)" if "idt s = t" for s :: "'a idt_state_scheme" and v isr t
    using that by (auto simp: register_trap_def set_desc_table)
  have i: "idt (register_trap s v isr) = idt s" for s :: "'a idt_state_scheme" and v isr by (simp add: register_trap_def)
  show ?thesis
    unfolding init_exceptions_def Let_def
    by (simp add: t i exception_handler_def)
qed

section \<open>Claims\<close>

text \<open>Before the interrupts are set up: the entries of the MADT are well-formed, end before the end of the
  address space, lie apart from the descriptor table, and wire line 0 to an interrupt within the range
  of the controller.\<close>

definition irq_ready :: "'a idt_state_scheme \<Rightarrow> madt_entry list \<Rightarrow> bool" where
  "irq_ready s es \<longleftrightarrow> entries (mem s) (madt s + sizeof_madt) (madt_end s) es \<and>
     unat (madt s) + 44 \<le> unat (madt_end s) \<and> unat (madt_end s) + 8 < 18446744073709551616 \<and>
     ranges_disjoint (madt s) (madt_end s + 8 - madt s) (idt s) 4096 \<and> wired_to es 0 < 120"

lemma irq_ready_remap:
  assumes "irq_ready s es" "madt s' = madt s" "\<And>x. \<not> in_range (idt s) 4096 x \<Longrightarrow> mem s' x = mem s x"
  shows "acpi_remap_irq s' 0 = Some (ucast (wired_to es 0))"
proof -
  have le: "unat (madt s) + 44 \<le> unat (madt_end s)" "unat (madt_end s) + 8 < 18446744073709551616"
    using assms(1) by (auto simp: irq_ready_def)
  have n: "unat (madt_end s + 8 - madt s) = unat (madt_end s) + 8 - unat (madt s)"
    using le unat_sub_if' [of "madt_end s + 8" "madt s"] by (simp add: unat_word_ariths)
  have same: "mem s' a = mem s a" if "unat (madt s) \<le> unat a" "unat a < unat (madt_end s) + 8" for a
  proof -
    have "in_range (madt s) (madt_end s + 8 - madt s) a"
      using le that by (subst in_range_linear) (auto simp: n)
    then show ?thesis using assms(1,3) ranges_disjointD by (metis irq_ready_def)
  qed
  have "header_length (mem s') (madt s) = header_length (mem s) (madt s)"
    unfolding header_length_def
  proof (rule cell32.rd_cong, rule same)
    fix a assume "in_range (madt s + 4) 4 a"
    moreover have "unat (madt s + 4) = unat (madt s) + 4" using le by (simp add: unat_word_ariths)
    ultimately show "unat (madt s) \<le> unat a" "unat a < unat (madt_end s) + 8"
      using le in_range_linear [of "madt s + 4" 4 a] by simp_all
  qed
  then have e: "madt_end s' = madt_end s" by (simp add: madt_end_def assms(2))
  have "unat (madt s + sizeof_madt) = unat (madt s) + 44" using le by (simp add: unat_word_ariths)
  moreover have "entries (mem s) (madt s + sizeof_madt) (madt_end s) es" using assms(1) unfolding irq_ready_def by blast
  ultimately have "entries (mem s') (madt s + sizeof_madt) (madt_end s) es"
  proof -
    assume u: "unat (madt s + sizeof_madt) = unat (madt s) + 44"
      and es: "entries (mem s) (madt s + sizeof_madt) (madt_end s) es"
    show ?thesis
      by (rule entries_cong [OF es]) (use u le same in linarith | use u le same in simp)+
  qed
  then show ?thesis
    using remap_loop_entries by (simp only: acpi_remap_irq_def e assms(2))
qed

text \<open>C21: Setting up the interrupts gives every vector that the code registers the gate of its handler, in
  the kernel's code segment and callable from user mode, leaves the other gates alone, and programs the
  redirection entry of the global interrupt that line 0 is wired to, and no other, with vector 0x20,
  not masked.  Vector 4, the overflow exception, gets the handler of vector 5.\<close>

theorem intr_init_correct:
  assumes "irq_ready s es"
  shows "\<exists>s'. intr_init code s = Some s' \<and>
    (\<forall>v. idt_gate (mem s') (idt s) v = (case installed code v of None \<Rightarrow> idt_gate (mem s) (idt s) v | Some g \<Rightarrow> g)) \<and>
    (\<forall>d j. j < 120 \<longrightarrow> redirection (ioapic_regs (ioapic s) d (bus s')) j =
       (if j = unat (wired_to es 0) then 0x20 else redirection (ioapic_regs (ioapic s) d (bus s)) j))"
proof -
  define s1 where "s1 = set_desc (init_exceptions code s) 0x20 (at_irq0_isr code) INT_GATE_FLAGS"
  define g where "g = (ucast (ucast (wired_to es 0) :: u16) :: u8)"
  define s2 where "s2 = ioapic_set_entry s1 g 0x20"
  have f: "idt s1 = idt s" "ioapic s1 = ioapic s" "madt s1 = madt s" "bus s1 = bus s" by (simp_all add: s1_def)
  have m1: "mem s1 x = mem s x" if "\<not> in_range (idt s) 4096 x" for x
    using that by (simp add: s1_def set_desc_off_table init_exceptions_off_table)
  have r: "acpi_remap_irq s1 0 = Some (ucast (wired_to es 0))"
    by (rule irq_ready_remap [OF assms f(3) m1])
  have w: "unat (wired_to es 0) < 120" using assms by (simp add: irq_ready_def word_less_nat_alt)
  then have "unat (ucast (wired_to es 0) :: u16) = unat (wired_to es 0)"
    by (simp add: unsigned_ucast_eq take_bit_nat_eq_self)
  then have g: "unat g = unat (wired_to es 0)" using w unfolding g_def by (subst unsigned_ucast_eq) (simp add: take_bit_nat_eq_self)
  have k: "mem s2 = mem s1" "idt s2 = idt s1"
    by (simp_all add: s2_def set_entry_keeps ioapic_set_entry_def ioapic_write_def emit_def)
  have "intr_init code s = Some (register_user_int s2 0x80 (at_syscall_entry code))"
    using r by (simp add: intr_init_def register_irq_def Let_def s2_def g_def flip: s1_def)
  moreover have "idt_gate (mem (register_user_int s2 0x80 (at_syscall_entry code))) (idt s) v =
      (case installed code v of None \<Rightarrow> idt_gate (mem s) (idt s) v | Some g \<Rightarrow> g)" for v
    using set_desc_table [of s2 "0x80" "at_syscall_entry code" IDT_INT_GATE_USER v]
      set_desc_table [of "init_exceptions code s" "0x20" "at_irq0_isr code" INT_GATE_FLAGS v]
    by (auto simp: register_user_int_def k f installed_def init_exceptions_table s1_def split: option.splits)
  moreover have "redirection (ioapic_regs (ioapic s) d (bus (register_user_int s2 0x80 (at_syscall_entry code)))) j =
      (if j = unat (wired_to es 0) then 0x20 else redirection (ioapic_regs (ioapic s) d (bus s)) j)" if "j < 120" for d j
    using set_entry_redirection [of g j s1 d "0x20"] w g that by (simp add: register_user_int_def s2_def f)
  ultimately show ?thesis by blast
qed

text \<open>Vectors 4 and 5 share one handler, and no exception is closed to the \<open>int\<close> instruction of a program.\<close>

lemma overflow_is_bound: "installed code 4 = installed code 5"
  by (simp add: installed_def exception_handler_def)

lemma installed_open:
  "installed code v = Some g \<Longrightarrow> gate_dpl g = 3 \<and> gate_present g = 1 \<and> gate_selector g = 0x28 \<and> gate_type g \<in> {0xE, 0xF}"
  by (auto simp: installed_def exception_handler_def kernel_gate_def split: if_splits)

text \<open>The tables of \<open>acpi_machine\<close>, and a descriptor table at 0x60000.\<close>

definition isr_demo :: isr_code where
  "isr_demo = \<lparr>at_vec = (\<lambda>n. 0xFFFFFFFF80001000 + 0x40 * of_nat n), at_irq0_isr = 0xFFFFFFFF80002000,
     at_syscall_entry = 0xFFFFFFFF80003000\<rparr>"

definition idt_machine :: idt_state where
  "idt_machine = apic_state.extend (acpi_state.extend (acpi_machine\<lparr>madt := 0xE103C\<rparr>) (apic_state.fields 0xFEC00000 0xFEE00000))
     (idt_state.fields 0x60000)"

lemma idt_machine_fields:
  "mem idt_machine = acpi_mem" "madt idt_machine = 0xE103C" "idt idt_machine = 0x60000" "ioapic idt_machine = 0xFEC00000"
  by (simp_all add: idt_machine_def acpi_machine_def fb_state.defs acpi_state.defs apic_state.defs idt_state.defs)

lemma idt_machine_ready: "irq_ready idt_machine [IoApic 0xFEC00000, Override 0 2]"
proof -
  have l: "header_length acpi_mem 0xE103C = 66"
    by (simp add: header_length_def ld32_eq_iff acpi_mem_def acpi_bytes_def)
  then have e: "madt_end idt_machine = 0xE107E" by (simp add: madt_end_def idt_machine_fields)
  have "rsdp_rsdtaddr acpi_mem 0xE1000 = 0xE1014"
    by (simp add: rsdp_rsdtaddr_def ld32_eq_iff acpi_mem_def acpi_bytes_def)
  then have "entries acpi_mem 0xE1068 0xE107E [IoApic 0xFEC00000, Override 0 2]"
    using acpi_machine_tables l by (simp add: acpi_tables_def acpi_machine_fields)
  then show ?thesis unfolding irq_ready_def e by (simp add: idt_machine_fields ranges_disjoint_def)
qed

theorem intr_init_correct_witness:
  "\<exists>s'. intr_init isr_demo idt_machine = Some s' \<and>
    idt_gate (mem s') 0x60000 0x80 = kernel_gate 0xFFFFFFFF80003000 0xE \<and>
    idt_gate (mem s') 0x60000 4 = kernel_gate 0xFFFFFFFF80001140 0xF \<and>
    redirection (ioapic_regs 0xFEC00000 (\<lambda>_. 0) (bus s')) 2 = 0x20"
proof -
  have "installed isr_demo 0x80 = Some (kernel_gate 0xFFFFFFFF80003000 0xE)"
    "installed isr_demo 4 = Some (kernel_gate 0xFFFFFFFF80001140 0xF)"
    by (simp_all add: installed_def exception_handler_def isr_demo_def)
  then show ?thesis
    using intr_init_correct [OF idt_machine_ready, of isr_demo] by (fastforce simp: idt_machine_fields)
qed

end
