(* ===== verification/Tss.thy ===== *)
theory Tss
  imports Idt
begin

text \<open>
  \<open>sys/src/arch/x86/gdt.c\<close> and \<open>sys/src/proc/tss.c\<close>: the global descriptor table and the task state
  segment, in which the processor finds the kernel stack when a program is interrupted.

  \<open>gdt\<close> is the address of the table, \<open>gdtr\<close> the processor's register, \<open>tss\<close> the static pointer of
  \<open>tss.c\<close> and \<open>task_register\<close> the selector that \<open>load_tss\<close> (assembly, \<open>sys/src/proc/tss.asm\<close>) loads.
  \<open>segment\<close>, \<open>tss_segment\<close> and \<open>rsp0\<close> are what the processor reads.
\<close>

section \<open>The global descriptor table\<close>

record GDTDesc =
  gd_limit :: u16
  gd_base_low :: u16
  gd_base_mid :: u8
  gd_access :: u8
  gd_granularity :: u8
  gd_base_hi :: u8

record tss_state = idt_state +
  gdt :: u64
  gdtr :: "u16 \<times> u64"
  tss :: u64

abbreviation KERNEL_CODE :: u16 where "KERNEL_CODE \<equiv> 0x28"
abbreviation KERNEL_DATA :: u16 where "KERNEL_DATA \<equiv> 0x30"
abbreviation GDT_TSS :: u64 where "GDT_TSS \<equiv> 0x9"

definition gdt_entry :: "u16 \<Rightarrow> u8 \<Rightarrow> u8 \<Rightarrow> GDTDesc" where
  "gdt_entry lim access gran = \<lparr>gd_limit = lim, gd_base_low = 0, gd_base_mid = 0, gd_access = access,
     gd_granularity = gran, gd_base_hi = 0\<rparr>"

definition gdt_table :: "GDTDesc list" where
  "gdt_table = [
     gdt_entry 0 0 0,
     gdt_entry 0xFFFF 0b10011010 0b00000000,
     gdt_entry 0xFFFF 0b10010010 0b00000000,
     gdt_entry 0xFFFF 0b10011010 0b11001111,
     gdt_entry 0xFFFF 0b10010010 0b11001111,
     gdt_entry 0x0000 0b10011010 0b00100000,
     gdt_entry 0x0000 0b10010010 0b00000000,
     gdt_entry 0x0000 0b11111010 0b10101111,
     gdt_entry 0x0000 0b11110010 0b00000000,
     gdt_entry 0 0 0, gdt_entry 0 0 0, gdt_entry 0 0 0]"

definition desc_bytes :: "GDTDesc \<Rightarrow> u8 list" where
  "desc_bytes d = [ucast (gd_limit d), ucast (drop_bit 8 (gd_limit d)), ucast (gd_base_low d),
     ucast (drop_bit 8 (gd_base_low d)), gd_base_mid d, gd_access d, gd_granularity d, gd_base_hi d]"

definition gdt_tss :: "'a tss_state_scheme \<Rightarrow> u64" where
  "gdt_tss s = gdt s + 8 * GDT_TSS"

definition load_gdt :: "'a tss_state_scheme \<Rightarrow> 'a tss_state_scheme" where
  "load_gdt s = s\<lparr>gdtr := (of_nat (8 * length gdt_table) - 1, gdt s)\<rparr>"

section \<open>The task state segment\<close>

abbreviation sizeof_TSSEntry :: u64 where "sizeof_TSSEntry \<equiv> 104"

definition set_rsp0Low :: "u64 \<Rightarrow> u32 \<Rightarrow> memory \<Rightarrow> memory" where "set_rsp0Low t v m = st32 m (t + 4) v"
definition set_rsp0High :: "u64 \<Rightarrow> u32 \<Rightarrow> memory \<Rightarrow> memory" where "set_rsp0High t v m = st32 m (t + 8) v"

definition set_seglimit :: "u64 \<Rightarrow> u16 \<Rightarrow> memory \<Rightarrow> memory" where "set_seglimit d v m = st16 m d v"
definition set_baseAddrLow :: "u64 \<Rightarrow> u16 \<Rightarrow> memory \<Rightarrow> memory" where "set_baseAddrLow d v m = st16 m (d + 2) v"
definition set_baseAddrMiddle :: "u64 \<Rightarrow> u8 \<Rightarrow> memory \<Rightarrow> memory" where "set_baseAddrMiddle d v m = st8 m (d + 4) v"
definition set_tss_type :: "u64 \<Rightarrow> u8 \<Rightarrow> memory \<Rightarrow> memory" where "set_tss_type d v = set_bits (d + 5) 0 4 v"
definition set_tss_zero :: "u64 \<Rightarrow> u8 \<Rightarrow> memory \<Rightarrow> memory" where "set_tss_zero d v = set_bits (d + 5) 4 1 v"
definition set_tss_dpl :: "u64 \<Rightarrow> u8 \<Rightarrow> memory \<Rightarrow> memory" where "set_tss_dpl d v = set_bits (d + 5) 5 2 v"
definition set_tss_p :: "u64 \<Rightarrow> u8 \<Rightarrow> memory \<Rightarrow> memory" where "set_tss_p d v = set_bits (d + 5) 7 1 v"
definition set_tss_avl :: "u64 \<Rightarrow> u8 \<Rightarrow> memory \<Rightarrow> memory" where "set_tss_avl d v = set_bits (d + 6) 4 1 v"
definition set_tss_g :: "u64 \<Rightarrow> u8 \<Rightarrow> memory \<Rightarrow> memory" where "set_tss_g d v = set_bits (d + 6) 7 1 v"
definition set_baseAddrOtherMiddle :: "u64 \<Rightarrow> u8 \<Rightarrow> memory \<Rightarrow> memory" where
  "set_baseAddrOtherMiddle d v m = st8 m (d + 7) v"
definition set_baseAddrUpper :: "u64 \<Rightarrow> u32 \<Rightarrow> memory \<Rightarrow> memory" where "set_baseAddrUpper d v m = st32 m (d + 8) v"
definition set_tss_reserved :: "u64 \<Rightarrow> u32 \<Rightarrow> memory \<Rightarrow> memory" where "set_tss_reserved d v m = st32 m (d + 12) v"

text \<open>The writes to the descriptor, in the order of the code.\<close>

definition write_descriptor :: "u64 \<Rightarrow> u64 \<Rightarrow> memory \<Rightarrow> memory" where
  "write_descriptor d tss_base m =
     (let m = set_seglimit d (ucast sizeof_TSSEntry) m;
          m = set_tss_g d 0 m;
          m = set_baseAddrLow d (ucast (tss_base AND 0xFFFF)) m;
          m = set_baseAddrMiddle d (ucast (drop_bit 16 tss_base AND 0xFF)) m;
          m = set_baseAddrOtherMiddle d (ucast (drop_bit 24 tss_base AND 0xFF)) m;
          m = set_baseAddrUpper d (ucast (drop_bit 32 tss_base)) m;
          m = set_tss_avl d 0 m;
          m = set_tss_dpl d 0 m;
          m = set_tss_p d 1 m;
          m = set_tss_reserved d 0 m;
          m = set_tss_type d 0x9 m
      in set_tss_zero d 0 m)"

definition write_tss :: "'a tss_state_scheme \<Rightarrow> 'a tss_state_scheme option" where
  "write_tss s = do {
     (p, s) \<leftarrow> kmalloc s sizeof_TSSEntry;
     let s = s\<lparr>tss := p\<rparr>;
     let s = s\<lparr>mem := kmemzero (mem s) (tss s) sizeof_TSSEntry\<rparr>;
     let s = s\<lparr>mem := set_rsp0Low (tss s) 0 (mem s)\<rparr>;
     let s = s\<lparr>mem := set_rsp0High (tss s) 0 (mem s)\<rparr>;
     Some (s\<lparr>mem := write_descriptor (gdt_tss s) (tss s) (mem s)\<rparr>)
   }"

text \<open>From \<open>sys/src/proc/proc.c\<close>: the stack pointer that an interrupt of a program starts with.\<close>

abbreviation KSTACK_SIZE :: u64 where "KSTACK_SIZE \<equiv> 0x1000"

definition KSTACK_START_OFFSET :: "u64 \<Rightarrow> u64" where "KSTACK_START_OFFSET stack_base = stack_base + KSTACK_SIZE div 2"
definition KSTACK_LOW :: "u64 \<Rightarrow> u64" where "KSTACK_LOW stack_base = stack_base AND 0xFFFFFFFF"
definition KSTACK_HIGH :: "u64 \<Rightarrow> u64" where "KSTACK_HIGH stack_base = drop_bit 32 stack_base"

definition update_kernel_stack :: "'a tss_state_scheme \<Rightarrow> u64 \<Rightarrow> 'a tss_state_scheme" where
  "update_kernel_stack s kstack_base =
     (let s = s\<lparr>mem := set_rsp0Low (tss s) (ucast (KSTACK_LOW (KSTACK_START_OFFSET kstack_base))) (mem s)\<rparr>
      in s\<lparr>mem := set_rsp0High (tss s) (ucast (KSTACK_HIGH (KSTACK_START_OFFSET kstack_base))) (mem s)\<rparr>)"

section \<open>What the processor reads\<close>

text \<open>A code or data segment, by selector.\<close>

definition segment_access :: "memory \<Rightarrow> u64 \<Rightarrow> u16 \<Rightarrow> u8" where
  "segment_access m table sel = m (table + ucast (sel AND 0xFFF8) + 5)"

definition gdt_loaded :: "'a tss_state_scheme \<Rightarrow> bool" where
  "gdt_loaded s \<longleftrightarrow> bytes_at (mem s) (gdt s) 96 = concat (map desc_bytes gdt_table)"

record tss_segment =
  ts_base :: u64
  ts_limit :: u32
  ts_type :: u8
  ts_dpl :: u8
  ts_present :: u8
  ts_granular :: u8

definition tss_segment :: "memory \<Rightarrow> u64 \<Rightarrow> tss_segment" where
  "tss_segment m d =
     \<lparr>ts_base = push_bit 32 (ucast (ld32 m (d + 8))) OR push_bit 24 (ucast (ld8 m (d + 7))) OR
        push_bit 16 (ucast (ld8 m (d + 4))) OR ucast (ld16 m (d + 2)),
      ts_limit = push_bit 16 (ucast (get_bits (d + 6) 0 4 m)) OR ucast (ld16 m d),
      ts_type = get_bits (d + 5) 0 4 m, ts_dpl = get_bits (d + 5) 5 2 m, ts_present = get_bits (d + 5) 7 1 m,
      ts_granular = get_bits (d + 6) 7 1 m\<rparr>"

definition rsp0 :: "memory \<Rightarrow> u64 \<Rightarrow> u64" where
  "rsp0 m t = push_bit 32 (ucast (ld32 m (t + 8))) OR ucast (ld32 m (t + 4))"

text \<open>Every selector that the kernel uses names a present descriptor of the right kind: the kernel's code
  and data segments, the two of user mode with privilege level 3, and the entry of the task state segment.\<close>

lemma gdt_selectors:
  assumes "gdt_loaded s"
  shows "segment_access (mem s) (gdt s) KERNEL_CODE = 0b10011010"
    "segment_access (mem s) (gdt s) KERNEL_DATA = 0b10010010"
    "segment_access (mem s) (gdt s) (0x38 OR 3) = 0b11111010"
    "segment_access (mem s) (gdt s) (0x40 OR 3) = 0b11110010"
    "gdt s + ucast ((0x48 OR 3 :: u16) AND 0xFFF8) = gdt_tss s"
proof -
  have b: "mem s (of_nat i + gdt s) = concat (map desc_bytes gdt_table) ! i" if "i < 96" for i
  proof -
    have "bytes_at (mem s) (gdt s) 96 ! i = mem s (of_nat i + gdt s)" using that by (simp add: bytes_at_def add.commute)
    then show ?thesis using assms by (simp only: gdt_loaded_def)
  qed
  show "segment_access (mem s) (gdt s) KERNEL_CODE = 0b10011010"
    "segment_access (mem s) (gdt s) KERNEL_DATA = 0b10010010"
    "segment_access (mem s) (gdt s) (0x38 OR 3) = 0b11111010"
    "segment_access (mem s) (gdt s) (0x40 OR 3) = 0b11110010"
    using b [of 45] b [of 53] b [of 61] b [of 69]
    by (simp_all add: segment_access_def gdt_table_def desc_bytes_def gdt_entry_def)
qed (simp add: gdt_tss_def)

section \<open>Reading back what was written\<close>

lemma join_base:
  "push_bit 32 (ucast (ucast (drop_bit 32 a) :: u32)) OR push_bit 24 (ucast (ucast (drop_bit 24 a AND 0xFF) :: u8)) OR
     push_bit 16 (ucast (ucast (drop_bit 16 a AND 0xFF) :: u8)) OR ucast (ucast (a AND 0xFFFF) :: u16) = (a :: u64)"
proof -
  have m: "b AND 0xFFFF = take_bit 16 b" "b AND 0xFF = take_bit 8 b" for b :: u64
    by (simp_all add: take_bit_eq_mask mask_numeral)
  show ?thesis
    unfolding m
  proof (rule bit_word_eqI)
    fix n assume "n < LENGTH(64)"
    then show "bit (push_bit 32 (ucast (ucast (drop_bit 32 a) :: u32)) OR
        push_bit 24 (ucast (ucast (take_bit 8 (drop_bit 24 a)) :: u8)) OR
        push_bit 16 (ucast (ucast (take_bit 8 (drop_bit 16 a)) :: u8)) OR ucast (ucast (take_bit 16 a) :: u16) :: u64) n = bit a n"
      by (cases "n < 16"; cases "n < 24"; cases "n < 32") (auto simp: bit_simps)
  qed
qed

lemma join_halves:
  "push_bit 32 (ucast (ucast (KSTACK_HIGH a) :: u32)) OR ucast (ucast (KSTACK_LOW a) :: u32) = a"
proof -
  have m: "b AND 0xFFFFFFFF = take_bit 32 b" for b :: u64 by (simp add: take_bit_eq_mask mask_numeral)
  show ?thesis
    unfolding KSTACK_HIGH_def KSTACK_LOW_def m
    by (rule bit_word_eqI) (auto simp: bit_simps)
qed

interpretation c8_16: two_cells ld8 st8 1 ld16 st16 2 by unfold_locales
interpretation c16_8: two_cells ld16 st16 2 ld8 st8 1 by unfold_locales

lemmas descriptor_writers = set_seglimit_def set_baseAddrLow_def set_baseAddrMiddle_def set_tss_type_def set_tss_zero_def
  set_tss_dpl_def set_tss_p_def set_tss_avl_def set_tss_g_def set_baseAddrOtherMiddle_def set_baseAddrUpper_def
  set_tss_reserved_def

lemma set_bits_ld8: "p \<noteq> a \<Longrightarrow> ld8 (set_bits a lo n v m) p = ld8 m p"
  by (simp add: ld8_def set_bits_outside)

text \<open>The descriptor gives back the base; the upper four bits of the limit are those that were there.\<close>

lemma write_descriptor_segment:
  "tss_segment (write_descriptor d b m) d =
     \<lparr>ts_base = b, ts_limit = push_bit 16 (ucast (get_bits (d + 6) 0 4 m)) OR 104, ts_type = 9, ts_dpl = 0, ts_present = 1,
      ts_granular = 0\<rparr>"
proof -
  define m' where "m' = write_descriptor d b m"
  have f: "ld16 m' d = 104" "ld16 m' (d + 2) = ucast (b AND 0xFFFF)" "ld8 m' (d + 4) = ucast (drop_bit 16 b AND 0xFF)"
    "ld8 m' (d + 7) = ucast (drop_bit 24 b AND 0xFF)" "ld32 m' (d + 8) = ucast (drop_bit 32 b)"
    by (simp_all add: m'_def write_descriptor_def Let_def descriptor_writers set_bits_other set_bits_ld8 in_range_def cell_simps
        c16_32.rd_wr_other c32_16.rd_wr_other c8_16.rd_wr_other c16_8.rd_wr_other)
  have w: "\<not> in_range p 2 q \<Longrightarrow> st16 n p v' q = n q" "\<not> in_range p 4 q \<Longrightarrow> st32 n p w' q = n q"
    "p \<noteq> q \<Longrightarrow> st8 n p u' q = n q" for p q n v' w' u'
    by (simp_all add: cell16.wr_outside cell32.wr_outside st8_def)
  have nine: "bit (9 :: int) j \<longleftrightarrow> j = 0 \<or> j = 3" for j
    by (auto simp: bit_numeral_rec bit_1_iff split: nat.splits)
  have b5: "bit (m' (d + 5)) k \<longleftrightarrow> (if k < 4 then bit (9 :: u8) k else k = 7)" for k
    by (auto simp: m'_def write_descriptor_def Let_def descriptor_writers bit_set_bits w in_range_def
        dest: bit_imp_le_length)
  have b6: "bit (m' (d + 6)) k \<longleftrightarrow> k \<noteq> 4 \<and> k \<noteq> 7 \<and> bit (m (d + 6)) k" for k
    by (auto simp: m'_def write_descriptor_def Let_def descriptor_writers bit_set_bits w in_range_def)
  have "get_bits (d + 5) 0 4 m' = 9" by (rule bit_word_eqI) (auto simp: bit_get_bits b5 nine)
  moreover have "get_bits (d + 5) 5 2 m' = 0" by (rule bit_word_eqI) (auto simp: bit_get_bits b5)
  moreover have "get_bits (d + 5) 7 1 m' = 1" by (rule bit_word_eqI) (auto simp: bit_get_bits b5 bit_1_iff)
  moreover have "get_bits (d + 6) 7 1 m' = 0" by (rule bit_word_eqI) (auto simp: bit_get_bits b6)
  moreover have "get_bits (d + 6) 0 4 m' = get_bits (d + 6) 0 4 m" by (rule bit_word_eqI) (auto simp: bit_get_bits b6)
  ultimately show ?thesis
    unfolding tss_segment_def m'_def [symmetric] f by (simp add: join_base)
qed

lemma write_descriptor_outside:
  assumes "\<not> in_range d 16 x"
  shows "write_descriptor d b m x = m x"
proof -
  have n: "\<not> in_range (d + k) n x" if "unat k + unat n \<le> 16" for k n
    using assms in_range_field [of d k n x 16] that by auto
  have e: "x \<noteq> d + k" if "unat k < 16" for k
    using n [of k 1] that by (auto simp: in_range_def)
  show ?thesis
    using n [of 0 2] n [of 2 2] n [of 8 4] n [of 12 4] e [of 4] e [of 5] e [of 6] e [of 7]
    by (simp add: write_descriptor_def Let_def descriptor_writers set_bits_outside cell16.wr_outside cell32.wr_outside
        st8_def)
qed

lemma update_kernel_stack_rsp0: "rsp0 (mem (update_kernel_stack s k)) (tss s) = k + 0x800"
proof -
  have "ld32 (mem (update_kernel_stack s k)) (tss s + 4) = ucast (KSTACK_LOW (KSTACK_START_OFFSET k))"
    "ld32 (mem (update_kernel_stack s k)) (tss s + 8) = ucast (KSTACK_HIGH (KSTACK_START_OFFSET k))"
    by (simp_all add: update_kernel_stack_def Let_def set_rsp0Low_def set_rsp0High_def cell_simps)
  then show ?thesis by (simp only: rsp0_def join_halves) (simp add: KSTACK_START_OFFSET_def)
qed

lemma update_kernel_stack_outside:
  assumes "\<not> in_range (tss s) 104 x"
  shows "mem (update_kernel_stack s k) x = mem s x"
proof -
  have "\<not> in_range (tss s + 4) 4 x" "\<not> in_range (tss s + 8) 4 x"
    using assms in_range_field [of "tss s" 4 4 x 104] in_range_field [of "tss s" 8 4 x 104] by auto
  then show ?thesis
    by (simp add: update_kernel_stack_def Let_def set_rsp0Low_def set_rsp0High_def cell32.wr_outside)
qed

lemma st32_zero: "st32 m a 0 = m(a := 0, a + 1 := 0, a + 2 := 0, a + 3 := 0)"
  by (simp add: st32_def eval_nat_numeral add.assoc)

section \<open>Claims\<close>

text \<open>The table of descriptors is static data of the kernel, outside the heap.\<close>

definition gdt_off_heap :: "'a tss_state_scheme \<Rightarrow> u64 \<Rightarrow> bool" where
  "gdt_off_heap s base \<longleftrightarrow> (\<forall>x. in_range (gdt s) 96 x \<longrightarrow> \<not> heap_area base x)"

text \<open>The high half of the limit is zero from the start.\<close>

lemma gdt_tss_nibble:
  assumes "gdt_loaded s"
  shows "get_bits (gdt_tss s + 6) 0 4 (mem s) = 0"
proof -
  have "bytes_at (mem s) (gdt s) 96 ! 78 = mem s (of_nat 78 + gdt s)" by (simp add: bytes_at_def add.commute)
  moreover have "bytes_at (mem s) (gdt s) 96 ! 78 = 0"
    using assms by (simp only: gdt_loaded_def) (simp add: gdt_table_def desc_bytes_def gdt_entry_def)
  ultimately have "mem s (of_nat 78 + gdt s) = 0" by metis
  then show ?thesis by (simp add: get_bits_def ld8_def gdt_tss_def add.commute)
qed

lemma descriptor_keeps_heap:
  assumes "heap_inv s base ((p - 24, sizeof_TSSEntry) # bs)" "p = DATA_START (p - 24)"
    "\<And>x. m x \<noteq> mem s x \<Longrightarrow> in_range p sizeof_TSSEntry x" "\<And>x. in_range d 16 x \<Longrightarrow> \<not> heap_area base x"
  shows "heap_inv (s\<lparr>mem := write_descriptor d p m\<rparr>) base ((p - 24, sizeof_TSSEntry) # bs)"
proof (rule heap_data_write [OF assms(1)])
  fix x assume x: "write_descriptor d p m x \<noteq> mem s x"
  show "(\<exists>b k. (b, k) \<in> set ((p - 24, sizeof_TSSEntry) # bs) \<and> in_range (DATA_START b) k x) \<or> \<not> heap_area base x"
  proof (cases "in_range d 16 x")
    case True
    then show ?thesis using assms(4) by blast
  next
    case False
    then have "in_range p sizeof_TSSEntry x" using x assms(3) by (simp add: write_descriptor_outside)
    then show ?thesis using assms(2) by (metis list.set_intros(1))
  qed
qed


text \<open>C37: The descriptor that \<open>write_tss\<close> spreads over the fields of the table gives the processor back the
  address of the new segment, a block of the heap that is all zero, as an available 64-bit task state
  segment; the heap stays well formed and nothing else outside it changes.  The limit it declares is
  the size and not the last offset.\<close>

theorem write_tss_correct:
  assumes "heap_inv s base bs" "unat (bytes_allocated s) + 104 \<le> unat (heap_size s)" "gdt_loaded s" "gdt_off_heap s base"
  shows "\<exists>s'. write_tss s = Some s' \<and> heap_inv s' base ((tss s' - 24, sizeof_TSSEntry) # bs) \<and>
    tss_segment (mem s') (gdt_tss s) =
      \<lparr>ts_base = tss s', ts_limit = 104, ts_type = 9, ts_dpl = 0, ts_present = 1, ts_granular = 0\<rparr> \<and>
    (\<forall>x. in_range (tss s') sizeof_TSSEntry x \<longrightarrow> mem s' x = 0) \<and>
    (\<forall>x. \<not> heap_area base x \<and> \<not> in_range (gdt_tss s) 16 x \<longrightarrow> mem s' x = mem s x)"
proof -
  obtain p s1 where k: "kmalloc s 104 = Some (p, s1)" and f: "fresh_block s s1 base bs p 104"
    by (rule kmalloc_fresh [OF assms(1), of 104]) (use assms(2) in auto)
  note D = fresh_blockD [OF f]
  have g: "gdt s1 = gdt s" using arg_cong [OF D(8), of gdt] by simp
  define m where "m = set_rsp0High p 0 (set_rsp0Low p 0 (kmemzero (mem s1) p sizeof_TSSEntry))"
  define s' where "s' = s1\<lparr>tss := p, mem := write_descriptor (gdt_tss s) p m\<rparr>"
  have w: "write_tss s = Some s'"
    by (simp add: write_tss_def k s'_def m_def gdt_tss_def g)
  have m: "m x = (if in_range p 104 x then 0 else mem s1 x)" for x
    by (auto simp: m_def set_rsp0Low_def set_rsp0High_def st32_zero kmemzero_closed in_range_def)
  have d: "\<not> heap_area base x" if "in_range (gdt_tss s) 16 x" for x
    using assms(4) in_range_field [of "gdt s" 72 16 x 96] that by (simp add: gdt_off_heap_def gdt_tss_def)
  have "heap_inv (s1\<lparr>mem := write_descriptor (gdt_tss s) p m\<rparr>) base ((p - 24, sizeof_TSSEntry) # bs)"
    by (rule descriptor_keeps_heap [OF D(1,2)]) (use m d in \<open>auto split: if_splits\<close>)
  moreover have "heap_inv s' base cs = heap_inv (s1\<lparr>mem := write_descriptor (gdt_tss s) p m\<rparr>) base cs" for cs
    by (simp add: s'_def heap_inv_def)
  moreover have "tss s' = p" by (simp add: s'_def)
  ultimately have inv: "heap_inv s' base ((tss s' - 24, sizeof_TSSEntry) # bs)" by (simp only:)
  have "\<not> heap_area base (gdt_tss s + 6)" by (rule d) (simp add: in_range_def)
  then have "m (gdt_tss s + 6) = mem s (gdt_tss s + 6)" using D(6,7) m by auto
  then have nib: "get_bits (gdt_tss s + 6) 0 4 m = 0" using gdt_tss_nibble [OF assms(3)] by (simp add: get_bits_def ld8_def)
  have seg: "tss_segment (mem s') (gdt_tss s) =
      \<lparr>ts_base = tss s', ts_limit = 104, ts_type = 9, ts_dpl = 0, ts_present = 1, ts_granular = 0\<rparr>"
    by (simp add: s'_def write_descriptor_segment nib)
  have out: "write_descriptor (gdt_tss s) p m x = m x" if "in_range p 104 x \<or> \<not> in_range (gdt_tss s) 16 x" for x
    using that write_descriptor_outside d D(7) by blast
  have "mem s' x = 0" if "in_range (tss s') sizeof_TSSEntry x" for x
    using that out m by (simp add: s'_def)
  moreover have "mem s' x = mem s x" if "\<not> heap_area base x" "\<not> in_range (gdt_tss s) 16 x" for x
  proof -
    have "\<not> in_range p 104 x" using D(7) that(1) by blast
    then show ?thesis using out that m D(6) by (simp add: s'_def)
  qed
  ultimately show ?thesis using w inv seg by blast
qed

text \<open>A small heap at 0x10000 and the descriptor table of the kernel image.\<close>

definition gdt_mem :: memory where
  "gdt_mem a = (let i = unat (a - 0xFFFFFFFF80004000) in if i < 96 then concat (map desc_bytes gdt_table) ! i
     else st32 (\<lambda>_. 0) 0x10000 MAGIC a)"

definition gdt_machine :: tss_state where
  "gdt_machine = idt_state.extend (idt_machine\<lparr>mem := gdt_mem, heap_head := 0x10000, heap_tail := 0x10000,
     heap_size := 0x1000, bytes_allocated := 0\<rparr>) (tss_state.fields 0xFFFFFFFF80004000 (0, 0) 0)"

lemma gdt_machine_fields:
  "mem gdt_machine = gdt_mem" "gdt gdt_machine = 0xFFFFFFFF80004000" "heap_head gdt_machine = 0x10000"
  "heap_tail gdt_machine = 0x10000" "heap_size gdt_machine = 0x1000" "bytes_allocated gdt_machine = 0"
  by (simp_all add: gdt_machine_def idt_state.defs tss_state.defs)

lemma gdt_machine_heap: "heap_inv gdt_machine 0x10000 [(0x10000, 0)]"
proof -
  have same: "gdt_mem x = mem small_heap x" if "in_range 0x10000 24 x" for x
  proof -
    have "unat x < 0x10018" "0x10000 \<le> unat x" using that by (subst (asm) in_range_linear; simp)+
    then have "\<not> unat (x - 0xFFFFFFFF80004000) < 96" by (simp add: unat_sub_if')
    then show ?thesis by (simp add: gdt_mem_def Let_def small_heap_def)
  qed
  have "block_at gdt_mem 0x10000 0 0 = block_at (mem small_heap) 0x10000 0 0"
    by (rule block_at_cong) (use same in simp)
  then have "chain gdt_mem [(0x10000, 0)] 0" using small_heap_inv by (simp add: heap_inv_def)
  then show ?thesis by (simp add: heap_inv_def gdt_machine_fields)
qed

lemma gdt_machine_loaded: "gdt_loaded gdt_machine"
proof -
  have "length (concat (map desc_bytes gdt_table)) = 96" by (simp add: gdt_table_def desc_bytes_def)
  moreover have "bytes_at gdt_mem 0xFFFFFFFF80004000 96 = map ((!) (concat (map desc_bytes gdt_table))) [0..<96]"
    by (simp add: bytes_at_def gdt_mem_def unat_of_nat)
  ultimately show ?thesis
    by (simp only: gdt_loaded_def gdt_machine_fields) (metis map_nth)
qed


theorem write_tss_correct_witness:
  "\<exists>s'. write_tss gdt_machine = Some s' \<and> ts_base (tss_segment (mem s') (gdt_tss gdt_machine)) = tss s'"
proof -
  have "gdt_off_heap gdt_machine 0x10000"
    unfolding gdt_off_heap_def
  proof (intro allI impI)
    fix x assume "in_range (gdt gdt_machine) 96 x"
    then have "0xFFFFFFFF80004000 \<le> unat x" by (subst (asm) in_range_linear) (simp_all add: gdt_machine_fields)
    then show "\<not> heap_area 0x10000 x" by (simp add: heap_area_def)
  qed
  then show ?thesis
    using write_tss_correct [OF gdt_machine_heap _ gdt_machine_loaded] by (force simp: gdt_machine_fields)
qed

end
