(* ===== verification/Proc.thy ===== *)
theory Proc
  imports Tss Elf
begin

text \<open>
  \<open>sys/src/proc/proc.c\<close>: processes, the round-robin scheduler that the timer interrupt calls, and the
  two ways of starting a program.

  A process is a record in the kernel heap; \<open>process_queue_head\<close> is its last element and
  \<open>process_queue_base\<close> its first.  The trap frame of an interrupted program lies on the kernel stack;
  the registers of a program are its 152 bytes.  \<open>enter_ring3\<close> (assembly, \<open>sys/src/proc/ring3.asm\<close>)
  leaves the kernel: a function that ends with it has the address and the stack that the program
  starts with as its result.  The addresses of string literals are parameters.
\<close>

section \<open>State and operations\<close>

record proc_state = tss_state +
  next_pid :: u64
  process_queue_head :: u64
  process_queue_base :: u64
  running_process :: u64

abbreviation PROC_U_STACK_START :: u64 where "PROC_U_STACK_START \<equiv> 0x1000"
abbreviation sizeof_process :: u64 where "sizeof_process \<equiv> 248"
abbreviation sizeof_trapframe :: u64 where "sizeof_trapframe \<equiv> 152"

definition p_tf :: "u64 \<Rightarrow> u64" where "p_tf p = p + 8"
definition p_pid :: "memory \<Rightarrow> u64 \<Rightarrow> u16" where "p_pid m p = ld16 m p"
definition p_cr3 :: "memory \<Rightarrow> u64 \<Rightarrow> u64" where "p_cr3 m p = ld64 m (p + 160)"
definition p_ustack_base :: "memory \<Rightarrow> u64 \<Rightarrow> u64" where "p_ustack_base m p = ld64 m (p + 168)"
definition p_ustack_phys :: "memory \<Rightarrow> u64 \<Rightarrow> u64" where "p_ustack_phys m p = ld64 m (p + 176)"
definition p_kstack :: "memory \<Rightarrow> u64 \<Rightarrow> u64" where "p_kstack m p = ld64 m (p + 184)"
definition p_img :: "memory \<Rightarrow> u64 \<Rightarrow> program_image" where
  "p_img m p = \<lparr>phdrs = ld64 m (p + 192), elf_ptr = ld64 m (p + 200), prog_start = ld64 m (p + 208), prog_end = ld64 m (p + 216)\<rparr>"
definition p_next :: "memory \<Rightarrow> u64 \<Rightarrow> u64" where "p_next m p = ld64 m (p + 240)"

definition set_pid :: "u64 \<Rightarrow> u16 \<Rightarrow> memory \<Rightarrow> memory" where "set_pid p v m = st16 m p v"
definition set_cr3 :: "u64 \<Rightarrow> u64 \<Rightarrow> memory \<Rightarrow> memory" where "set_cr3 p v m = st64 m (p + 160) v"
definition set_ustack_base :: "u64 \<Rightarrow> u64 \<Rightarrow> memory \<Rightarrow> memory" where "set_ustack_base p v m = st64 m (p + 168) v"
definition set_ustack_phys :: "u64 \<Rightarrow> u64 \<Rightarrow> memory \<Rightarrow> memory" where "set_ustack_phys p v m = st64 m (p + 176) v"
definition set_kstack :: "u64 \<Rightarrow> u64 \<Rightarrow> memory \<Rightarrow> memory" where "set_kstack p v m = st64 m (p + 184) v"
definition set_img :: "u64 \<Rightarrow> program_image \<Rightarrow> memory \<Rightarrow> memory" where
  "set_img p i m = st64 (st64 (st64 (st64 m (p + 192) (phdrs i)) (p + 200) (elf_ptr i)) (p + 208) (prog_start i)) (p + 216) (prog_end i)"
definition set_port :: "u64 \<Rightarrow> u64 \<Rightarrow> u64 \<Rightarrow> memory \<Rightarrow> memory" where "set_port p i v m = st64 m (p + 224 + 8 * i) v"
definition set_p_next :: "u64 \<Rightarrow> u64 \<Rightarrow> memory \<Rightarrow> memory" where "set_p_next p v m = st64 m (p + 240) v"

definition fork_pml4 :: "'a proc_state_scheme \<Rightarrow> u64 \<Rightarrow> 'a proc_state_scheme" where
  "fork_pml4 s frame = s\<lparr>mem := kmemcpy (mem s) (frame + hhdm s) (root_pagemap s) 0x1000\<rparr>"

text \<open>The queue: the first process also becomes the running one.\<close>

definition enqueue :: "'a proc_state_scheme \<Rightarrow> u64 \<Rightarrow> 'a proc_state_scheme" where
  "enqueue s new_proc =
     (if process_queue_base s = 0 then
        s\<lparr>process_queue_base := new_proc, process_queue_head := new_proc, running_process := new_proc\<rparr>
      else
        let s = s\<lparr>mem := set_p_next (process_queue_head s) new_proc (mem s)\<rparr>
        in s\<lparr>process_queue_head := p_next (mem s) (process_queue_head s)\<rparr>)"

definition make_process :: "'a proc_state_scheme \<Rightarrow> 'a proc_state_scheme option" where
  "make_process s = do {
     (new_proc, s) \<leftarrow> kmalloc s sizeof_process;
     let s = s\<lparr>mem := set_pid new_proc (ucast (next_pid s)) (mem s), next_pid := next_pid s + 1\<rparr>;
     let (pml4, s) = vmm_make_pml4 s;
     let s = s\<lparr>mem := set_cr3 new_proc pml4 (mem s)\<rparr>;
     let s = s\<lparr>mem := set_ustack_base new_proc PROC_U_STACK_START (mem s)\<rparr>;
     let (phys, s) = pmm_alloc_frame s;
     let s = s\<lparr>mem := set_ustack_phys new_proc phys (mem s)\<rparr>;
     let s = vmm_map_page s (p_cr3 (mem s) new_proc) (p_ustack_phys (mem s) new_proc) (p_ustack_base (mem s) new_proc)
                (PTE_PRESENT OR PTE_WRITABLE OR PTE_USER);
     (kstack, s) \<leftarrow> kmalloc s 0x1000;
     let s = s\<lparr>mem := set_kstack new_proc kstack (mem s)\<rparr>;
     Some (enqueue s new_proc)
   }"

text \<open>The switch: save the registers of the running process, go to the next one in the queue, or to the
  first after the last, load its registers, its kernel stack and its address space.\<close>

definition next_process :: "'a proc_state_scheme \<Rightarrow> u64" where
  "next_process s = (let n = p_next (mem s) (running_process s) in if n \<noteq> 0 then n else process_queue_base s)"

definition task_sched :: "'a proc_state_scheme \<Rightarrow> u64 \<Rightarrow> 'a proc_state_scheme" where
  "task_sched s tf =
     (let s = s\<lparr>mem := kmemcpy (mem s) (p_tf (running_process s)) tf sizeof_trapframe\<rparr>;
          s = s\<lparr>running_process := next_process s\<rparr>;
          s = s\<lparr>mem := kmemcpy (mem s) tf (p_tf (running_process s)) sizeof_trapframe\<rparr>;
          s = update_kernel_stack s (p_kstack (mem s) (running_process s))
      in s\<lparr>cr3 := p_cr3 (mem s) (running_process s)\<rparr>)"

text \<open>\<open>elf_load\<close> works on the image that the process record holds.\<close>

definition load_image ::
    "'a proc_state_scheme \<Rightarrow> u64 \<Rightarrow> u64 \<Rightarrow> u64 \<Rightarrow> (u64 \<times> 'a proc_state_scheme) option" where
  "load_image s initrd_lit path p = do {
     (rip, img, s) \<leftarrow> elf_load s initrd_lit path (p_img (mem s) p);
     Some (rip, s\<lparr>mem := set_img p img (mem s)\<rparr>)
   }"

definition launch_exec ::
    "u64 \<Rightarrow> 'a proc_state_scheme \<Rightarrow> u64 \<Rightarrow> (u64 \<times> u64 \<times> 'a proc_state_scheme) option" where
  "launch_exec initrd_lit s path = do {
     s \<leftarrow> make_process s;
     (rip, s) \<leftarrow> load_image s initrd_lit path (process_queue_head s);
     let s = update_kernel_stack s (p_kstack (mem s) (process_queue_head s));
     let s = s\<lparr>cr3 := p_cr3 (mem s) (process_queue_head s)\<rparr>;
     let rsp = PROC_U_STACK_START + 0x1000 div 2;
     let s = s\<lparr>running_process := process_queue_head s\<rparr>;
     Some (rip, rsp, s)
   }"

definition proc_init ::
    "u64 \<Rightarrow> u64 \<Rightarrow> 'a proc_state_scheme \<Rightarrow> (u64 \<times> u64 \<times> 'a proc_state_scheme) option" where
  "proc_init initrd_lit initd_lit s = do {
     s \<leftarrow> make_process s;
     (rip, s) \<leftarrow> load_image s initrd_lit initd_lit (process_queue_base s);
     if rip = 0 then None
     else do {
       let s = update_kernel_stack s (p_kstack (mem s) (process_queue_base s));
       let s = s\<lparr>cr3 := p_cr3 (mem s) (process_queue_base s)\<rparr>;
       let rsp = PROC_U_STACK_START + 0x1000 div 2;
       Some (rip, rsp, s)
     }
   }"

section \<open>A round-robin scheduler\<close>

text \<open>What happens between two interrupts of the timer, and the interrupts themselves: \<open>other\<close> relates two
  states between which programs and the rest of the kernel run, \<open>tick\<close> is the interrupt with its trap
  frame, allowed when \<open>fit\<close> holds.  The number counts the interrupts.\<close>

inductive runs :: "('s \<Rightarrow> 'f \<Rightarrow> 's) \<Rightarrow> ('s \<Rightarrow> 'f \<Rightarrow> bool) \<Rightarrow> ('s \<Rightarrow> 's \<Rightarrow> bool) \<Rightarrow> nat \<Rightarrow> 's \<Rightarrow> 's \<Rightarrow> bool"
  for tick :: "'s \<Rightarrow> 'f \<Rightarrow> 's" and fit :: "'s \<Rightarrow> 'f \<Rightarrow> bool" and other :: "'s \<Rightarrow> 's \<Rightarrow> bool"
where
  stay: "runs tick fit other 0 s s"
| work: "runs tick fit other k s t \<Longrightarrow> other t u \<Longrightarrow> runs tick fit other k s u"
| timer: "runs tick fit other k s t \<Longrightarrow> fit t f \<Longrightarrow> runs tick fit other (Suc k) s (tick t f)"

inductive_cases runs_zeroE: "runs tick fit other 0 s t"

text \<open>The contract of a scheduler of \<open>n\<close> processes: \<open>cur\<close> is the position of the running one and \<open>saved\<close>
  what is kept of each.\<close>

lemma turn_iff:
  fixes c n j :: nat
  assumes "c < n"
  shows "(c + j) mod n = c \<longleftrightarrow> j mod n = 0"
proof -
  have r: "j mod n < n" using assms by simp
  have "(c + j) mod n = (c + j mod n) mod n" by (simp add: mod_simps)
  also have "\<dots> = c \<longleftrightarrow> j mod n = 0"
  proof (cases "c + j mod n < n")
    case True
    then show ?thesis by simp
  next
    case False
    then have "(c + j mod n) mod n = c + j mod n - n"
      using le_mod_geq [of n "c + j mod n"] mod_less [of "c + j mod n - n" n] assms r by linarith
    then show ?thesis using False assms r by linarith
  qed
  finally show ?thesis .
qed

locale round_robin =
  fixes n :: nat and ok :: "'s \<Rightarrow> bool" and cur :: "'s \<Rightarrow> nat" and saved :: "'s \<Rightarrow> nat \<Rightarrow> 'r"
    and live :: "'s \<Rightarrow> 'f \<Rightarrow> 'r" and tick :: "'s \<Rightarrow> 'f \<Rightarrow> 's" and fit :: "'s \<Rightarrow> 'f \<Rightarrow> bool"
    and other :: "'s \<Rightarrow> 's \<Rightarrow> bool"
  assumes cur_bound: "ok s \<Longrightarrow> cur s < n"
    and ok_tick: "ok s \<Longrightarrow> fit s f \<Longrightarrow> ok (tick s f)"
    and cur_tick: "ok s \<Longrightarrow> fit s f \<Longrightarrow> cur (tick s f) = (cur s + 1) mod n"
    and save_tick: "ok s \<Longrightarrow> fit s f \<Longrightarrow> saved (tick s f) (cur s) = live s f"
    and keep_tick: "ok s \<Longrightarrow> fit s f \<Longrightarrow> i < n \<Longrightarrow> i \<noteq> cur s \<Longrightarrow> saved (tick s f) i = saved s i"
    and load_tick: "ok s \<Longrightarrow> fit s f \<Longrightarrow> live (tick s f) f = saved (tick s f) ((cur s + 1) mod n)"
    and ok_other: "ok s \<Longrightarrow> other s t \<Longrightarrow> ok t"
    and cur_other: "ok s \<Longrightarrow> other s t \<Longrightarrow> cur t = cur s"
    and saved_other: "ok s \<Longrightarrow> other s t \<Longrightarrow> i < n \<Longrightarrow> saved t i = saved s i"
begin

lemma runs_cur:
  "runs tick fit other k s t \<Longrightarrow> ok s \<Longrightarrow> ok t \<and> cur t = (cur s + k) mod n"
proof (induction rule: runs.induct)
  case (stay s)
  then show ?case using cur_bound by simp
next
  case (work k s t u)
  then show ?case using ok_other cur_other by metis
next
  case (timer k s t f)
  then show ?case using ok_tick cur_tick by (simp add: mod_simps)
qed

text \<open>Every process gets the processor within \<open>n\<close> interrupts.\<close>

lemma runs_turn:
  assumes "runs tick fit other ((i + n - cur s) mod n) s t" "ok s" "i < n"
  shows "cur t = i"
proof -
  have "cur s < n" by (rule cur_bound [OF assms(2)])
  have "cur t = (cur s + (i + n - cur s) mod n) mod n" using runs_cur [OF assms(1,2)] by blast
  also have "\<dots> = (cur s + (i + n - cur s)) mod n" by (simp add: mod_simps)
  also have "\<dots> = i" using \<open>cur s < n\<close> assms(3) by simp
  finally show ?thesis .
qed

text \<open>What is saved of a process stays as long as it does not run.\<close>

lemma runs_saved:
  assumes "runs tick fit other k s t" "ok s" "i < n" "\<forall>j<k. (cur s + j) mod n \<noteq> i"
  shows "saved t i = saved s i"
  using assms
proof (induction rule: runs.induct)
  case (stay s)
  then show ?case by simp
next
  case (work k s t u)
  then show ?case using runs_cur saved_other by metis
next
  case (timer k s t f)
  note t = runs_cur [OF timer.hyps(1) timer.prems(1)]
  have "i \<noteq> cur t" using timer.prems(3) t by auto
  then have "saved (tick t f) i = saved t i" using keep_tick t timer by blast
  then show ?case using timer by simp
qed

text \<open>A process that was interrupted resumes, at the next interrupt that gives it the processor, with what
  was live when it lost it.\<close>

lemma runs_resume:
  assumes "ok s" "fit s f" "runs tick fit other k (tick s f) t" "fit t g" "k + 2 = n"
  shows "live (tick t g) g = live s f" "cur (tick t g) = cur s"
proof -
  note s1 = ok_tick [OF assms(1,2)] cur_tick [OF assms(1,2)] save_tick [OF assms(1,2)]
  note t = runs_cur [OF assms(3) s1(1)]
  have c: "cur s < n" by (rule cur_bound [OF assms(1)])
  have ct: "cur t = (cur s + (k + 1)) mod n" using t s1(2) by (simp add: mod_simps)
  then have "(cur t + 1) mod n = (cur s + (k + 2)) mod n" by (simp add: mod_simps)
  then have turn: "(cur t + 1) mod n = cur s" using turn_iff [OF c, of "k + 2"] assms(5) by simp
  have "(cur (tick s f) + j) mod n \<noteq> cur s" if "j < k" for j
  proof -
    have "(cur (tick s f) + j) mod n = (cur s + (j + 1)) mod n" using s1(2) by (simp add: mod_simps)
    moreover have "(j + 1) mod n \<noteq> 0" using that assms(5) by simp
    ultimately show ?thesis using turn_iff [OF c, of "j + 1"] by simp
  qed
  then have "saved t (cur s) = saved (tick s f) (cur s)"
    using runs_saved [OF assms(3) s1(1) c] by blast
  moreover have "cur t \<noteq> cur s"
    using turn_iff [OF c, of "k + 1"] ct assms(5) by simp
  then have "saved (tick t g) (cur s) = saved t (cur s)"
    using keep_tick [of t g "cur s"] t assms(4) c by simp
  ultimately show "live (tick t g) g = live s f"
    using load_tick [of t g] t assms(4) s1(3) turn by simp
  show "cur (tick t g) = cur s" using cur_tick [of t g] t assms(4) turn by simp
qed

end

section \<open>The process queue\<close>

definition turn :: "u64 list \<Rightarrow> nat \<Rightarrow> u64" where "turn ps i = ps ! ((i + 1) mod length ps)"

definition position :: "u64 list \<Rightarrow> u64 \<Rightarrow> nat" where "position ps p = length (takeWhile (\<lambda>q. q \<noteq> p) ps)"

lemma position_nth: "p \<in> set ps \<Longrightarrow> position ps p < length ps \<and> ps ! position ps p = p"
  by (induction ps) (auto simp: position_def)

lemma position_unique: "distinct ps \<Longrightarrow> i < length ps \<Longrightarrow> position ps (ps ! i) = i"
proof (induction ps arbitrary: i)
  case (Cons q ps)
  then show ?case by (cases i) (auto simp: position_def)
qed simp

text \<open>The queue \<open>ps\<close> of process records, apart from each other and from the task state segment; the last one has no
  successor.\<close>

definition sched_ok :: "u64 list \<Rightarrow> 'a proc_state_scheme \<Rightarrow> bool" where
  "sched_ok ps s \<longleftrightarrow> ps \<noteq> [] \<and> process_queue_base s = hd ps \<and> process_queue_head s = last ps \<and> running_process s \<in> set ps \<and>
     distinct ps \<and> 0 \<notin> set ps \<and>
     (\<forall>i < length ps. p_next (mem s) (ps ! i) = (if i + 1 < length ps then ps ! (i + 1) else 0)) \<and>
     (\<forall>p \<in> set ps. \<forall>q \<in> set ps. p \<noteq> q \<longrightarrow> ranges_disjoint p sizeof_process q sizeof_process) \<and>
     (\<forall>p \<in> set ps. ranges_disjoint p sizeof_process (tss s) sizeof_TSSEntry)"

definition frame_fit :: "u64 list \<Rightarrow> 'a proc_state_scheme \<Rightarrow> u64 \<Rightarrow> bool" where
  "frame_fit ps s tf \<longleftrightarrow> (\<forall>p \<in> set ps. ranges_disjoint tf sizeof_trapframe p sizeof_process) \<and>
     ranges_disjoint tf sizeof_trapframe (tss s) sizeof_TSSEntry"

text \<open>Between the interrupts the queue, the segment and the process records are left alone.\<close>

definition queue_kept :: "u64 list \<Rightarrow> 'a proc_state_scheme \<Rightarrow> 'a proc_state_scheme \<Rightarrow> bool" where
  "queue_kept ps s t \<longleftrightarrow> process_queue_base t = process_queue_base s \<and> process_queue_head t = process_queue_head s \<and>
     running_process t = running_process s \<and> tss t = tss s \<and>
     (\<forall>p \<in> set ps. \<forall>x. in_range p sizeof_process x \<longrightarrow> mem t x = mem s x)"

definition registers :: "memory \<Rightarrow> u64 \<Rightarrow> u8 list" where
  "registers m tf = bytes_at m tf 152"

lemma ranges_disjoint_part:
  assumes "ranges_disjoint a n b k" "unat d + unat m \<le> unat n" "m \<noteq> 0"
  shows "ranges_disjoint (a + d) m b k"
proof -
  define e where "e = b - a"
  have e: "unat n \<le> unat e" "unat k \<le> unat (- e)"
    using assms(1) by (auto simp: ranges_disjoint_def e_def word_le_nat_alt)
  have m: "0 < unat m" using assms(3) by (simp add: unat_gt_0)
  have "e \<noteq> 0" using e(1) assms(2) m by auto
  then have ne: "unat (- e) = 18446744073709551616 - unat e" using unat_sub_if' [of 0 e] by (simp add: unat_gt_0)
  have f: "b - (a + d) = e - d" "a + d - b = d - e" by (simp_all add: e_def)
  have "unat (e - d) = unat e - unat d" using e(1) assms(2) by (simp add: unat_sub word_le_nat_alt)
  moreover have "unat (d - e) = unat d + 18446744073709551616 - unat e"
    using e(1) assms(2) m unat_sub_if' [of d e] by simp
  ultimately show ?thesis
    unfolding ranges_disjoint_def word_le_nat_alt f using e ne assms(2) unat_less_64 [of e] by linarith
qed

lemma p_fields_cong:
  assumes "\<And>x. in_range p sizeof_process x \<Longrightarrow> m' x = m x"
  shows "p_next m' p = p_next m p" "p_cr3 m' p = p_cr3 m p" "p_kstack m' p = p_kstack m p"
    "registers m' (p_tf p) = registers m (p_tf p)"
proof -
  have "ld64 m' (p + d) = ld64 m (p + d)" if "unat d \<le> 240" for d
    by (rule cell64.rd_cong, rule assms) (rule in_range_field, assumption, use that in simp)
  then show "p_next m' p = p_next m p" "p_cr3 m' p = p_cr3 m p" "p_kstack m' p = p_kstack m p"
    by (simp_all add: p_next_def p_cr3_def p_kstack_def)
  have "m' (p + 8 + of_nat i) = m (p + 8 + of_nat i)" if "i < 152" for i
  proof (rule assms)
    have "in_range (p + 8) 152 (p + 8 + of_nat i)" using that by (simp add: in_range_def word_less_nat_alt unat_of_nat)
    then show "in_range p sizeof_process (p + 8 + of_nat i)" by (rule in_range_field) simp
  qed
  then show "registers m' (p_tf p) = registers m (p_tf p)" by (simp add: registers_def bytes_at_def p_tf_def)
qed

lemma registers_at: "registers m a = registers m' b \<longleftrightarrow> (\<forall>i<152. m (a + of_nat i) = m' (b + of_nat i))"
  by (auto simp: registers_def bytes_at_def list_eq_iff_nth_eq)

text \<open>The fields behind the registers are apart from the registers of every process.\<close>

lemma field_not_registers:
  assumes ok: "sched_ok ps s" and "p \<in> set ps" "r \<in> set ps" "in_range (r + d) 8 x" "160 \<le> unat d" "unat d \<le> 240"
  shows "\<not> in_range (p + 8) 152 x"
proof (cases "r = p")
  case True
  have "unat (d - 8) = unat d - 8" using assms(5) by (simp add: unat_sub word_le_nat_alt)
  moreover have "unat (8 - d) = 8 + 18446744073709551616 - unat d"
    using unat_sub_if' [of 8 d] assms(5) by simp
  moreover have "p + d - (p + 8) = d - 8" "p + 8 - (p + d) = 8 - d" by simp_all
  ultimately have "ranges_disjoint (p + 8) 152 (p + d) 8"
    unfolding ranges_disjoint_def word_le_nat_alt using assms(5,6) by simp linarith
  then show ?thesis using assms(4) True ranges_disjointD ranges_disjoint_sym by metis
next
  case False
  then have "ranges_disjoint r 248 p 248" using ok assms(2,3) by (auto simp: sched_ok_def)
  moreover have "in_range r 248 x" by (rule in_range_field [OF assms(4)]) (use assms(6) in simp)
  ultimately have "\<not> in_range p 248 x" by (rule ranges_disjointD)
  then show ?thesis using in_range_field [of p 8 152 x 248] by auto
qed

text \<open>The switch in closed form: the registers go to the record of the process that ran, the saved registers of
  the next one to the trap frame, and its stack to the segment.\<close>

lemma sched_ok_nth:
  assumes "sched_ok ps s"
  defines "i \<equiv> position ps (running_process s)"
  shows "i < length ps" "running_process s = ps ! i" "turn ps i \<in> set ps"
    "p_next (mem s) (ps ! i) = (if i + 1 < length ps then ps ! (i + 1) else 0)"
    "(if i + 1 < length ps then ps ! (i + 1) else hd ps) = turn ps i"
proof -
  have r: "running_process s \<in> set ps" "ps \<noteq> []" using assms(1) by (auto simp: sched_ok_def)
  show i: "i < length ps" "running_process s = ps ! i" using position_nth [OF r(1)] by (simp_all add: i_def)
  show "turn ps i \<in> set ps" using r(2) by (simp add: turn_def)
  show "p_next (mem s) (ps ! i) = (if i + 1 < length ps then ps ! (i + 1) else 0)"
    using assms(1) i(1) by (simp add: sched_ok_def)
  show "(if i + 1 < length ps then ps ! (i + 1) else hd ps) = turn ps i"
  proof (cases "i + 1 < length ps")
    case False
    then have "i + 1 = length ps" using i(1) by simp
    then show ?thesis using r(2) by (simp add: turn_def hd_conv_nth)
  qed (simp add: turn_def)
qed

lemma task_sched_spec:
  assumes ok: "sched_ok ps s" and fit: "frame_fit ps s tf"
  defines "p \<equiv> running_process s"
  defines "q \<equiv> turn ps (position ps p)"
  defines "s' \<equiv> task_sched s tf"
  shows "running_process s' = q" "cr3 s' = p_cr3 (mem s) q" "rsp0 (mem s') (tss s) = p_kstack (mem s) q + 0x800"
    "tss s' = tss s" "process_queue_base s' = process_queue_base s" "process_queue_head s' = process_queue_head s"
    "registers (mem s') (p_tf p) = registers (mem s) tf"
    "registers (mem s') tf = registers (mem s') (p_tf q)"
    "\<And>x. \<not> in_range (p_tf p) 152 x \<Longrightarrow> \<not> in_range tf 152 x \<Longrightarrow> \<not> in_range (tss s) 104 x \<Longrightarrow> mem s' x = mem s x"
proof -
  note nth = sched_ok_nth [OF ok, folded p_def]
  have pq: "p \<in> set ps" "q \<in> set ps" using ok nth(3) by (auto simp: sched_ok_def p_def q_def)
  have dis: "ranges_disjoint tf 152 r 248" "ranges_disjoint r 248 (tss s) 104" if "r \<in> set ps" for r
    using ok fit that by (auto simp: sched_ok_def frame_fit_def)
  have dis8: "ranges_disjoint tf 152 (r + 8) 152" if "r \<in> set ps" for r
    using ranges_disjoint_part [of r 248 tf 152 8 152] dis(1) [OF that] by (simp add: ranges_disjoint_sym)
  define m1 where "m1 = kmemcpy (mem s) (p_tf p) tf sizeof_trapframe"
  have m1: "m1 x = (if in_range (p + 8) 152 x then mem s (tf + (x - (p + 8))) else mem s x)" for x
    using kmemcpy_closed [of "p + 8" tf 152 "mem s"] dis8 [OF pq(1)]
    by (simp add: m1_def p_tf_def ranges_disjoint_def forward_copy_ok_def)
  note far = field_not_registers [OF ok pq(1)]
  have fld: "ld64 m1 (r + d) = ld64 (mem s) (r + d)" if "r \<in> set ps" "160 \<le> unat d" "unat d \<le> 240" for r d
    by (rule cell64.rd_cong) (use far that m1 in simp)
  have n: "next_process (s\<lparr>mem := m1\<rparr>) = q"
  proof -
    have "p_next m1 p = (if position ps p + 1 < length ps then ps ! (position ps p + 1) else 0)"
      using fld [OF pq(1), of 240] nth(2,4) by (simp add: p_next_def)
    moreover have "0 \<notin> set ps" "process_queue_base s = hd ps" using ok by (auto simp: sched_ok_def)
    ultimately show ?thesis using nth(5) by (auto simp: next_process_def Let_def q_def p_def in_set_conv_nth)
  qed
  define m2 where "m2 = kmemcpy m1 tf (p_tf q) sizeof_trapframe"
  have m2: "m2 x = (if in_range tf 152 x then m1 (q + 8 + (x - tf)) else m1 x)" for x
    using kmemcpy_closed [of tf "q + 8" 152 m1] dis8 [OF pq(2)]
    by (simp add: m2_def p_tf_def ranges_disjoint_def forward_copy_ok_def)
  have fld2: "ld64 m2 (r + d) = ld64 (mem s) (r + d)" if "r \<in> set ps" "160 \<le> unat d" "unat d \<le> 240" for r d
  proof -
    have "\<not> in_range tf 152 x" if "in_range (r + d) 8 x" for x
    proof -
      have "in_range r 248 x" by (rule in_range_field [OF that]) (use \<open>unat d \<le> 240\<close> in simp)
      then show ?thesis using dis(1) [OF \<open>r \<in> set ps\<close>] ranges_disjointD ranges_disjoint_sym by metis
    qed
    then have "ld64 m2 (r + d) = ld64 m1 (r + d)" by (intro cell64.rd_cong) (simp add: m2)
    then show ?thesis using fld that by simp
  qed
  define s2 where "s2 = s\<lparr>mem := m2, running_process := q\<rparr>"
  have s': "s' = (update_kernel_stack s2 (p_kstack m2 q))\<lparr>cr3 := p_cr3 (mem (update_kernel_stack s2 (p_kstack m2 q))) q\<rparr>"
    using n by (simp add: s'_def task_sched_def Let_def s2_def m2_def m1_def p_def update_kernel_stack_def)
  define m3 where "m3 = mem (update_kernel_stack s2 (p_kstack m2 q))"
  have mem': "mem s' = m3" by (simp add: s' m3_def)
  have k: "p_kstack m2 q = p_kstack (mem s) q" "p_cr3 m2 q = p_cr3 (mem s) q"
    using fld2 [OF pq(2)] by (simp_all add: p_kstack_def p_cr3_def)
  have m3: "m3 x = m2 x" if "\<not> in_range (tss s) 104 x" for x
    using update_kernel_stack_outside [of s2 x] that by (simp add: m3_def s2_def)
  have off: "\<not> in_range (tss s) 104 x" if "in_range r 248 x" "r \<in> set ps" for r x
    using dis(2) [OF that(2)] that(1) by (rule ranges_disjointD)
  have cr: "p_cr3 m3 q = p_cr3 m2 q"
    by (rule p_fields_cong(2)) (use m3 off pq(2) in blast)
  show "running_process s' = q" "tss s' = tss s" "process_queue_base s' = process_queue_base s"
    "process_queue_head s' = process_queue_head s"
    by (simp_all add: s' update_kernel_stack_def Let_def s2_def)
  show "cr3 s' = p_cr3 (mem s) q" using cr k by (simp add: s' m3_def)
  show "rsp0 (mem s') (tss s) = p_kstack (mem s) q + 0x800"
    using update_kernel_stack_rsp0 [of s2 "p_kstack m2 q"] k by (simp add: mem' m3_def s2_def)
  have part: "in_range (r + 8) 152 (r + 8 + of_nat i)" "in_range r 248 (r + 8 + of_nat i)"
    "in_range tf 152 (tf + of_nat i)" if "i < 152" for i r
  proof -
    show 1: "in_range (r + 8) 152 (r + 8 + of_nat i)" for r
      using that by (simp add: in_range_def word_less_nat_alt unat_of_nat)
    show "in_range r 248 (r + 8 + of_nat i)" by (rule in_range_field [OF 1]) simp
    show "in_range tf 152 (tf + of_nat i)" using that by (simp add: in_range_def word_less_nat_alt unat_of_nat)
  qed
  have tfoff: "\<not> in_range r 248 (tf + of_nat i)" "\<not> in_range (r + 8) 152 (tf + of_nat i)" "\<not> in_range (tss s) 104 (tf + of_nat i)"
    if "i < 152" "r \<in> set ps" for i r
  proof -
    show 1: "\<not> in_range r 248 (tf + of_nat i)" by (rule ranges_disjointD [OF dis(1) [OF that(2)] part(3) [OF that(1)]])
    show "\<not> in_range (r + 8) 152 (tf + of_nat i)" using 1 in_range_field [of r 8 152 _ 248] by auto
    show "\<not> in_range (tss s) 104 (tf + of_nat i)"
      using fit part(3) [OF that(1)] ranges_disjointD by (metis frame_fit_def)
  qed
  have poff: "\<not> in_range tf 152 x" if "in_range r 248 x" "r \<in> set ps" for r x
    using dis(1) [OF that(2)] that(1) ranges_disjointD ranges_disjoint_sym by metis
  have rec: "m3 (r + 8 + of_nat i) = m1 (r + 8 + of_nat i)" if "i < 152" "r \<in> set ps" for i r
  proof -
    have x: "in_range r 248 (r + 8 + of_nat i)" by (rule part(2) [OF that(1)])
    show ?thesis using m3 [OF off [OF x that(2)]] poff [OF x that(2)] by (simp add: m2)
  qed
  have frame: "m3 (tf + of_nat i) = m1 (q + 8 + of_nat i)" if "i < 152" for i
    using m3 tfoff(3) [OF that pq(1)] part(3) [OF that] by (simp add: m2)
  show "registers (mem s') (p_tf p) = registers (mem s) tf"
    unfolding registers_at mem' p_tf_def
  proof (intro allI impI)
    fix i :: nat assume i: "i < 152"
    have "m3 (p + 8 + of_nat i) = m1 (p + 8 + of_nat i)" by (rule rec [OF i pq(1)])
    also have "\<dots> = mem s (tf + (p + 8 + of_nat i - (p + 8)))" using part(1) [OF i] by (simp only: m1 if_True)
    finally show "m3 (p + 8 + of_nat i) = mem s (tf + of_nat i)" by simp
  qed
  show "registers (mem s') tf = registers (mem s') (p_tf q)"
    unfolding registers_at mem' p_tf_def using frame rec [OF _ pq(2)] by simp
  show "mem s' x = mem s x" if "\<not> in_range (p_tf p) 152 x" "\<not> in_range tf 152 x" "\<not> in_range (tss s) 104 x" for x
    using m3 [OF that(3)] m2 [of x] m1 [of x] that(1,2) by (simp add: mem' p_tf_def)
qed

text \<open>The rest of every process record survives the switch.\<close>

lemma task_sched_fields:
  assumes ok: "sched_ok ps s" and fit: "frame_fit ps s tf" and r: "r \<in> set ps"
  shows "160 \<le> unat d \<Longrightarrow> unat d \<le> 240 \<Longrightarrow> ld64 (mem (task_sched s tf)) (r + d) = ld64 (mem s) (r + d)"
    "r \<noteq> running_process s \<Longrightarrow> registers (mem (task_sched s tf)) (p_tf r) = registers (mem s) (p_tf r)"
proof -
  have p: "running_process s \<in> set ps" using ok by (simp add: sched_ok_def)
  have out: "\<not> in_range tf 152 x" "\<not> in_range (tss s) 104 x" if "in_range r 248 x" for x
  proof -
    have "ranges_disjoint r 248 tf 152" "ranges_disjoint r 248 (tss s) 104"
      using ok fit r by (auto simp: sched_ok_def frame_fit_def ranges_disjoint_sym)
    then show "\<not> in_range tf 152 x" "\<not> in_range (tss s) 104 x" using that by (auto dest: ranges_disjointD)
  qed
  note same = task_sched_spec(9) [OF ok fit, unfolded p_tf_def]
  show "ld64 (mem (task_sched s tf)) (r + d) = ld64 (mem s) (r + d)" if d: "160 \<le> unat d" "unat d \<le> 240"
  proof (rule cell64.rd_cong)
    fix x assume x: "in_range (r + d) 8 x"
    have "in_range r 248 x" by (rule in_range_field [OF x]) (use d in simp)
    then show "mem (task_sched s tf) x = mem s x"
      using same out field_not_registers [OF ok p r x d] by blast
  qed
  show "registers (mem (task_sched s tf)) (p_tf r) = registers (mem s) (p_tf r)" if "r \<noteq> running_process s"
  proof (rule p_fields_cong(4))
    fix x assume x: "in_range r sizeof_process x"
    have "ranges_disjoint r 248 (running_process s) 248" using ok r p that by (auto simp: sched_ok_def)
    then have "\<not> in_range (running_process s) 248 x" using x by (rule ranges_disjointD)
    then have "\<not> in_range (running_process s + 8) 152 x" using in_range_field [of "running_process s" 8 152 x 248] by auto
    then show "mem (task_sched s tf) x = mem s x" using same out [OF x] by blast
  qed
qed

lemma sched_ok_cong:
  assumes "sched_ok ps s" "process_queue_base t = process_queue_base s" "process_queue_head t = process_queue_head s"
    "tss t = tss s" "\<And>r. r \<in> set ps \<Longrightarrow> p_next (mem t) r = p_next (mem s) r" "running_process t \<in> set ps"
  shows "sched_ok ps t"
proof -
  have "\<forall>i<length ps. p_next (mem t) (ps ! i) = p_next (mem s) (ps ! i)" using assms(5) by simp
  then show ?thesis using assms(1,6) unfolding sched_ok_def assms(2-4) by metis
qed

lemma task_sched_ok:
  assumes "sched_ok ps s" "frame_fit ps s tf"
  shows "sched_ok ps (task_sched s tf)" "position ps (running_process (task_sched s tf)) = (position ps (running_process s) + 1) mod length ps"
proof -
  note spec = task_sched_spec [OF assms] and nth = sched_ok_nth [OF assms(1)]
  have "p_next (mem (task_sched s tf)) r = p_next (mem s) r" if "r \<in> set ps" for r
    using task_sched_fields(1) [OF assms that, of 240] by (simp add: p_next_def)
  moreover have "running_process (task_sched s tf) \<in> set ps" using spec(1) nth(3) by simp
  ultimately show "sched_ok ps (task_sched s tf)" by (rule sched_ok_cong [OF assms(1) spec(5,6,4)])
  have "distinct ps" "ps \<noteq> []" using assms(1) by (simp_all add: sched_ok_def)
  then show "position ps (running_process (task_sched s tf)) = (position ps (running_process s) + 1) mod length ps"
    using spec(1) position_unique [of ps] by (simp add: turn_def)
qed

lemma queue_kept_ok:
  assumes "sched_ok ps s" "queue_kept ps s t"
  shows "sched_ok ps t" "r \<in> set ps \<Longrightarrow> registers (mem t) (p_tf r) = registers (mem s) (p_tf r)"
proof -
  have f: "p_next (mem t) r = p_next (mem s) r" "registers (mem t) (p_tf r) = registers (mem s) (p_tf r)"
    if "r \<in> set ps" for r
    by (rule p_fields_cong; use assms(2) that in \<open>simp add: queue_kept_def\<close>)+
  show "r \<in> set ps \<Longrightarrow> registers (mem t) (p_tf r) = registers (mem s) (p_tf r)" by (rule f(2))
  show "sched_ok ps t"
    by (rule sched_ok_cong [OF assms(1)]) (use assms f(1) in \<open>auto simp: queue_kept_def sched_ok_def\<close>)
qed

interpretation rr: round_robin "length ps" "sched_ok ps" "\<lambda>s. position ps (running_process s)"
  "\<lambda>s i. registers (mem s) (p_tf (ps ! i))" "\<lambda>s tf. registers (mem s) tf" task_sched "frame_fit ps" "queue_kept ps" for ps
proof unfold_locales
  fix s :: "'a proc_state_scheme" and tf :: u64
  assume ok: "sched_ok ps s"
  note nth = sched_ok_nth [OF ok]
  show "position ps (running_process s) < length ps" by (rule nth(1))
  assume fit: "frame_fit ps s tf"
  note spec = task_sched_spec [OF ok fit] and fields = task_sched_fields [OF ok fit]
  show "sched_ok ps (task_sched s tf)"
    "position ps (running_process (task_sched s tf)) = (position ps (running_process s) + 1) mod length ps"
    by (rule task_sched_ok [OF ok fit])+
  show "registers (mem (task_sched s tf)) (p_tf (ps ! position ps (running_process s))) = registers (mem s) tf"
    using spec(7) nth(2) by simp
  show "registers (mem (task_sched s tf)) tf =
      registers (mem (task_sched s tf)) (p_tf (ps ! ((position ps (running_process s) + 1) mod length ps)))"
    using spec(8) by (simp add: turn_def)
  show "registers (mem (task_sched s tf)) (p_tf (ps ! i)) = registers (mem s) (p_tf (ps ! i))"
    if "i < length ps" "i \<noteq> position ps (running_process s)" for i
  proof (rule fields(2))
    show "ps ! i \<in> set ps" using that(1) by simp
    have "distinct ps" using ok by (simp add: sched_ok_def)
    then show "ps ! i \<noteq> running_process s" using position_unique that by metis
  qed
next
  fix s t :: "'a proc_state_scheme"
  assume ok: "sched_ok ps s" and kept: "queue_kept ps s t"
  show "sched_ok ps t" by (rule queue_kept_ok [OF ok kept])
  show "position ps (running_process t) = position ps (running_process s)" using kept by (simp add: queue_kept_def)
  show "registers (mem t) (p_tf (ps ! i)) = registers (mem s) (p_tf (ps ! i))" if "i < length ps" for i
    using queue_kept_ok(2) [OF ok kept] that by simp
qed

section \<open>Scheduling\<close>

text \<open>C4: The scheduler is fair: from any state of the queue the \<open>k\<close>-th timer interrupt gives the processor to the
  process \<open>k\<close> places further round the queue, and each process gets it after fewer interrupts than there
  are processes, whatever the programs do between the interrupts; and the queue stays
  well formed.\<close>

theorem scheduler_fair:
  assumes "sched_ok ps s" "runs task_sched (frame_fit ps) (queue_kept ps) k s t"
  shows "sched_ok ps t \<and> running_process t = ps ! ((position ps (running_process s) + k) mod length ps) \<and>
    (\<forall>p \<in> set ps. \<exists>j < length ps. \<forall>u. runs task_sched (frame_fit ps) (queue_kept ps) j s u \<longrightarrow> running_process u = p)"
proof -
  have run: "running_process u = ps ! ((position ps (running_process s) + j) mod length ps)" "sched_ok ps u"
    if "runs task_sched (frame_fit ps) (queue_kept ps) j s u" for j u
  proof -
    note u = rr.runs_cur [OF that assms(1)]
    then show "sched_ok ps u" by blast
    then have "running_process u = ps ! position ps (running_process u)" by (rule sched_ok_nth(2))
    then show "running_process u = ps ! ((position ps (running_process s) + j) mod length ps)" using u by simp
  qed
  have "\<exists>j<length ps. \<forall>u. runs task_sched (frame_fit ps) (queue_kept ps) j s u \<longrightarrow> running_process u = p"
    if p: "p \<in> set ps" for p
  proof -
    define j where "j = (position ps p + length ps - position ps (running_process s)) mod length ps"
    have "j < length ps" unfolding j_def using p by (intro mod_less_divisor) (cases ps; simp)
    moreover have "running_process u = p" if "runs task_sched (frame_fit ps) (queue_kept ps) j s u" for u
    proof -
      have "position ps (running_process u) = position ps p"
        using rr.runs_turn that assms(1) position_nth [OF p] unfolding j_def by blast
      then show ?thesis using sched_ok_nth(2) [OF run(2) [OF that]] position_nth [OF p] by simp
    qed
    ultimately show ?thesis by blast
  qed
  then show ?thesis using run [OF assms(2)] by blast
qed


text \<open>The processor returns to a program through the five words above the trap frame (\<open>trap_end\<close> in
  \<open>trap.asm\<close>), and the switch leaves them as they are: the next process continues at the instruction and on
  the stack of the process that was interrupted.\<close>

definition iretq_rip :: "memory \<Rightarrow> u64 \<Rightarrow> u64" where "iretq_rip m tf = ld64 m (tf + 152)"
definition iretq_rsp :: "memory \<Rightarrow> u64 \<Rightarrow> u64" where "iretq_rsp m tf = ld64 m (tf + 176)"

theorem task_sched_keeps_return_address:
  assumes ok: "sched_ok ps s" "frame_fit ps s tf"
    and fit: "\<forall>p \<in> set ps. ranges_disjoint tf 192 p sizeof_process" "ranges_disjoint tf 192 (tss s) sizeof_TSSEntry"
  shows "iretq_rip (mem (task_sched s tf)) tf = iretq_rip (mem s) tf \<and> iretq_rsp (mem (task_sched s tf)) tf = iretq_rsp (mem s) tf"
proof -
  have p: "running_process s \<in> set ps" using ok by (simp add: sched_ok_def)
  have "ld64 (mem (task_sched s tf)) (tf + d) = ld64 (mem s) (tf + d)" if d: "152 \<le> unat d" "unat d \<le> 184" for d
  proof (rule cell64.rd_cong)
    fix x assume x: "in_range (tf + d) 8 x"
    have "in_range tf 192 x" by (rule in_range_field [OF x]) (use d in simp)
    then have o: "\<not> in_range (running_process s) 248 x" "\<not> in_range (tss s) 104 x"
      using fit p by (auto dest: ranges_disjointD)
    then have "\<not> in_range (p_tf (running_process s)) 152 x"
      using in_range_field [of "running_process s" 8 152 x 248] by (auto simp: p_tf_def)
    moreover have "\<not> in_range tf 152 x"
    proof -
      have "x - tf = d + (x - (tf + d))" by simp
      moreover have "unat (x - (tf + d)) < 8" using x by (simp add: in_range_def word_less_nat_alt)
      ultimately have "unat (x - tf) = unat d + unat (x - (tf + d))"
        using d unat_add_lem [of d "x - (tf + d)"] by simp
      then show ?thesis using d by (simp add: in_range_def word_less_nat_alt)
    qed
    ultimately show "mem (task_sched s tf) x = mem s x" using task_sched_spec(9) [OF ok] o(2) by blast
  qed
  then show ?thesis by (simp add: iretq_rip_def iretq_rsp_def)
qed

text \<open>A new process goes to the end of the queue, provided its link is clear: \<open>make_process\<close> leaves what the
  heap block held there.\<close>

text \<open>What appending writes: the link of the last record.\<close>

lemma enqueue_appends:
  assumes ok: "sched_ok ps s" and apart: "\<forall>q \<in> set ps. ranges_disjoint p sizeof_process q sizeof_process"
  shows "process_queue_base (enqueue s p) = process_queue_base s" "process_queue_head (enqueue s p) = p"
    "running_process (enqueue s p) = running_process s" "tss (enqueue s p) = tss s"
    "q \<in> set (ps @ [p]) \<Longrightarrow> p_next (mem (enqueue s p)) q = (if q = last ps then p else p_next (mem s) q)"
    "q \<in> set (ps @ [p]) \<Longrightarrow> registers (mem (enqueue s p)) (p_tf q) = registers (mem s) (p_tf q)"
proof -
  have ne: "ps \<noteq> []" using ok by (simp add: sched_ok_def)
  define h where "h = last ps"
  have h: "process_queue_head s = h" "process_queue_base s \<noteq> 0" "h \<in> set ps" "hd ps \<in> set ps"
    using ok ne hd_in_set [OF ne] by (auto simp: sched_ok_def h_def simp del: hd_in_set)
  define m' where "m' = set_p_next h p (mem s)"
  have e: "enqueue s p = s\<lparr>mem := m', process_queue_head := p\<rparr>"
    using h by (simp add: enqueue_def m'_def set_p_next_def p_next_def cell64.rd_wr_same)
  show "process_queue_base (enqueue s p) = process_queue_base s" "process_queue_head (enqueue s p) = p"
    "running_process (enqueue s p) = running_process s" "tss (enqueue s p) = tss s" by (simp_all add: e)
  have out: "m' x = mem s x" if "\<not> in_range (h + 240) 8 x" for x
    using that by (simp add: m'_def set_p_next_def cell64.wr_outside)
  have hr: "in_range h 248 x" if "in_range (h + 240) 8 x" for x by (rule in_range_field [OF that]) simp
  have other: "mem (enqueue s p) x = mem s x" if "q \<noteq> h" "q \<in> set (ps @ [p])" "in_range q 248 x" for q x
  proof -
    have "ranges_disjoint q 248 h 248" using that(1,2) apart h(3) ok unfolding sched_ok_def by auto
    then show ?thesis using e out hr that(3) ranges_disjointD by fastforce
  qed
  show "p_next (mem (enqueue s p)) q = (if q = last ps then p else p_next (mem s) q)" if "q \<in> set (ps @ [p])" for q
  proof (cases "q = h")
    case True
    then show ?thesis by (simp add: h_def [symmetric] e m'_def set_p_next_def p_next_def cell64.rd_wr_same)
  next
    case False
    then show ?thesis using p_fields_cong(1) [of q "mem (enqueue s p)" "mem s"] other that by (simp add: h_def)
  qed
  show "registers (mem (enqueue s p)) (p_tf q) = registers (mem s) (p_tf q)" if "q \<in> set (ps @ [p])" for q
    unfolding registers_at
  proof (intro allI impI)
    fix i :: nat assume "i < 152"
    then have x: "in_range (q + 8) 152 (p_tf q + of_nat i)"
      by (simp add: in_range_def word_less_nat_alt unat_of_nat p_tf_def)
    show "mem (enqueue s p) (p_tf q + of_nat i) = mem s (p_tf q + of_nat i)"
    proof (cases "q = h")
      case True
      have "\<not> in_range (h + 240) 8 (p_tf q + of_nat i)"
        using field_not_registers [OF ok h(3) h(3), of 240] x True by auto
      then show ?thesis using e out by simp
    next
      case False
      show ?thesis by (rule other [OF False that in_range_field [OF x]]) simp
    qed
  qed
qed

lemma appended_links:
  assumes "distinct ps" "ps \<noteq> []" "p \<notin> set ps" "next' p = 0" "i < length (ps @ [p])"
    "\<forall>i < length ps. next' (ps ! i) = (if i + 1 < length ps then ps ! (i + 1) else 0)"
  shows "(if (ps @ [p]) ! i = last ps then p else next' ((ps @ [p]) ! i)) =
    (if i + 1 < length (ps @ [p]) then (ps @ [p]) ! (i + 1) else (0 :: u64))"
proof -
  have l: "ps ! (length ps - 1) = last ps" using assms(2) by (simp add: last_conv_nth)
  consider "i + 1 < length ps" | "i + 1 = length ps" | "i = length ps" using assms(5) by fastforce
  then show ?thesis
  proof cases
    case 1
    then have "ps ! i \<noteq> last ps" using l nth_eq_iff_index_eq [OF assms(1), of i "length ps - 1"] by auto
    then show ?thesis using 1 assms(6) by (simp add: nth_append)
  next
    case 2
    then have "i = length ps - 1" by simp
    then show ?thesis using 2 l by (simp add: nth_append)
  next
    case 3
    have "p \<noteq> last ps" using assms(2,3) last_in_set by metis
    then show ?thesis using 3 assms(4) by simp
  qed
qed

text \<open>C38: Appending a process record to the queue keeps the queue well formed: the processes before it keep their order and
  their records, it is the last one, and the running process goes on running; into an empty queue it
  becomes the only one and the running one.  Its link must be zero beforehand, which nothing in
  \<open>make_process\<close> sees to.\<close>

theorem enqueue_correct:
  assumes "p_next (mem s) p = 0" "p \<noteq> 0" "ranges_disjoint p sizeof_process (tss s) sizeof_TSSEntry"
    "\<forall>q \<in> set ps. ranges_disjoint p sizeof_process q sizeof_process"
    "if ps = [] then process_queue_base s = 0 else sched_ok ps s"
  shows "sched_ok (ps @ [p]) (enqueue s p) \<and>
    running_process (enqueue s p) = (if ps = [] then p else running_process s) \<and>
    (\<forall>q \<in> set (ps @ [p]). registers (mem (enqueue s p)) (p_tf q) = registers (mem s) (p_tf q))"
proof (cases "ps = []")
  case True
  then show ?thesis using assms by (simp add: sched_ok_def enqueue_def)
next
  case False
  then have ok: "sched_ok ps s" using assms(5) by simp
  note e = enqueue_appends [OF ok assms(4)]
  have ps: "distinct ps" "0 \<notin> set ps" "running_process s \<in> set ps" "process_queue_base s = hd ps"
    "\<forall>i < length ps. p_next (mem s) (ps ! i) = (if i + 1 < length ps then ps ! (i + 1) else 0)"
    "\<forall>q \<in> set ps. ranges_disjoint q sizeof_process (tss s) sizeof_TSSEntry"
    "\<forall>q \<in> set ps. \<forall>r \<in> set ps. q \<noteq> r \<longrightarrow> ranges_disjoint q sizeof_process r sizeof_process"
    using ok by (simp_all add: sched_ok_def)
  have new: "p \<notin> set ps" using assms(4) by (auto simp: ranges_disjoint_def)
  have "p_next (mem (enqueue s p)) ((ps @ [p]) ! i) = (if i + 1 < length (ps @ [p]) then (ps @ [p]) ! (i + 1) else 0)"
    if "i < length (ps @ [p])" for i
    using e(5) [OF nth_mem [OF that]] appended_links [OF ps(1) False new assms(1) that ps(5)] by simp
  moreover have "\<forall>q \<in> set (ps @ [p]). \<forall>r \<in> set (ps @ [p]). q \<noteq> r \<longrightarrow> ranges_disjoint q sizeof_process r sizeof_process"
    using ps(7) assms(4) ranges_disjoint_sym by auto
  ultimately have "sched_ok (ps @ [p]) (enqueue s p)"
    unfolding sched_ok_def e(1-4) using ps(1-4,6) new False assms(2,3) by simp
  then show ?thesis using e(3,6) False by simp
qed

text \<open>Two processes, the first one running, and their trap frame.\<close>

definition two_processes :: proc_state where
  "two_processes = tss_state.extend (gdt_machine\<lparr>mem := st64 (st64 (\<lambda>_. 7) 0x100F0 0x20000) 0x200F0 0, tss := 0x30000\<rparr>)
     (proc_state.fields 3 0x20000 0x10000 0x10000)"

lemma two_processes_fields:
  "mem two_processes = st64 (st64 (\<lambda>_. 7) 0x100F0 0x20000) 0x200F0 0" "tss two_processes = 0x30000"
  "process_queue_base two_processes = 0x10000" "process_queue_head two_processes = 0x20000"
  "running_process two_processes = 0x10000"
  by (simp_all add: two_processes_def tss_state.defs proc_state.defs)

lemma two_processes_links:
  "p_next (mem two_processes) 0x10000 = 0x20000" "p_next (mem two_processes) 0x20000 = 0"
proof -
  have "ld64 (st64 (st64 (\<lambda>_. 7) 0x100F0 0x20000) 0x200F0 0) (0x100F0 :: u64) = ld64 (st64 (\<lambda>_. 7) 0x100F0 0x20000) 0x100F0"
    by (rule cell64.rd_wr_disjoint) (simp add: ranges_disjoint_def)
  then show "p_next (mem two_processes) 0x10000 = 0x20000" "p_next (mem two_processes) 0x20000 = 0"
    by (simp_all add: p_next_def two_processes_fields cell64.rd_wr_same)
qed

lemma two_processes_ok: "sched_ok [0x10000, 0x20000] two_processes" "frame_fit [0x10000, 0x20000] two_processes 0x40000"
  using two_processes_links
  by (simp_all add: sched_ok_def frame_fit_def two_processes_fields ranges_disjoint_def All_less_Suc)

theorem scheduler_fair_witness:
  "running_process (task_sched two_processes 0x40000) = 0x20000 \<and> sched_ok [0x10000, 0x20000] (task_sched two_processes 0x40000)"
proof -
  have "runs task_sched (frame_fit [0x10000, 0x20000]) (queue_kept [0x10000, 0x20000]) (Suc 0) two_processes (task_sched two_processes 0x40000)"
    by (rule runs.timer, rule runs.stay, rule two_processes_ok(2))
  from scheduler_fair [OF two_processes_ok(1) this]
  show ?thesis by (simp add: two_processes_fields position_def)
qed


theorem enqueue_correct_witness:
  "sched_ok [0x10000, 0x20000, 0x50000] (enqueue (two_processes\<lparr>mem := set_p_next 0x50000 0 (mem two_processes)\<rparr>) 0x50000)"
proof -
  let ?s = "two_processes\<lparr>mem := set_p_next 0x50000 0 (mem two_processes)\<rparr>"
  have "sched_ok [0x10000, 0x20000] ?s"
  proof (rule sched_ok_cong [OF two_processes_ok(1)])
    fix r :: u64 assume r: "r \<in> set [0x10000, 0x20000]"
    then have "ranges_disjoint (r + 240) 8 (0x500F0 :: u64) 8" by (auto simp: ranges_disjoint_def)
    then show "p_next (mem ?s) r = p_next (mem two_processes) r"
      by (simp add: p_next_def set_p_next_def cell64.rd_wr_disjoint)
  qed (simp_all add: two_processes_fields)
  moreover have "p_next (mem ?s) 0x50000 = 0" by (simp add: p_next_def set_p_next_def cell64.rd_wr_same)
  ultimately show ?thesis
    using enqueue_correct [of ?s "0x50000" "[0x10000, 0x20000]"]
    by (simp add: two_processes_fields ranges_disjoint_def)
qed

end
