(* ===== verification/Console.thy ===== *)
theory Console
  imports Proc
begin

text \<open>
  \<open>sys/src/tty/console.c\<close> and \<open>sys/src/lib/log.c\<close>: text on the screen and on the serial line.

  The console keeps a cursor in two static variables and remembers whether it has shown a panic.
  \<open>dec_buffer\<close> and \<open>hex_buffer\<close> are the addresses of the static buffers of \<open>dec2str\<close> and
  \<open>hex2str\<close>, \<open>char_buffer\<close> that of the two-element array in which a single character is passed on.

  The arguments of \<open>printk\<close> are a sequence of 64-bit values: the ones passed, and after them whatever
  the registers and the stack hold.  A \<open>va_list\<close> of the AMD64 ABI is an array, so a callee that is
  handed one advances the caller's; it is the number of values already read.  The two loops over a
  format are one definition, over the function that receives the pieces of text.
\<close>

section \<open>State and operations\<close>

record console_state = proc_state +
  con_x :: u32
  con_y :: u32
  con_panic :: u8
  halted :: bool
  dec_buffer :: u64
  hex_buffer :: u64
  char_buffer :: u64

definition MAKE_FG_BG :: "u64 \<Rightarrow> u64 \<Rightarrow> u64" where "MAKE_FG_BG fg bg = push_bit 32 fg OR bg"
definition EXTRACT_FG :: "u64 \<Rightarrow> u64" where "EXTRACT_FG color = drop_bit 32 color"
definition EXTRACT_BG :: "u64 \<Rightarrow> u64" where "EXTRACT_BG color = color AND 0xFFFFFFFF"

definition reset_pos :: "'a console_state_scheme \<Rightarrow> 'a console_state_scheme" where
  "reset_pos s = s\<lparr>con_x := 0, con_y := 0\<rparr>"

definition newline :: "'a console_state_scheme \<Rightarrow> 'a console_state_scheme option" where
  "newline s = do {
     s \<leftarrow> (if framebuffer_get_height s - 5 \<le> con_y s then framebuffer_clear s 0x000000 else Some s);
     Some (s\<lparr>con_y := con_y s + (FONT_HEIGHT + 4), con_x := 0\<rparr>)
   }"

partial_function (option) putstr_loop ::
    "'a console_state_scheme \<Rightarrow> u64 \<Rightarrow> u64 \<Rightarrow> u64 \<Rightarrow> 'a console_state_scheme option" where
  "putstr_loop s str color i = do {
     n \<leftarrow> kstrlen (mem s) str;
     if i < n then
       (if mem s (str + i) = 0x0A then do { s \<leftarrow> newline s; putstr_loop s str color (i + 1) }
        else
          let s = framebuffer_putch s (con_x s) (con_y s) (mem s (str + i)) (ucast (EXTRACT_BG color)) (ucast (EXTRACT_FG color))
          in putstr_loop (s\<lparr>con_x := con_x s + FONT_WIDTH\<rparr>) str color (i + 1))
     else Some s
   }"

definition putstr :: "u64 \<Rightarrow> 'a console_state_scheme \<Rightarrow> u64 \<Rightarrow> 'a console_state_scheme option" where
  "putstr color s str = putstr_loop s str color 0"

text \<open>One character as a string.\<close>

definition char_string :: "'a console_state_scheme \<Rightarrow> u8 \<Rightarrow> 'a console_state_scheme" where
  "char_string s c = s\<lparr>mem := (mem s)(char_buffer s := c, char_buffer s + 1 := 0)\<rparr>"

text \<open>What follows a percent sign, and how many arguments it takes.\<close>

definition directive ::
    "('a console_state_scheme \<Rightarrow> u64 \<Rightarrow> 'a console_state_scheme option) \<Rightarrow> 'a console_state_scheme \<Rightarrow> u8 \<Rightarrow> (nat \<Rightarrow> u64) \<Rightarrow> nat \<Rightarrow>
      (nat \<times> 'a console_state_scheme) option" where
  "directive put s c args ap =
     (if c = 0x64 then
        let s = s\<lparr>mem := dec2str (mem s) (dec_buffer s) (ucast (args ap))\<rparr>
        in do { s \<leftarrow> put s (dec_buffer s); Some (ap + 1, s) }
      else if c = 0x78 then
        let s = s\<lparr>mem := hex2str (mem s) (hex_buffer s) (args ap)\<rparr>
        in do { s \<leftarrow> put s (hex_buffer s); Some (ap + 1, s) }
      else if c = 0x73 then do { s \<leftarrow> put s (args ap); Some (ap + 1, s) }
      else if c = 0x63 then
        let s = char_string s (ucast (args ap))
        in do { s \<leftarrow> put s (char_buffer s); Some (ap + 1, s) }
      else Some (ap, s))"

partial_function (option) format_loop ::
    "('a console_state_scheme \<Rightarrow> u64 \<Rightarrow> 'a console_state_scheme option) \<Rightarrow> 'a console_state_scheme \<Rightarrow> u64 \<Rightarrow> (nat \<Rightarrow> u64) \<Rightarrow> nat \<Rightarrow>
      (nat \<times> 'a console_state_scheme) option" where
  "format_loop put s ptr args ap =
     (if mem s ptr = 0 then Some (ap, s)
      else if mem s ptr = 0x25 then
        do {
          (ap, s) \<leftarrow> directive put s (mem s (ptr + 1)) args ap;
          format_loop put s (ptr + 2) args ap
        }
      else
        let s = char_string s (mem s ptr)
        in do { s \<leftarrow> put s (char_buffer s); format_loop put s (ptr + 1) args ap })"

text \<open>The prefix: a panic clears the screen the first time only.\<close>

definition console_prefix :: "'a console_state_scheme \<Rightarrow> u64 \<Rightarrow> (u64 \<times> u64 \<times> 'a console_state_scheme) option" where
  "console_prefix s fmt =
     (let color = MAKE_FG_BG 0x808080 0x000000
      in if mem s fmt \<noteq> 0x5C then Some (color, fmt, s)
      else if mem s (fmt + 1) = 0x31 then
        do {
          s \<leftarrow> (if con_panic s = 0 then
                 do { s \<leftarrow> framebuffer_clear s 0x0000000; Some ((reset_pos s)\<lparr>con_panic := 1\<rparr>) }
               else Some s);
          Some (MAKE_FG_BG 0xFF0000 0x000000, fmt + 2, s)
        }
      else if mem s (fmt + 1) = 0x32 then Some (MAKE_FG_BG 0x8B8000 0x000000, fmt + 2, s)
      else if mem s (fmt + 1) = 0x33 then
        do {
          s \<leftarrow> framebuffer_clear s 0x000000;
          Some (MAKE_FG_BG 0x808080 0x000000, fmt + 2, reset_pos s)
        }
      else Some (color, fmt, s))"

definition console_write ::
    "'a console_state_scheme \<Rightarrow> u64 \<Rightarrow> (nat \<Rightarrow> u64) \<Rightarrow> nat \<Rightarrow> (nat \<times> 'a console_state_scheme) option" where
  "console_write s fmt args ap = do {
     (color, fmt, s) \<leftarrow> console_prefix s fmt;
     format_loop (putstr color) s fmt args ap
   }"

definition serial_log ::
    "'a console_state_scheme \<Rightarrow> u64 \<Rightarrow> (nat \<Rightarrow> u64) \<Rightarrow> nat \<Rightarrow> (nat \<times> 'a console_state_scheme) option" where
  "serial_log s fmt args ap = format_loop serial_write s (if mem s fmt = 0x5C then fmt + 2 else fmt) args ap"

definition printk :: "'a console_state_scheme \<Rightarrow> u64 \<Rightarrow> (nat \<Rightarrow> u64) \<Rightarrow> 'a console_state_scheme option" where
  "printk s fmt args = do {
     (ap, s) \<leftarrow> console_write s fmt args 0;
     (ap, s) \<leftarrow> serial_log s fmt args ap;
     Some s
   }"

definition kpanic :: "'a console_state_scheme \<Rightarrow> 'a console_state_scheme" where
  "kpanic s = s\<lparr>halted := True\<rparr>"

section \<open>The screen that a user sees\<close>

type_synonym view = "u32 \<times> u32 \<times> (u32 \<Rightarrow> u32 \<Rightarrow> u32)"

definition view :: "'a console_state_scheme \<Rightarrow> view" where
  "view s = (con_x s, con_y s, getpix s)"

definition on_screen :: "nat \<times> nat \<Rightarrow> u32 \<Rightarrow> u32 \<Rightarrow> bool" where
  "on_screen g X Y \<longleftrightarrow> unat X < fst g \<and> unat Y < snd g"

definition blank :: "nat \<times> nat \<Rightarrow> u32 \<Rightarrow> u32 \<Rightarrow> u32 \<Rightarrow> u32" where
  "blank g color = (\<lambda>X Y. if on_screen g X Y then color else 0)"

text \<open>What one character does to it, and a text: characters have the size of 9 by 16 pixels, lines are 20
  pixels apart, and a new line begins with clearing the screen when the cursor is near its end.\<close>

definition draw_char :: "nat \<times> nat \<Rightarrow> u64 \<Rightarrow> u8 \<Rightarrow> view \<Rightarrow> view" where
  "draw_char g color c = (\<lambda>(x, y, pix).
     if c = 0x0A then (0, y + 20, if of_nat (snd g) - 5 \<le> y then blank g 0 else pix)
     else (x + 9, y, \<lambda>X Y.
       if on_screen g X Y \<and> unat (X - x) < 9 \<and> unat (Y - y) < 16 then
         (if glyph c (unat (X - x)) (unat (Y - y)) then ucast (EXTRACT_FG color) else ucast (EXTRACT_BG color))
       else pix X Y))"

definition draw_text :: "nat \<times> nat \<Rightarrow> u64 \<Rightarrow> u8 list \<Rightarrow> view \<Rightarrow> view" where
  "draw_text g color = fold (draw_char g color)"

definition printable :: "u8 list \<Rightarrow> bool" where
  "printable t \<longleftrightarrow> (\<forall>c \<in> set t. c = 0x0A \<or> 32 \<le> unat c \<and> unat c \<le> 126)"

definition geometry :: "'a console_state_scheme \<Rightarrow> nat \<times> nat" where
  "geometry s = (fb_w s, fb_h s)"

lemma on_screen_shown [simp]: "on_screen (geometry s) = shown s"
  by (intro ext) (simp add: on_screen_def geometry_def shown_def)

section \<open>What the console leaves alone\<close>

text \<open>The buffers it writes texts into, apart from the screen, its descriptor and the font.\<close>

definition scratch :: "'a console_state_scheme \<Rightarrow> u64 \<Rightarrow> bool" where
  "scratch s a \<longleftrightarrow> in_range (dec_buffer s) 256 a \<or> in_range (hex_buffer s) 256 a \<or> in_range (char_buffer s) 2 a"

definition display_byte :: "'a console_state_scheme \<Rightarrow> u64 \<Rightarrow> bool" where
  "display_byte s a \<longleftrightarrow> in_range (fb_base s) (screen_size s) a \<or> in_range (framebuffer s) 32 a \<or> in_range (font_data s) 1710 a"

definition con_ok :: "'a console_state_scheme \<Rightarrow> bool" where
  "con_ok s \<longleftrightarrow> fb_ok s \<and> font_loaded s \<and> (\<forall>a. scratch s a \<longrightarrow> \<not> display_byte s a)"

text \<open>All of the state but the cursor, the flag and the bytes that a predicate allows to change.\<close>

definition others :: "(u64 \<Rightarrow> bool) \<Rightarrow> 'a console_state_scheme \<Rightarrow> 'a console_state_scheme" where
  "others P s = s\<lparr>mem := (\<lambda>a. if P a then 0 else mem s a), con_x := 0, con_y := 0, con_panic := 0\<rparr>"

definition may_change :: "'a console_state_scheme \<Rightarrow> u64 \<Rightarrow> bool" where
  "may_change s a \<longleftrightarrow> visible_byte s a \<or> scratch s a"

definition kept_off :: "(u64 \<Rightarrow> bool) \<Rightarrow> 'a console_state_scheme \<Rightarrow> 'a console_state_scheme \<Rightarrow> bool" where
  "kept_off P s s' \<longleftrightarrow> others P s' = others P s"

abbreviation kept :: "'a console_state_scheme \<Rightarrow> 'a console_state_scheme \<Rightarrow> bool" where
  "kept s \<equiv> kept_off (may_change s) s"

lemma keptD:
  assumes "kept_off P s s'"
  shows "\<not> P a \<Longrightarrow> mem s' a = mem s a" "framebuffer s' = framebuffer s" "font_data s' = font_data s"
    "scratch s' = scratch s" "dec_buffer s' = dec_buffer s" "hex_buffer s' = hex_buffer s" "char_buffer s' = char_buffer s"
    "device s' = device s" "bus s' = bus s" "faulty s' = faulty s" "running_process s' = running_process s"
    "halted s' = halted s"
proof -
  have e: "others P s' = others P s" using assms by (simp add: kept_off_def)
  note c = arg_cong [OF e]
  show "mem s' a = mem s a" if "\<not> P a"
    using c [where f = "\<lambda>t. mem t a"] that by (simp add: others_def)
  show "framebuffer s' = framebuffer s" using c [where f = framebuffer] by (simp add: others_def)
  show "font_data s' = font_data s" using c [where f = font_data] by (simp add: others_def)
  show b: "dec_buffer s' = dec_buffer s" "hex_buffer s' = hex_buffer s" "char_buffer s' = char_buffer s"
    using c [where f = dec_buffer] c [where f = hex_buffer] c [where f = char_buffer] by (simp_all add: others_def)
  show "scratch s' = scratch s" by (intro ext) (simp add: scratch_def b)
  show "device s' = device s" "bus s' = bus s" "faulty s' = faulty s"
    using c [where f = device] c [where f = bus] c [where f = faulty] by (simp_all add: others_def)
  show "running_process s' = running_process s" using c [where f = running_process] by (simp add: others_def)
  show "halted s' = halted s" using c [where f = halted] by (simp add: others_def)
qed

lemma visible_display: "fb_ok s \<Longrightarrow> visible_byte s a \<Longrightarrow> display_byte s a"
  by (simp add: display_byte_def visible_in_screen)

text \<open>States with the same descriptor and font, byte for byte, are equally well formed.\<close>

lemma display_cong:
  assumes ok: "fb_ok s" and f: "framebuffer s' = framebuffer s" "font_data s' = font_data s"
    and m: "\<And>a. in_range (framebuffer s) 32 a \<or> in_range (font_data s) 1710 a \<Longrightarrow> mem s' a = mem s a"
  shows "fb_base s' = fb_base s" "screen_size s' = screen_size s" "fb_ok s'" "visible_byte s' = visible_byte s"
    "shown s' = shown s" "geometry s' = geometry s" "font_loaded s \<Longrightarrow> font_loaded s'" "off_screen s' = off_screen s"
    "pixel_addr s' = pixel_addr s" "framebuffer_get_height s' = framebuffer_get_height s"
proof -
  let ?t = "s\<lparr>mem := (\<lambda>a. if visible_byte s a then mem s a else mem s' a)\<rparr>"
  have fld: "ld64 (mem s') (framebuffer s + k) = ld64 (mem s) (framebuffer s + k)" if "unat k \<le> 24" for k
    by (rule cell64.rd_cong) (use m in_range_field_32 that in blast)
  note g = fld [of 0] fld [of 8] fld [of 16] fld [of 24]
  show b: "fb_base s' = fb_base s" "screen_size s' = screen_size s"
    using g f by (simp_all add: fb_address_def fb_height_def fb_pitch_def)
  have d: "fb_w s' = fb_w s" "fb_h s' = fb_h s" "fb_p s' = fb_p s" "fb_pitch (mem s') (framebuffer s') = fb_pitch (mem s) (framebuffer s)"
    "fb_height (mem s') (framebuffer s') = fb_height (mem s) (framebuffer s)"
    using g f by (simp_all add: fb_width_def fb_height_def fb_pitch_def fb_w_def fb_h_def fb_p_def)
  show ok': "fb_ok s'" using ok by (simp add: fb_ok_def d f b [unfolded f])
  show "visible_byte s' = visible_byte s" by (intro ext) (simp add: visible_byte_def b d)
  show sh: "shown s' = shown s" by (intro ext) (simp add: shown_def d)
  show "geometry s' = geometry s" by (simp add: geometry_def d)
  show "off_screen s' = off_screen s" by (intro ext) (simp add: shown_iff [OF ok'] shown_iff [OF ok] sh)
  show "pixel_addr s' = pixel_addr s" by (intro ext) (simp add: pixel_addr_def framebuffer_get_index_def b d)
  show "framebuffer_get_height s' = framebuffer_get_height s" by (simp add: framebuffer_get_height_def d)
  show "font_loaded s'" if "font_loaded s"
  proof -
    have "ld16 (mem s') (font_data s + 2 * of_nat i) = ld16 (mem s) (font_data s + 2 * of_nat i)"
      if "i < length DEFAULT_FONT_DATA" for i
      by (rule cell16.rd_cong) (use m font_byte [OF that] in blast)
    then show ?thesis using that f by (simp add: font_loaded_def)
  qed
qed

lemma kept_ok:
  assumes "con_ok s" "kept s s'"
  shows "con_ok s'" "visible_byte s' = visible_byte s" "shown s' = shown s" "geometry s' = geometry s"
    "may_change s' = may_change s" "framebuffer_get_height s' = framebuffer_get_height s"
proof -
  have ok: "fb_ok s" "font_loaded s" using assms(1) by (simp_all add: con_ok_def)
  note k = keptD [OF assms(2)]
  have m: "mem s' a = mem s a" if "in_range (framebuffer s) 32 a \<or> in_range (font_data s) 1710 a" for a
  proof (rule k(1))
    have "\<not> in_range (fb_base s) (screen_size s) a"
      using ok that by (auto simp: fb_ok_def dest: ranges_disjointD)
    then have "\<not> visible_byte s a" using ok visible_in_screen by blast
    moreover have "display_byte s a" using that by (auto simp: display_byte_def)
    then have "\<not> scratch s a" using assms(1) by (auto simp: con_ok_def)
    ultimately show "\<not> may_change s a" by (simp add: may_change_def)
  qed
  note d = display_cong [OF ok(1) k(2,3) m]
  show "visible_byte s' = visible_byte s" "shown s' = shown s" "geometry s' = geometry s"
    "framebuffer_get_height s' = framebuffer_get_height s" by (rule d; assumption)+
  show "may_change s' = may_change s" by (intro ext) (simp add: may_change_def d(4) k(4))
  have "display_byte s' a = display_byte s a" for a by (simp add: display_byte_def k(2,3) d(1,2) [unfolded k(2)])
  then show "con_ok s'" using assms(1) d(3) d(7) [OF _ ok(2)] by (simp add: con_ok_def k(4))
qed

lemma kept_refl: "kept_off P s s" by (simp add: kept_off_def)

lemma others_mono:
  assumes "others P s' = others P s" "\<And>a. P a \<Longrightarrow> Q a"
  shows "others Q s' = others Q s"
proof -
  have "others Q t = others Q (others P t)" for t :: "'a console_state_scheme"
    unfolding others_def using assms(2) by (auto simp: fun_eq_iff)
  then show ?thesis using assms(1) by metis
qed

lemma kept_visible: "kept_off (visible_byte s) s s' \<Longrightarrow> kept s s'"
  unfolding kept_off_def by (rule others_mono, assumption) (simp add: may_change_def)

lemma kept_trans:
  assumes "con_ok s" "kept s t" "kept t u"
  shows "kept s u"
  using assms(2,3) kept_ok(5) [OF assms(1,2)] by (simp add: kept_off_def)

lemma kept_visible_trans:
  assumes "con_ok s" "kept_off (visible_byte s) s t" "kept_off (visible_byte t) t u"
  shows "kept_off (visible_byte s) s u"
  using assms(2,3) kept_ok(2) [OF assms(1) kept_visible [OF assms(2)]] by (simp add: kept_off_def)

section \<open>Text on the screen\<close>

lemma paint_kept:
  assumes "con_ok s"
  shows "kept_off (visible_byte s) s (paint framebuffer_putpix s ps)"
proof -
  have ok: "fb_ok s" using assms by (simp add: con_ok_def)
  have o: "others (visible_byte t) (rest t) = others (visible_byte t) t" for t :: "'a console_state_scheme"
    by (auto simp: others_def rest_def fun_eq_iff)
  have v: "visible_byte (paint framebuffer_putpix s ps) = visible_byte s"
    by (rule same_screen_ok(3) [OF ok paint_same [OF ok]])
  show ?thesis
    using o [of "paint framebuffer_putpix s ps"] o [of s] screen.paint_rest [OF ok, of ps]
    by (simp add: kept_off_def v)
qed

lemma others_cursor [simp]:
  "others P (s\<lparr>con_x := x\<rparr>) = others P s" "others P (s\<lparr>con_y := y\<rparr>) = others P s"
  "others P (s\<lparr>con_panic := z\<rparr>) = others P s"
  by (simp_all add: others_def cong: if_cong)

lemma view_cursor: "getpix (s\<lparr>con_x := x\<rparr>) = getpix s" "getpix (s\<lparr>con_y := y\<rparr>) = getpix s" "getpix (s\<lparr>con_panic := z\<rparr>) = getpix s"
  by (intro ext; simp add: getpix_def off_screen_def pixel_addr_def framebuffer_get_index_def)+

lemma paint_cursor [simp]:
  "con_x (paint framebuffer_putpix s ps) = con_x s" "con_y (paint framebuffer_putpix s ps) = con_y s"
  "con_panic (paint framebuffer_putpix s ps) = con_panic s"
  by (induction ps arbitrary: s) (auto simp: framebuffer_putpix_def)

lemma paint_view:
  assumes "con_ok s"
  shows "getpix (paint framebuffer_putpix s ps) = (\<lambda>X Y. if shown s X Y then colour_at ps X Y (getpix s X Y) else 0)"
proof -
  have ok: "fb_ok s" using assms by (simp add: con_ok_def)
  show ?thesis
    by (intro ext) (simp add: screen.paint_pix [OF ok] getpix_off [OF screen.paint_ok [OF ok]] screen.paint_shown [OF ok])
qed

lemma clear_step:
  assumes "con_ok s"
  shows "\<exists>s'. framebuffer_clear s color = Some s' \<and> kept_off (visible_byte s) s s' \<and>
    con_x s' = con_x s \<and> con_y s' = con_y s \<and> con_panic s' = con_panic s \<and> getpix s' = blank (geometry s) color"
proof -
  have "fb_ok s" using assms by (simp add: con_ok_def)
  from clear_draws [OF this] obtain ps where ps: "framebuffer_clear s color = Some (paint framebuffer_putpix s ps)"
    "\<forall>X Y d. shown s X Y \<longrightarrow> colour_at ps X Y d = color" by blast
  have "getpix (paint framebuffer_putpix s ps) = blank (geometry s) color"
    using ps(2) by (auto simp: paint_view [OF assms] blank_def fun_eq_iff)
  then show ?thesis using ps(1) paint_kept [OF assms] by auto
qed

lemma newline_step:
  assumes "con_ok s"
  shows "\<exists>s'. newline s = Some s' \<and> kept_off (visible_byte s) s s' \<and> con_panic s' = con_panic s \<and>
    view s' = draw_char (geometry s) color 0x0A (view s)"
proof -
  have h: "framebuffer_get_height s = of_nat (snd (geometry s))"
    by (simp add: framebuffer_get_height_def geometry_def fb_h_def)
  obtain t where t: "framebuffer_clear s 0 = Some t" "kept_off (visible_byte s) s t" "con_y t = con_y s"
    "con_panic t = con_panic s" "getpix t = blank (geometry s) 0"
    using clear_step [OF assms, of 0] by blast
  show ?thesis
  proof (cases "framebuffer_get_height s - 5 \<le> con_y s")
    case True
    then show ?thesis using t h by (simp add: newline_def kept_off_def view_def draw_char_def view_cursor add.commute)
  next
    case False
    then show ?thesis using h by (simp add: newline_def kept_off_def view_def draw_char_def view_cursor add.commute)
  qed
qed

lemma putch_step:
  fixes color :: u64
  assumes "con_ok s" "32 \<le> unat c" "unat c \<le> 126"
  defines "t \<equiv> framebuffer_putch s (con_x s) (con_y s) c (ucast (EXTRACT_BG color)) (ucast (EXTRACT_FG color))"
  defines "s' \<equiv> t\<lparr>con_x := con_x t + FONT_WIDTH\<rparr>"
  shows "kept_off (visible_byte s) s s'" "con_panic s' = con_panic s" "view s' = draw_char (geometry s) color c (view s)"
proof -
  have ok: "fb_ok s" "font_loaded s" using assms(1) by (simp_all add: con_ok_def)
  obtain ps where ps: "t = paint framebuffer_putpix s ps"
    "\<forall>X Y d. colour_at ps X Y d = (if unat (X - con_x s) < 9 \<and> unat (Y - con_y s) < 16 then
       (if glyph c (unat (X - con_x s)) (unat (Y - con_y s)) then ucast (EXTRACT_FG color) else ucast (EXTRACT_BG color)) else d)"
    using putch_draws [OF ok assms(2,3)] unfolding t_def by blast
  show "kept_off (visible_byte s) s s'"
    using paint_kept [OF assms(1), of ps] by (simp add: s'_def ps(1) kept_off_def)
  show "con_panic s' = con_panic s" by (simp add: s'_def ps(1))
  have "c \<noteq> 0x0A" using assms(2) by auto
  then show "view s' = draw_char (geometry s) color c (view s)"
    using getpix_off [OF ok(1)] ps(2)
    by (auto simp: view_def s'_def view_cursor draw_char_def ps(1) paint_view [OF assms(1)] fun_eq_iff add.commute)
qed

lemma draw_text_simps:
  "draw_text g color [] v = v" "draw_text g color (c # cs) v = draw_text g color cs (draw_char g color c v)"
  by (simp_all add: draw_text_def)

lemma draw_text_append: "draw_text g color (t @ u) v = draw_text g color u (draw_text g color t v)"
  by (simp add: draw_text_def)

lemma string_off_kept:
  assumes "con_ok s" "kept_off (visible_byte s) s s'" "string_off s p bs"
  shows "string_off s' p bs"
proof -
  have "cstr (mem s') p bs"
    by (rule cstr_cong [of "mem s"]) (use assms(3) keptD(1) [OF assms(2)] in \<open>auto simp: string_off_def\<close>)
  then show ?thesis
    using assms(3) kept_ok(2) [OF assms(1) kept_visible [OF assms(2)]] by (simp add: string_off_def)
qed

text \<open>\<open>putstr\<close> draws the text that is stored off the screen.\<close>

lemma putstr_loop_draws:
  assumes "con_ok s" "string_off s str bs" "printable bs"
  shows "\<exists>s'. putstr_loop s str color i = Some s' \<and> kept_off (visible_byte s) s s' \<and> con_panic s' = con_panic s \<and>
    view s' = draw_text (geometry s) color (drop (unat i) bs) (view s)"
  using assms(1,2)
proof (induction "unat (of_nat (length bs) - i)" arbitrary: s i rule: less_induct)
  case less
  have cs: "cstr (mem s) str bs" using less.prems(2) by (simp add: string_off_def)
  have n: "kstrlen (mem s) str = Some (of_nat (length bs))" using kstrlen_cstr [OF cs] .
  have len: "length bs < 18446744073709551616" using cstr_length [OF cs] .
  show ?case
  proof (cases "i < of_nat (length bs)")
    case False
    then have "putstr_loop s str color i = Some s" using n by (subst putstr_loop.simps) simp
    moreover have "length bs \<le> unat i" using False len by (simp add: word_less_nat_alt unat_of_nat)
    ultimately show ?thesis by (simp add: kept_refl draw_text_simps)
  next
    case True
    note m = loop_measure [OF True]
    have i: "unat i < length bs" using True len by (simp add: word_less_nat_alt unat_of_nat)
    have c: "mem s (str + i) = bs ! unat i"
    proof -
      have "mem s (str + of_nat (unat i)) = bs ! unat i" using cs i unfolding cstr_nth by blast
      then show ?thesis by simp
    qed
    have d: "drop (unat i) bs = bs ! unat i # drop (unat (i + 1)) bs"
      using i unat_Suc_less [OF True] by (simp add: Cons_nth_drop_Suc)
    have pr: "bs ! unat i = 0x0A \<or> 32 \<le> unat (bs ! unat i) \<and> unat (bs ! unat i) \<le> 126"
      using assms(3) i by (simp add: printable_def)
    obtain t where t: "putstr_loop s str color i = putstr_loop t str color (i + 1)"
      "kept_off (visible_byte s) s t" "con_panic t = con_panic s"
      "view t = draw_char (geometry s) color (bs ! unat i) (view s)"
    proof (cases "bs ! unat i = 0x0A")
      case nl: True
      obtain t where "newline s = Some t" "kept_off (visible_byte s) s t" "con_panic t = con_panic s"
        "view t = draw_char (geometry s) color 0x0A (view s)"
        using newline_step [OF less.prems(1), of color] by blast
      then show ?thesis using nl n True c that by (subst (asm) putstr_loop.simps) simp
    next
      case nl: False
      then have "32 \<le> unat (bs ! unat i)" "unat (bs ! unat i) \<le> 126" using pr by blast+
      note st = putch_step [OF less.prems(1) this, of color]
      show ?thesis by (rule that [OF _ st], subst putstr_loop.simps) (use nl n True c in \<open>simp add: Let_def\<close>)
    qed
    have ok: "con_ok t" and g: "geometry t = geometry s"
      using kept_ok(1,4) [OF less.prems(1) kept_visible [OF t(2)]] by blast+
    obtain s' where s': "putstr_loop t str color (i + 1) = Some s'" "kept_off (visible_byte t) t s'"
      "con_panic s' = con_panic t" "view s' = draw_text (geometry t) color (drop (unat (i + 1)) bs) (view t)"
      using less.hyps [OF m ok string_off_kept [OF less.prems(1) t(2) less.prems(2)]] by blast
    have "kept_off (visible_byte s) s s'" by (rule kept_visible_trans [OF less.prems(1) t(2) s'(2)])
    then show ?thesis using t s' by (simp add: d draw_text_simps g)
  qed
qed

section \<open>Formats\<close>

text \<open>The text that a directive stands for, and a whole format; \<open>strs\<close> gives the text at an address.\<close>

definition directive_text :: "(u64 \<Rightarrow> u8 list) \<Rightarrow> u8 \<Rightarrow> u64 \<Rightarrow> u8 list" where
  "directive_text strs c w =
     (if c = 0x64 then decimal_text (sint (ucast w :: u32))
      else if c = 0x78 then hex_text (unat w)
      else if c = 0x73 then strs w
      else if c = 0x63 then (if ucast w = (0 :: u8) then [] else [ucast w])
      else [])"

definition takes_arg :: "u8 \<Rightarrow> nat" where
  "takes_arg c = (if c \<in> {0x64, 0x78, 0x73, 0x63} then 1 else 0)"

fun expand :: "(u64 \<Rightarrow> u8 list) \<Rightarrow> (nat \<Rightarrow> u64) \<Rightarrow> nat \<Rightarrow> u8 list \<Rightarrow> u8 list" where
  "expand strs args ap [] = []"
| "expand strs args ap [c] = [c]"
| "expand strs args ap (c # d # cs) =
     (if c = 0x25 then directive_text strs d (args ap) @ expand strs args (ap + takes_arg d) cs
      else c # expand strs args ap (d # cs))"

fun taken :: "u8 list \<Rightarrow> nat" where
  "taken (c # d # cs) = (if c = 0x25 then takes_arg d + taken cs else taken (d # cs))"
| "taken _ = 0"

text \<open>A format does not end in a percent sign, the strings among its arguments are readable, and no number
  among them is the least \<open>int\<close>.\<close>

fun format_ok :: "(u64 \<Rightarrow> bool) \<Rightarrow> (nat \<Rightarrow> u64) \<Rightarrow> nat \<Rightarrow> u8 list \<Rightarrow> bool" where
  "format_ok P args ap [] = True"
| "format_ok P args ap [c] = (c \<noteq> 0x25)"
| "format_ok P args ap (c # d # cs) =
     (if c = 0x25 then
        (d = 0x64 \<longrightarrow> ucast (args ap) \<noteq> (0x80000000 :: u32)) \<and> (d = 0x73 \<longrightarrow> P (args ap)) \<and>
        format_ok P args (ap + takes_arg d) cs
      else format_ok P args ap (d # cs))"

lemma expand_plain: "0x25 \<notin> set t \<Longrightarrow> expand strs args ap t = t \<and> taken t = 0 \<and> format_ok P args ap t"
proof (induction t)
  case (Cons c t)
  then show ?case by (cases t) auto
qed simp

lemma expand_plain_append:
  "0x25 \<notin> set t \<Longrightarrow> expand strs args ap (t @ c # cs) = t @ expand strs args ap (c # cs)"
  "0x25 \<notin> set t \<Longrightarrow> taken (t @ c # cs) = taken (c # cs)"
  "0x25 \<notin> set t \<Longrightarrow> format_ok P args ap (t @ c # cs) = format_ok P args ap (c # cs)"
proof (induction t rule: list.induct)
  case (Cons b t)
  {
    case 1
    then show ?case using Cons by (cases t) auto
  next
    case 2
    then show ?case using Cons by (cases t) auto
  next
    case 3
    then show ?case using Cons by (cases t) auto
  }
qed auto

lemma expand_directive:
  assumes "0x25 \<notin> set t"
  shows "expand strs args ap (t @ 0x25 # d # cs) = t @ directive_text strs d (args ap) @ expand strs args (ap + takes_arg d) cs"
    "taken (t @ 0x25 # d # cs) = takes_arg d + taken cs"
    "format_ok P args ap (t @ 0x25 # d # cs) \<longleftrightarrow>
       (d = 0x64 \<longrightarrow> ucast (args ap) \<noteq> (0x80000000 :: u32)) \<and> (d = 0x73 \<longrightarrow> P (args ap)) \<and> format_ok P args (ap + takes_arg d) cs"
  using expand_plain_append [OF assms] by simp_all

lemma length_number_text: "length (hex_text (unat (w :: u64))) < 20"
  "n \<noteq> 0x80000000 \<Longrightarrow> length (decimal_text (sint (n :: u32))) < 20"
proof -
  show "length (hex_text (unat w)) < 20"
    using length_hex_chars [of "unat w"] by (simp flip: rev_hex_chars)
  assume "n \<noteq> 0x80000000"
  from dec2str_written [OF this] show "length (decimal_text (sint n)) < 20" by (metis length_rev)
qed

text \<open>A string that can be read while the buffers and the bytes of \<open>P\<close> are being written.\<close>

definition readable :: "(u64 \<Rightarrow> bool) \<Rightarrow> 'a console_state_scheme \<Rightarrow> u64 \<Rightarrow> u8 list \<Rightarrow> bool" where
  "readable P s p t \<longleftrightarrow> cstr (mem s) p t \<and> (\<forall>i\<le>length t. \<not> P (p + of_nat i) \<and> \<not> scratch s (p + of_nat i))"

lemma char_buffer_string [simp]: "char_buffer (char_string s c) = char_buffer s"
  by (simp add: char_string_def)

text \<open>The contract of a receiver of text: \<open>area\<close> is the memory that it writes, \<open>does\<close> what a text does to
  the state.\<close>

locale sink =
  fixes ok :: "'a console_state_scheme \<Rightarrow> bool" and area :: "'a console_state_scheme \<Rightarrow> u64 \<Rightarrow> bool"
    and put :: "'a console_state_scheme \<Rightarrow> u64 \<Rightarrow> 'a console_state_scheme option"
    and does :: "'a console_state_scheme \<Rightarrow> u8 list \<Rightarrow> 'a console_state_scheme \<Rightarrow> bool"
  assumes put_does: "ok s \<Longrightarrow> cstr (mem s) p t \<Longrightarrow> \<forall>i\<le>length t. \<not> area s (p + of_nat i) \<Longrightarrow> printable t \<Longrightarrow>
      \<exists>s'. put s p = Some s' \<and> does s t s'"
    and does_scratch: "ok s \<Longrightarrow> \<forall>a. \<not> scratch s a \<longrightarrow> m a = mem s a \<Longrightarrow> does s [] (s\<lparr>mem := m\<rparr>)"
    and does_append: "ok s \<Longrightarrow> does s t s1 \<Longrightarrow> does s1 u s2 \<Longrightarrow> does s (t @ u) s2"
    and does_ok: "ok s \<Longrightarrow> does s t s' \<Longrightarrow> ok s'"
    and does_mem: "ok s \<Longrightarrow> does s t s' \<Longrightarrow> \<not> area s a \<Longrightarrow> \<not> scratch s a \<Longrightarrow> mem s' a = mem s a"
    and does_area: "ok s \<Longrightarrow> does s t s' \<Longrightarrow> area s' = area s"
    and does_scratch_area: "ok s \<Longrightarrow> does s t s' \<Longrightarrow> scratch s' = scratch s"
    and apart: "ok s \<Longrightarrow> scratch s a \<Longrightarrow> \<not> area s a"
begin

lemma readable_kept:
  assumes "ok s" "does s t s'" "readable (area s) s p u"
  shows "readable (area s') s' p u"
proof -
  have "cstr (mem s') p u"
    by (rule cstr_cong [of "mem s"]) (use assms does_mem in \<open>auto simp: readable_def\<close>)
  then show ?thesis using assms does_area does_scratch_area by (simp add: readable_def)
qed

lemma put_readable: "ok s \<Longrightarrow> readable (area s) s p t \<Longrightarrow> printable t \<Longrightarrow> \<exists>s'. put s p = Some s' \<and> does s t s'"
  by (rule put_does) (auto simp: readable_def)

lemma put_scratch:
  assumes "ok s" "\<forall>a. \<not> scratch s a \<longrightarrow> m a = mem s a" "cstr m buf t" "\<forall>i\<le>length t. scratch s (buf + of_nat i)" "printable t"
  shows "\<exists>s'. put (s\<lparr>mem := m\<rparr>) buf = Some s' \<and> does s t s'"
proof -
  note d = does_scratch [OF assms(1,2)]
  have "\<forall>i\<le>length t. \<not> area (s\<lparr>mem := m\<rparr>) (buf + of_nat i)"
    using assms(4) apart [OF assms(1)] does_area [OF assms(1) d] by simp
  then obtain s' where "put (s\<lparr>mem := m\<rparr>) buf = Some s'" "does (s\<lparr>mem := m\<rparr>) t s'"
    using put_does [OF does_ok [OF assms(1) d], of buf t] assms(3,5) by auto
  then show ?thesis using does_append [OF assms(1) d] by auto
qed

lemma put_char_string:
  assumes "ok s" "printable [c]" "c \<noteq> 0"
  shows "\<exists>s'. put (char_string s c) (char_buffer s) = Some s' \<and> does s [c] s'"
  unfolding char_string_def
proof (rule put_scratch [OF assms(1)])
  have b: "scratch s (char_buffer s)" "scratch s (char_buffer s + 1)"
    by (simp_all add: scratch_def in_range_def)
  then show "\<forall>a. \<not> scratch s a \<longrightarrow> ((mem s)(char_buffer s := c, char_buffer s + 1 := 0)) a = mem s a" by auto
  show "\<forall>i\<le>length [c]. scratch s (char_buffer s + of_nat i)" using b by (simp add: le_Suc_eq all_conj_distrib)
qed (use assms in auto)

lemma put_buffer:
  assumes "ok s" "b = dec_buffer s \<or> b = hex_buffer s" "cstr m b t" "length t < 20" "printable t"
    "\<And>a. \<not> in_range b 256 a \<Longrightarrow> m a = mem s a"
  shows "\<exists>s'. put (s\<lparr>mem := m\<rparr>) b = Some s' \<and> does s t s'"
proof (rule put_scratch [OF assms(1) _ assms(3) _ assms(5)])
  have b: "scratch s a" if "in_range b 256 a" for a using that assms(2) by (auto simp: scratch_def)
  then show "\<forall>a. \<not> scratch s a \<longrightarrow> m a = mem s a" using assms(6) by blast
  show "\<forall>i\<le>length t. scratch s (b + of_nat i)"
    using assms(4) by (auto intro!: b simp: in_range_def word_less_nat_alt unat_of_nat)
qed

lemma directive_does:
  assumes "ok s" "printable (directive_text strs d (args ap))" "d = 0x64 \<longrightarrow> ucast (args ap) \<noteq> (0x80000000 :: u32)"
    "d = 0x73 \<longrightarrow> readable (area s) s (args ap) (strs (args ap))"
  shows "\<exists>s'. directive put s d args ap = Some (ap + takes_arg d, s') \<and> does s (directive_text strs d (args ap)) s'"
proof -
  consider "d = 0x64" | "d = 0x78" | "d = 0x73" | "d = 0x63" | "d \<notin> {0x64, 0x78, 0x73, 0x63}" by blast
  then show ?thesis
  proof cases
    case 1
    then have n: "ucast (args ap) \<noteq> (0x80000000 :: u32)" using assms(3) by simp
    obtain s' where "put (s\<lparr>mem := dec2str (mem s) (dec_buffer s) (ucast (args ap))\<rparr>) (dec_buffer s) = Some s'"
      "does s (decimal_text (sint (ucast (args ap) :: u32))) s'"
      using put_buffer [OF assms(1) disjI1 [OF refl] dec2str_cstr [OF n] length_number_text(2) [OF n]] assms(2) 1
        dec2str_frame [OF n] by (fastforce simp: directive_text_def)
    then show ?thesis using 1 by (simp add: directive_def directive_text_def takes_arg_def)
  next
    case 2
    obtain s' where "put (s\<lparr>mem := hex2str (mem s) (hex_buffer s) (args ap)\<rparr>) (hex_buffer s) = Some s'"
      "does s (hex_text (unat (args ap))) s'"
      using put_buffer [OF assms(1) _ hex2str_cstr length_number_text(1)] assms(2) 2 hex2str_frame
      by (fastforce simp: directive_text_def)
    then show ?thesis using 2 by (simp add: directive_def directive_text_def takes_arg_def)
  next
    case 3
    then show ?thesis using put_readable [OF assms(1), of "args ap" "strs (args ap)"] assms(2,4)
      by (auto simp: directive_def directive_text_def takes_arg_def)
  next
    case 4
    define c where "c = (ucast (args ap) :: u8)"
    have "\<exists>s'. put (char_string s c) (char_buffer s) = Some s' \<and> does s (if c = 0 then [] else [c]) s'"
    proof (cases "c = 0")
      case True
      have b: "scratch s (char_buffer s)" "scratch s (char_buffer s + 1)" by (simp_all add: scratch_def in_range_def)
      then show ?thesis unfolding True char_string_def
        by (intro put_scratch [OF assms(1)]) (auto simp: printable_def)
    next
      case False
      then show ?thesis using put_char_string [OF assms(1)] assms(2) 4 by (simp add: directive_text_def c_def)
    qed
    then show ?thesis using 4 by (auto simp: directive_def directive_text_def takes_arg_def c_def Let_def)
  next
    case 5
    have "does s [] (s\<lparr>mem := mem s\<rparr>)" by (rule does_scratch [OF assms(1)]) simp
    then show ?thesis using 5 by (simp add: directive_def directive_text_def takes_arg_def)
  qed
qed

text \<open>Formatting hands over the expansion of the format.\<close>

lemma format_loop_does:
  assumes "ok s" "readable (area s) s ptr fmt" "format_ok (\<lambda>w. readable (area s) s w (strs w)) args ap fmt" "printable (expand strs args ap fmt)"
  shows "\<exists>s'. format_loop put s ptr args ap = Some (ap + taken fmt, s') \<and> does s (expand strs args ap fmt) s'"
  using assms
proof (induction strs args ap fmt arbitrary: s ptr rule: expand.induct)
  case (1 strs args ap)
  have "does s [] (s\<lparr>mem := mem s\<rparr>)" by (rule does_scratch [OF 1(1)]) simp
  moreover have "mem s ptr = 0" using 1(2) by (simp add: readable_def)
  ultimately show ?case by (subst format_loop.simps) simp
next
  case (2 strs args ap c)
  have c: "mem s ptr = c" "c \<noteq> 0" "mem s (ptr + 1) = 0" "c \<noteq> 0x25" using 2(2,3) by (auto simp: readable_def)
  obtain t where t: "put (char_string s c) (char_buffer s) = Some t" "does s [c] t"
    using put_char_string [OF 2(1) _ c(2)] 2(4) by auto
  have "\<not> area s (ptr + 1) \<and> \<not> scratch s (ptr + 1)" using 2(2) unfolding readable_def by force
  then have "mem t (ptr + 1) = 0" using does_mem [OF 2(1) t(2)] c(3) by simp
  then have "format_loop put t (ptr + 1) args ap = Some (ap, t)" by (subst format_loop.simps) simp
  then show ?case using c t by (subst format_loop.simps) (simp add: Let_def)
next
  case (3 strs args ap c d cs)
  have c: "mem s ptr = c" "c \<noteq> 0" "mem s (ptr + 1) = d" using 3(4) by (auto simp: readable_def)
  have tl: "readable (area s) s (ptr + 1) (d # cs)" "readable (area s) s (ptr + 2) cs"
  proof -
    have step: "readable (area s) s (q + 1) ys" if "readable (area s) s q (y # ys)" for q y ys
    proof -
      have "\<not> area s (q + 1 + of_nat i) \<and> \<not> scratch s (q + 1 + of_nat i)" if "i \<le> length ys" for i
      proof -
        have "Suc i \<le> length (y # ys)" using that by simp
        then have "\<not> area s (q + of_nat (Suc i)) \<and> \<not> scratch s (q + of_nat (Suc i))"
          using \<open>readable (area s) s q (y # ys)\<close> unfolding readable_def by blast
        then show ?thesis by (simp add: add.assoc)
      qed
      then show ?thesis using that by (simp add: readable_def)
    qed
    show 1: "readable (area s) s (ptr + 1) (d # cs)" by (rule step [OF 3(4)])
    show "readable (area s) s (ptr + 2) cs" using step [OF 1] by (simp add: add.assoc)
  qed
  have mono: "format_ok (\<lambda>w. readable (area t) t w (strs w)) args k fs"
    if "format_ok (\<lambda>w. readable (area s) s w (strs w)) args k fs" "does s u t" for t u k fs
    using that(1) by (induction fs arbitrary: k rule: taken.induct) (auto intro: readable_kept [OF 3(3) that(2)])
  show ?case
  proof (cases "c = 0x25")
    case True
    have f: "d = 0x64 \<longrightarrow> ucast (args ap) \<noteq> (0x80000000 :: u32)" "d = 0x73 \<longrightarrow> readable (area s) s (args ap) (strs (args ap))"
      "format_ok (\<lambda>w. readable (area s) s w (strs w)) args (ap + takes_arg d) cs" using 3(5) True by simp_all
    have pr: "printable (directive_text strs d (args ap))" "printable (expand strs args (ap + takes_arg d) cs)"
      using 3(6) True by (auto simp: printable_def)
    obtain t where t: "directive put s d args ap = Some (ap + takes_arg d, t)" "does s (directive_text strs d (args ap)) t"
      using directive_does [of s strs d args ap, OF 3(3) pr(1) f(1,2)] by blast
    obtain s' where s': "format_loop put t (ptr + 2) args (ap + takes_arg d) = Some (ap + takes_arg d + taken cs, s')"
      "does t (expand strs args (ap + takes_arg d) cs) s'"
      using 3(1) [OF True does_ok [OF 3(3) t(2)] readable_kept [OF 3(3) t(2) tl(2)] mono [OF f(3) t(2)] pr(2)] by blast
    then show ?thesis using t c True does_append [OF 3(3) t(2) s'(2)]
      by (subst format_loop.simps) (simp add: add.assoc Let_def)
  next
    case False
    have pr: "printable [c]" "printable (expand strs args ap (d # cs))" using 3(6) False by (auto simp: printable_def)
    obtain t where t: "put (char_string s c) (char_buffer s) = Some t" "does s [c] t"
      using put_char_string [OF 3(3) pr(1) c(2)] by auto
    have f: "format_ok (\<lambda>w. readable (area s) s w (strs w)) args ap (d # cs)" using 3(5) False by simp
    obtain s' where s': "format_loop put t (ptr + 1) args ap = Some (ap + taken (d # cs), s')"
      "does t (expand strs args ap (d # cs)) s'"
      using 3(2) [OF False does_ok [OF 3(3) t(2)] readable_kept [OF 3(3) t(2) tl(1)] mono [OF f t(2)] pr(2)] by blast
    then show ?thesis using t c False does_append [OF 3(3) t(2) s'(2)]
      by (subst format_loop.simps) (simp add: Let_def)
  qed
qed

end

section \<open>The two receivers\<close>

text \<open>The console in one colour.\<close>

definition con_does :: "u64 \<Rightarrow> 'a console_state_scheme \<Rightarrow> u8 list \<Rightarrow> 'a console_state_scheme \<Rightarrow> bool" where
  "con_does color s t s' \<longleftrightarrow> kept s s' \<and> con_panic s' = con_panic s \<and> view s' = draw_text (geometry s) color t (view s)"

lemma scratch_kept:
  assumes "con_ok s" "\<forall>a. \<not> scratch s a \<longrightarrow> m a = mem s a"
  shows "kept s (s\<lparr>mem := m\<rparr>)" "view (s\<lparr>mem := m\<rparr>) = view s"
proof -
  have ok: "fb_ok s" using assms(1) by (simp add: con_ok_def)
  have d: "m a = mem s a" if "display_byte s a" for a using assms that by (auto simp: con_ok_def)
  show "kept s (s\<lparr>mem := m\<rparr>)"
    using assms(2) by (auto simp: kept_off_def others_def may_change_def fun_eq_iff)
  have "getpix (s\<lparr>mem := m\<rparr>) X Y = getpix s X Y" for X Y
  proof (cases "shown s X Y")
    case True
    note dc = display_cong [OF ok, of "s\<lparr>mem := m\<rparr>"]
    have g: "off_screen (s\<lparr>mem := m\<rparr>) = off_screen s" "pixel_addr (s\<lparr>mem := m\<rparr>) = pixel_addr s"
      by (rule dc; use d in \<open>auto simp: display_byte_def\<close>)+
    have "ld32 m (pixel_addr s X Y) = ld32 (mem s) (pixel_addr s X Y)"
      by (rule cell32.rd_cong) (use d pixel_byte(3) [OF ok True] visible_display [OF ok] in blast)
    then show ?thesis by (simp add: getpix_def g)
  next
    case False
    have "off_screen (s\<lparr>mem := m\<rparr>) = off_screen s"
      by (rule display_cong [OF ok, of "s\<lparr>mem := m\<rparr>"]; use d in \<open>auto simp: display_byte_def\<close>)
    then show ?thesis using False by (simp add: getpix_def shown_iff [OF ok])
  qed
  then show "view (s\<lparr>mem := m\<rparr>) = view s" by (simp add: view_def fun_eq_iff)
qed

interpretation screen_text: sink con_ok visible_byte "putstr color" "con_does color" for color
proof unfold_locales
  fix s s' s1 s2 :: "'a console_state_scheme" and t u :: "u8 list" and p a :: u64 and m
  assume ok: "con_ok s"
  show "\<exists>s'. putstr color s p = Some s' \<and> con_does color s t s'"
    if "cstr (mem s) p t" "\<forall>i\<le>length t. \<not> visible_byte s (p + of_nat i)" "printable t"
    using putstr_loop_draws [OF ok _ that(3), of p color 0] that(1,2) kept_visible
    unfolding putstr_def con_does_def string_off_def by fastforce
  show "con_does color s [] (s\<lparr>mem := m\<rparr>)" if "\<forall>a. \<not> scratch s a \<longrightarrow> m a = mem s a"
    using scratch_kept [OF ok that] by (simp add: con_does_def draw_text_simps)
  show "con_does color s (t @ u) s2" if "con_does color s t s1" "con_does color s1 u s2"
    using that kept_trans [OF ok] kept_ok(4) [OF ok] by (auto simp: con_does_def draw_text_append)
  show "con_ok s'" "visible_byte s' = visible_byte s" "scratch s' = scratch s" if "con_does color s t s'"
    using that kept_ok [OF ok] keptD(4) by (auto simp: con_does_def)
  show "mem s' a = mem s a" if "con_does color s t s'" "\<not> visible_byte s a" "\<not> scratch s a"
    using that keptD(1) [of "may_change s" s s' a] by (simp add: con_does_def may_change_def)
  show "\<not> visible_byte s a" if "scratch s a"
    using ok that visible_display by (auto simp: con_ok_def)
qed

text \<open>The serial line, which takes nothing when the chip is faulty.\<close>

definition line_ok :: "'a console_state_scheme \<Rightarrow> bool" where
  "line_ok s \<longleftrightarrow> (faulty s = 0 \<longrightarrow> transmits (device s))"

definition line_does :: "'a console_state_scheme \<Rightarrow> u8 list \<Rightarrow> 'a console_state_scheme \<Rightarrow> bool" where
  "line_does s t s' \<longleftrightarrow> s' = s\<lparr>mem := mem s', bus := bus s'\<rparr> \<and> (\<forall>a. \<not> scratch s a \<longrightarrow> mem s' a = mem s a) \<and>
     (\<exists>u. bus s' = bus s @ u \<and> sent u = (if faulty s = 0 then t else []))"

lemma line_doesD:
  assumes "line_does s t s'"
  shows "scratch s' = scratch s" "faulty s' = faulty s" "device s' = device s"
proof -
  have e: "s' = s\<lparr>mem := mem s', bus := bus s'\<rparr>" using assms by (simp add: line_does_def)
  show "scratch s' = scratch s" by (subst e) (simp add: scratch_def fun_eq_iff)
  show "faulty s' = faulty s" "device s' = device s" by (subst e, simp)+
qed

interpretation line_text: sink line_ok "\<lambda>_ _. False" serial_write line_does
proof unfold_locales
  fix s s' s1 s2 :: "'a console_state_scheme" and t u :: "u8 list" and p a :: u64 and m
  assume ok: "line_ok s"
  show "\<exists>s'. serial_write s p = Some s' \<and> line_does s t s'" if c: "cstr (mem s) p t"
  proof (cases "faulty s = 0")
    case True
    then obtain u where "serial_loop s p = Some (s\<lparr>bus := bus s @ u\<rparr>)" "sent u = t"
      using serial_loop_sends [OF _ c] ok by (auto simp: line_ok_def)
    then show ?thesis using True by (simp add: serial_write_def line_does_def)
  next
    case False
    then show ?thesis by (auto simp: serial_write_def line_does_def intro: exI [of _ "[]"])
  qed
  show "line_does s [] (s\<lparr>mem := m\<rparr>)" if "\<forall>a. \<not> scratch s a \<longrightarrow> m a = mem s a"
    using that by (auto simp: line_does_def intro: exI [of _ "[]"])
  show "line_does s (t @ u) s2" if d: "line_does s t s1" "line_does s1 u s2"
  proof -
    note e = line_doesD [OF d(1)]
    obtain m1 b1 where 1: "s1 = s\<lparr>mem := m1, bus := b1\<rparr>" using d(1) unfolding line_does_def by blast
    obtain m2 b2 where "s2 = s1\<lparr>mem := m2, bus := b2\<rparr>" using d(2) unfolding line_does_def by blast
    then have "s2 = s\<lparr>mem := mem s2, bus := bus s2\<rparr>" by (simp add: 1)
    then show ?thesis using d e unfolding line_does_def by fastforce
  qed
  show "line_ok s'" if "line_does s t s'" using ok line_doesD [OF that] by (simp add: line_ok_def)
  show "scratch s' = scratch s" if "line_does s t s'" by (rule line_doesD [OF that])
  show "mem s' a = mem s a" if "line_does s t s'" "\<not> scratch s a" using that by (simp add: line_does_def)
qed simp_all

section \<open>Messages\<close>

definition prefixed :: "u8 \<Rightarrow> u8 list \<Rightarrow> bool" where
  "prefixed d t \<longleftrightarrow> take 2 t = [0x5C, d]"

definition colour :: "u8 list \<Rightarrow> u64" where
  "colour t = MAKE_FG_BG (if prefixed 0x31 t then 0xFF0000 else if prefixed 0x32 t then 0x8B8000 else 0x808080) 0"

definition body :: "u8 list \<Rightarrow> u8 list" where
  "body t = (if prefixed 0x31 t \<or> prefixed 0x32 t \<or> prefixed 0x33 t then drop 2 t else t)"

definition line_body :: "u8 list \<Rightarrow> u8 list" where
  "line_body t = (if take 1 t = [0x5C] then drop 2 t else t)"

text \<open>Where the text starts.\<close>

definition restarts :: "u8 \<Rightarrow> u8 list \<Rightarrow> bool" where
  "restarts p t \<longleftrightarrow> prefixed 0x33 t \<or> prefixed 0x31 t \<and> p = 0"

definition start_view :: "'a console_state_scheme \<Rightarrow> u8 list \<Rightarrow> view" where
  "start_view s t = (if restarts (con_panic s) t then (0, 0, blank (geometry s) 0) else view s)"

lemma readable_drop:
  assumes "readable P s p t" "length t \<ge> 2"
  shows "readable P s (p + 2) (drop 2 t)"
proof -
  obtain c d u where t: "t = c # d # u" using assms(2) by (cases t; cases "tl t") auto
  have "\<not> P (p + 2 + of_nat i) \<and> \<not> scratch s (p + 2 + of_nat i)" if "i \<le> length u" for i
  proof -
    have "i + 2 \<le> length t" using that by (simp add: t)
    then have "\<not> P (p + of_nat (i + 2)) \<and> \<not> scratch s (p + of_nat (i + 2))"
      using assms(1) unfolding readable_def by blast
    then show ?thesis by (simp add: ac_simps)
  qed
  then show ?thesis using assms(1) by (auto simp: readable_def t add.assoc)
qed

lemma readable_con_kept:
  assumes "con_ok s" "kept s s'" "readable (visible_byte s) s p t"
  shows "readable (visible_byte s') s' p t"
proof -
  have "cstr (mem s') p t"
    by (rule cstr_cong [of "mem s"]) (use assms(3) keptD(1) [OF assms(2)] in \<open>auto simp: readable_def may_change_def\<close>)
  then show ?thesis
    using assms(3) kept_ok(2) [OF assms(1,2)] keptD(4) [OF assms(2)] by (simp add: readable_def)
qed

lemma readable_weaken: "readable P s p t \<Longrightarrow> (\<And>a. Q a \<Longrightarrow> P a) \<Longrightarrow> readable Q s p t"
  by (auto simp: readable_def)

lemma format_ok_mono:
  "format_ok P args ap t \<Longrightarrow> (\<And>w. P w \<Longrightarrow> Q w) \<Longrightarrow> format_ok Q args ap t"
  by (induction t arbitrary: ap rule: taken.induct) auto

lemma console_prefix_step:
  assumes "con_ok s" "readable (visible_byte s) s fmt t"
  shows "\<exists>s' p. console_prefix s fmt = Some (colour t, p, s') \<and> kept s s' \<and> view s' = start_view s t \<and>
    con_panic s' = (if prefixed 0x31 t \<and> con_panic s = 0 then 1 else con_panic s) \<and> readable (visible_byte s') s' p (body t)"
proof -
  have cs: "cstr (mem s) fmt t" using assms(2) by (simp add: readable_def)
  have pre: "prefixed d t \<longleftrightarrow> mem s fmt = 0x5C \<and> mem s (fmt + 1) = d" if "d \<noteq> 0" for d
    using cs that by (cases t; cases "tl t") (auto simp: prefixed_def)
  obtain u where u: "framebuffer_clear s 0 = Some u" "kept_off (visible_byte s) s u" "con_panic u = con_panic s"
    "getpix u = blank (geometry s) 0" using clear_step [OF assms(1), of 0] by blast
  define clr where "clr = restarts (con_panic s) t"
  define s1 where "s1 = (if \<not> clr then s else if prefixed 0x31 t then (reset_pos u)\<lparr>con_panic := 1\<rparr> else reset_pos u)"
  have k: "kept s s1"
    using kept_visible [OF u(2)] kept_refl by (simp add: s1_def reset_pos_def kept_off_def)
  have v: "view s1 = start_view s t"
    using u(4) by (simp add: s1_def start_view_def clr_def view_def reset_pos_def view_cursor)
  have p: "con_panic s1 = (if prefixed 0x31 t \<and> con_panic s = 0 then 1 else con_panic s)"
    using u(3) by (auto simp: s1_def clr_def restarts_def reset_pos_def pre)
  define q where "q = (if prefixed 0x31 t \<or> prefixed 0x32 t \<or> prefixed 0x33 t then fmt + 2 else fmt)"
  have r: "readable (visible_byte s1) s1 q (body t)"
  proof (rule readable_con_kept [OF assms(1) k])
    have "2 \<le> length t" if "prefixed d t" for d using that by (cases t; cases "tl t") (auto simp: prefixed_def)
    then show "readable (visible_byte s) s q (body t)"
      using assms(2) readable_drop [OF assms(2)] by (auto simp: q_def body_def)
  qed
  have "console_prefix s fmt = Some (colour t, q, s1)"
    using u(1) by (auto simp: console_prefix_def colour_def q_def s1_def clr_def restarts_def pre Let_def)
  then show ?thesis using k v p r by blast
qed

lemma console_write_step:
  assumes "con_ok s" "readable (visible_byte s) s fmt t"
    "format_ok (\<lambda>w. readable (visible_byte s) s w (strs w)) args ap (body t)" "printable (expand strs args ap (body t))"
  shows "\<exists>s'. console_write s fmt args ap = Some (ap + taken (body t), s') \<and> kept s s' \<and>
    view s' = draw_text (geometry s) (colour t) (expand strs args ap (body t)) (start_view s t) \<and>
    con_panic s' = (if prefixed 0x31 t \<and> con_panic s = 0 then 1 else con_panic s)"
proof -
  obtain s1 p where s1: "console_prefix s fmt = Some (colour t, p, s1)" "kept s s1" "view s1 = start_view s t"
    "con_panic s1 = (if prefixed 0x31 t \<and> con_panic s = 0 then 1 else con_panic s)"
    "readable (visible_byte s1) s1 p (body t)"
    using console_prefix_step [OF assms(1,2)] by blast
  note ok = kept_ok [OF assms(1) s1(2)]
  have f: "format_ok (\<lambda>w. readable (visible_byte s1) s1 w (strs w)) args ap (body t)"
    by (rule format_ok_mono [OF assms(3)]) (rule readable_con_kept [OF assms(1) s1(2)])
  obtain s' where "format_loop (putstr (colour t)) s1 p args ap = Some (ap + taken (body t), s')"
    "con_does (colour t) s1 (expand strs args ap (body t)) s'"
    using screen_text.format_loop_does [OF ok(1) s1(5) f assms(4)] by blast
  then show ?thesis
    using s1 kept_trans [OF assms(1) s1(2)] ok(4) by (auto simp: console_write_def con_does_def)
qed

lemma serial_log_step:
  assumes "line_ok s" "readable (\<lambda>_. False) s fmt t" "t \<noteq> [0x5C]"
    "format_ok (\<lambda>w. readable (\<lambda>_. False) s w (strs w)) args ap (line_body t)" "printable (expand strs args ap (line_body t))"
  shows "\<exists>s'. serial_log s fmt args ap = Some (ap + taken (line_body t), s') \<and>
    line_does s (expand strs args ap (line_body t)) s'"
proof -
  have "readable (\<lambda>_. False) s (if mem s fmt = 0x5C then fmt + 2 else fmt) (line_body t)"
  proof (cases "take 1 t = [0x5C]")
    case True
    then have "mem s fmt = 0x5C" "2 \<le> length t"
      using assms(2,3) by (cases t; cases "tl t"; auto simp: readable_def)+
    then show ?thesis using True readable_drop [OF assms(2)] by (simp add: line_body_def)
  next
    case False
    then have "mem s fmt \<noteq> 0x5C" using assms(2) by (cases t) (auto simp: readable_def)
    then show ?thesis using False assms(2) by (simp add: line_body_def)
  qed
  from line_text.format_loop_does [OF assms(1) this assms(4,5)] show ?thesis by (simp add: serial_log_def)
qed

text \<open>Both receivers one after the other, the second with what the first has left of the arguments.\<close>

lemma printk_step:
  assumes "con_ok s" "line_ok s" "readable (visible_byte s) s fmt t" "body t = line_body t"
    "format_ok (\<lambda>w. readable (visible_byte s) s w (strs w)) args 0 (body t)" "printable (expand strs args 0 (body t))"
    "format_ok (\<lambda>w. readable (visible_byte s) s w (strs w)) args (taken (body t)) (body t)"
    "printable (expand strs args (taken (body t)) (body t))"
  shows "\<exists>s'. printk s fmt args = Some s' \<and>
    view s' = draw_text (geometry s) (colour t) (expand strs args 0 (body t)) (start_view s t) \<and>
    sent (bus s') = sent (bus s) @ (if faulty s = 0 then expand strs args (taken (body t)) (body t) else []) \<and>
    kept s (s'\<lparr>bus := bus s\<rparr>) \<and> con_panic s' = (if prefixed 0x31 t \<and> con_panic s = 0 then 1 else con_panic s)"
proof -
  obtain s1 where s1: "console_write s fmt args 0 = Some (taken (body t), s1)" "kept s s1"
    "view s1 = draw_text (geometry s) (colour t) (expand strs args 0 (body t)) (start_view s t)"
    "con_panic s1 = (if prefixed 0x31 t \<and> con_panic s = 0 then 1 else con_panic s)"
    using console_write_step [OF assms(1,3,5,6)] by auto
  note ok = kept_ok [OF assms(1) s1(2)] and kd = keptD [OF s1(2)]
  have rd: "readable (\<lambda>_. False) s1 p u" if "readable (visible_byte s) s p u" for p u
    using readable_con_kept [OF assms(1) s1(2) that] by (rule readable_weaken) simp
  have "line_ok s1" using assms(2) by (simp add: line_ok_def kd)
  moreover have "t \<noteq> [0x5C]" using assms(4) by (auto simp: body_def line_body_def prefixed_def)
  ultimately obtain s2 where s2: "serial_log s1 fmt args (taken (body t)) = Some (taken (body t) + taken (body t), s2)"
    "line_does s1 (expand strs args (taken (body t)) (body t)) s2"
    using serial_log_step [of s1 fmt t strs args "taken (body t)"] rd [OF assms(3)] format_ok_mono [OF assms(7) rd]
      assms(4,8) by auto
  have m: "\<forall>a. \<not> scratch s1 a \<longrightarrow> mem s2 a = mem s1 a" using s2(2) by (simp add: line_does_def)
  note sk = scratch_kept [OF ok(1) m]
  have e: "s2 = (s1\<lparr>mem := mem s2\<rparr>)\<lparr>bus := bus s2\<rparr>" using s2(2) by (simp add: line_does_def)
  have "view s2 = view (s1\<lparr>mem := mem s2\<rparr>)"
    by (subst e) (simp add: view_def getpix_def off_screen_def pixel_addr_def framebuffer_get_index_def fun_eq_iff)
  then have v: "view s2 = view s1" using sk(2) by simp
  have "s2\<lparr>bus := bus s\<rparr> = s1\<lparr>mem := mem s2\<rparr>" by (subst e) (simp flip: kd(9))
  then have k: "kept s (s2\<lparr>bus := bus s\<rparr>)" using kept_trans [OF assms(1) s1(2)] sk(1) by simp
  have "con_panic s2 = con_panic s1" by (subst e) simp
  moreover have "sent (bus s2) = sent (bus s) @ (if faulty s = 0 then expand strs args (taken (body t)) (body t) else [])"
    using s2(2) by (auto simp: line_does_def kd)
  ultimately show ?thesis using s1 s2(1) v k by (simp add: printk_def)
qed

section \<open>Claims\<close>

text \<open>C17: A message whose format, string arguments and numbers are well formed is displayed: \<open>printk\<close> returns,
  the screen then shows the expansion of the format in the colour of its prefix, at the cursor or, for the
  first panic and the clearing prefix, on an empty screen, and nothing but visible pixels, the cursor, the
  panic flag, the scratch buffers and the trace of ports has changed.  The serial line receives the expansion of
  the same format over the arguments that follow those the console has consumed.\<close>

theorem printk_correct:
  assumes "con_ok s" "line_ok s" "readable (visible_byte s) s fmt t" "body t = line_body t"
    "format_ok (\<lambda>w. readable (visible_byte s) s w (strs w)) args 0 (body t)" "printable (expand strs args 0 (body t))"
    "format_ok (\<lambda>w. readable (visible_byte s) s w (strs w)) args (taken (body t)) (body t)"
    "printable (expand strs args (taken (body t)) (body t))"
  shows "\<exists>s'. printk s fmt args = Some s' \<and>
    view s' = draw_text (geometry s) (colour t) (expand strs args 0 (body t)) (start_view s t) \<and>
    sent (bus s') = sent (bus s) @ (if faulty s = 0 then expand strs args (taken (body t)) (body t) else []) \<and>
    kept s (s'\<lparr>bus := bus s\<rparr>) \<and> con_panic s' = (if prefixed 0x31 t \<and> con_panic s = 0 then 1 else con_panic s)"
  using assms by (rule printk_step)

text \<open>A machine with the screen of twenty by twenty pixels, and a message at 0x6000.\<close>

definition con_mem :: "u8 list \<Rightarrow> memory" where
  "con_mem t a = (if 0x30000 \<le> unat a then screen_mem a
     else let i = unat (a - 0x6000) in if i < length t then t ! i else 0)"

definition con_machine :: "u8 list \<Rightarrow> console_state" where
  "con_machine t = proc_state.extend (two_processes\<lparr>mem := con_mem t\<rparr>) (console_state.fields 0 0 0 False 0x7000 0x7200 0x7400)"

lemma con_machine_fields:
  "mem (con_machine t) = con_mem t" "framebuffer (con_machine t) = 0x30000" "font_data (con_machine t) = 0x40000"
  "dec_buffer (con_machine t) = 0x7000" "hex_buffer (con_machine t) = 0x7200" "char_buffer (con_machine t) = 0x7400"
  "device (con_machine t) = third_poll" "faulty (con_machine t) = 0" "bus (con_machine t) = []" "con_panic (con_machine t) = 0"
  "running_process (con_machine t) = 0x10000" "con_x (con_machine t) = 0" "con_y (con_machine t) = 0" "halted (con_machine t) = False"
  by (simp_all add: con_machine_def two_processes_def gdt_machine_def idt_machine_def acpi_machine_def screen_machine_def
      serial_machine_def proc_state.defs console_state.defs tss_state.defs idt_state.defs apic_state.defs acpi_state.defs fb_state.defs
      io_state.defs tmpfs_state.defs)

lemma con_mem_screen: "0x30000 \<le> unat a \<Longrightarrow> con_mem t a = screen_mem a"
  by (simp add: con_mem_def)

lemma con_mem_at: "unat n \<le> 0x1000000 \<Longrightarrow> in_range (0x30000 + n) k a \<Longrightarrow> unat k \<le> 0x1000000 \<Longrightarrow> con_mem t a = screen_mem a"
  by (rule con_mem_screen) (subst (asm) in_range_linear; simp add: unat_word_ariths)

lemma con_geometry:
  "fb_base (con_machine t) = 0x50000" "screen_size (con_machine t) = 20 * 84" "fb_w (con_machine t) = 20"
  "fb_h (con_machine t) = 20" "fb_p (con_machine t) = 84"
proof -
  have e: "ld64 (con_mem t) (0x30000 + k) = ld64 screen_mem (0x30000 + k)" if "unat k \<le> 24" for k
  proof (rule cell64.rd_cong)
    fix a assume a: "in_range (0x30000 + k) 8 a"
    have "unat k \<le> 0x1000000" using that by simp
    then show "con_mem t a = screen_mem a" by (rule con_mem_at [OF _ a]) simp
  qed
  show "fb_base (con_machine t) = 0x50000" "screen_size (con_machine t) = 20 * 84" "fb_w (con_machine t) = 20"
    "fb_h (con_machine t) = 20" "fb_p (con_machine t) = 84"
    using e [of 0] e [of 8] e [of 16] e [of 24] screen_geometry
    by (simp_all add: screen_machine_fields con_machine_fields fb_address_def fb_width_def fb_height_def fb_pitch_def
        fb_w_def fb_h_def fb_p_def)
qed

lemma con_machine_ok: "con_ok (con_machine t)"
proof -
  have "fb_ok (con_machine t)"
    unfolding fb_ok_def con_geometry by (simp add: con_machine_fields ranges_disjoint_def)
  moreover have "font_loaded (con_machine t)"
  proof -
    have "ld16 (con_mem t) (0x40000 + 2 * of_nat i) = ld16 screen_mem (0x40000 + 2 * of_nat i)" if "i < 855" for i
    proof (rule cell16.rd_cong)
      fix a assume a: "in_range (0x40000 + 2 * of_nat i) 2 a"
      have "unat (0x10000 + 2 * of_nat i :: u64) \<le> 0x1000000" using that by (simp add: unat_word_ariths unat_of_nat)
      moreover have "in_range (0x30000 + (0x10000 + 2 * of_nat i)) 2 a" using a by (simp add: add.assoc [symmetric])
      ultimately show "con_mem t a = screen_mem a" by (rule con_mem_at) simp
    qed
    then show ?thesis using screen_font by (simp add: font_loaded_def con_machine_fields screen_machine_fields length_font)
  qed
  moreover have "\<not> display_byte (con_machine t) a" if "scratch (con_machine t) a" for a
  proof -
    have "unat a < 0x7402" using that unfolding scratch_def con_machine_fields
      by (elim disjE) (subst (asm) in_range_linear; simp)+
    then have "\<not> 0x30000 \<le> unat a" by simp
    then show ?thesis
      unfolding display_byte_def con_geometry unfolding con_machine_fields
      by (intro notI, elim disjE) (subst (asm) in_range_linear; simp)+
  qed
  ultimately show ?thesis by (simp add: con_ok_def)
qed

lemma con_machine_line: "line_ok (con_machine t)"
  by (simp add: line_ok_def con_machine_fields third_poll_transmits)

lemma con_machine_readable:
  assumes "0 \<notin> set t" "length t < 0x1000"
  shows "readable (visible_byte (con_machine t)) (con_machine t) 0x6000 t"
proof -
  have n: "unat (0x6000 + of_nat i :: u64) = 0x6000 + i" "unat (of_nat i :: u64) = i" if "i \<le> length t" for i
    using that assms(2) by (simp_all add: unat_word_ariths unat_of_nat)
  have m: "con_mem t (0x6000 + of_nat i) = (if i < length t then t ! i else 0)" if "i \<le> length t" for i
    using n [OF that] that assms(2) by (simp add: con_mem_def)
  then have "cstr (con_mem t) 0x6000 t" unfolding cstr_nth using assms(1) by (metis le_refl less_imp_le nth_mem less_irrefl)
  moreover have "\<not> visible_byte (con_machine t) (0x6000 + of_nat i) \<and> \<not> scratch (con_machine t) (0x6000 + of_nat i)"
    if "i \<le> length t" for i
  proof
    have "fb_ok (con_machine t)" using con_machine_ok by (simp add: con_ok_def)
    moreover have "\<not> in_range 0x50000 (20 * 84) (0x6000 + of_nat i :: u64)"
      using n [OF that] that assms(2) by (subst in_range_linear) simp_all
    ultimately show "\<not> visible_byte (con_machine t) (0x6000 + of_nat i)"
      using visible_in_screen con_geometry(1,2) by metis
    show "\<not> scratch (con_machine t) (0x6000 + of_nat i)"
      unfolding scratch_def con_machine_fields using n [OF that] that assms(2) by (simp add: in_range_linear)
  qed
  ultimately show ?thesis by (simp add: readable_def con_machine_fields)
qed

text \<open>A number: the screen shows the argument, the serial line the value after it.\<close>

theorem printk_correct_witness:
  "\<exists>s'. printk (con_machine (ascii ''%d'')) 0x6000 (\<lambda>i. of_nat i + 7) = Some s' \<and>
    view s' = draw_text (20, 20) (colour (ascii ''%d'')) (ascii ''7'') (view (con_machine (ascii ''%d''))) \<and>
    sent (bus s') = ascii ''8''"
proof -
  have t: "ascii ''%d'' = [0x25, 0x64]" "body [0x25, 0x64] = [0x25, 0x64]" "line_body [0x25, 0x64] = [0x25, 0x64]"
    "taken [0x25, 0x64] = 1" "\<not> prefixed d [0x25, 0x64]" for d
    by (simp_all add: ascii_def body_def line_body_def prefixed_def takes_arg_def)
  have d: "decimal_text 7 = [0x37]" "decimal_text 8 = [0x38]" "ascii ''7'' = [0x37]" "ascii ''8'' = [0x38]"
    by (simp_all add: decimal_text_def low_digits.simps ascii_def)
  have x: "expand strs (\<lambda>i. of_nat i + 7) 0 [0x25, 0x64] = [0x37]" "expand strs (\<lambda>i. of_nat i + 7) 1 [0x25, 0x64] = [0x38]" for strs
    by (simp_all add: directive_text_def d)
  have pr: "printable [0x37]" "printable [0x38]" by (simp_all add: printable_def)
  have r: "readable (visible_byte (con_machine [0x25, 0x64])) (con_machine [0x25, 0x64]) 0x6000 [0x25, 0x64]"
    by (rule con_machine_readable) simp_all
  have g: "geometry (con_machine [0x25, 0x64]) = (20, 20)" by (simp add: geometry_def con_geometry)
  have st: "start_view (con_machine [0x25, 0x64]) [0x25, 0x64] = view (con_machine [0x25, 0x64])"
    by (simp add: start_view_def restarts_def t)
  show ?thesis
    using printk_correct [OF con_machine_ok con_machine_line r, of "\<lambda>_. []" "\<lambda>i. of_nat i + 7"]
    unfolding t x d g st by (auto simp: t x pr con_machine_fields)
qed

text \<open>A screen that is full stays so: the cursor never returns to its top, so that no text is visible any
  more, and every line break clears the screen again.\<close>

theorem text_below_screen:
  assumes "snd g \<le> unat y" "unat y + 20 * length t + 16 < 4294967296" "5 \<le> snd g"
  shows "snd (snd (draw_text g color t (x, y, pix))) = (if 0x0A \<in> set t then blank g 0 else pix)"
  using assms
proof (induction t arbitrary: x y pix)
  case Nil
  then show ?case by (simp add: draw_text_simps)
next
  case (Cons c t)
  have y20: "unat (y + 20) = unat y + 20" using Cons.prems by (simp add: unat_word_ariths)
  show ?case
  proof (cases "c = 0x0A")
    case True
    have "of_nat (snd g) - 5 \<le> y"
      using Cons.prems by (simp add: word_le_nat_alt unat_sub unat_of_nat)
    then have "draw_char g color c (x, y, pix) = (0, y + 20, blank g 0)" by (simp add: draw_char_def True)
    moreover have "snd (snd (draw_text g color t (0, y + 20, blank g 0))) = blank g 0"
      using Cons.IH [of "y + 20" 0 "blank g 0"] Cons.prems y20 by simp
    ultimately show ?thesis by (simp add: draw_text_simps True)
  next
    case False
    have "\<not> (on_screen g X Y \<and> unat (Y - y) < 16)" for X Y
    proof
      assume *: "on_screen g X Y \<and> unat (Y - y) < 16"
      then have "unat Y < unat y" using Cons.prems(1) by (simp add: on_screen_def)
      then have "unat (Y - y) = 4294967296 + unat Y - unat y" by (simp add: unat_sub_if')
      then have "4294967296 + unat Y - unat y < 16" using * by simp
      moreover have "unat y < 4294967280" using Cons.prems(2) by simp
      ultimately show False by arith
    qed
    then have "draw_char g color c (x, y, pix) = (x + 9, y, pix)" using False by (auto simp: draw_char_def fun_eq_iff)
    then show ?thesis using Cons.IH [of y "x + 9" pix] Cons.prems False by (simp add: draw_text_simps)
  qed
qed

end
