(* ===== verification/Trap.thy ===== *)
theory Trap
  imports Console
begin

text \<open>
  \<open>sys/src/intr/exceptions.c\<close>, \<open>sys/src/intr/syscall.c\<close> and \<open>sys/src/intr/trap.c\<close>: what happens
  on an exception, on the timer interrupt and on a system call.

  An exception handler prints a message with the PID of the running process and halts.  The address
  of a string literal is given by \<open>lit\<close>; \<open>junk\<close> is what the argument registers and the stack hold
  where no argument was passed.  A system call that starts a program leaves the kernel and does not come
  back to \<open>trap\<close>: the result is then the address and the stack that the program starts with.
\<close>

section \<open>Exceptions\<close>

text \<open>\<open>PRINTK_PANIC\<close>, the text and a line break; the arguments are the PID and what follows it.\<close>

definition PRINTK_PANIC :: "u8 list" where "PRINTK_PANIC = [0x5C, 0x31]"

definition panic_text :: "string \<Rightarrow> u8 list" where
  "panic_text msg = PRINTK_PANIC @ ascii msg @ [0x0A]"

definition pass :: "u64 list \<Rightarrow> (nat \<Rightarrow> u64) \<Rightarrow> nat \<Rightarrow> u64" where
  "pass vs junk i = (if i < length vs then vs ! i else junk i)"

definition running_pid :: "'a console_state_scheme \<Rightarrow> u64" where
  "running_pid s = ucast (p_pid (mem s) (running_process s))"

definition INTR_END :: "'a console_state_scheme \<Rightarrow> 'a console_state_scheme" where
  "INTR_END s = s\<lparr>halted := True\<rparr>"

definition vec0 :: "(u8 list \<Rightarrow> u64) \<Rightarrow> (nat \<Rightarrow> u64) \<Rightarrow> 'a console_state_scheme \<Rightarrow> 'a console_state_scheme option" where
  "vec0 lit junk s = do {
     s \<leftarrow> printk s (lit (panic_text ''kpanic: Divison by zero (PID %d)'')) (pass [running_pid s] junk);
     Some (INTR_END s)
   }"

definition vec1 :: "(u8 list \<Rightarrow> u64) \<Rightarrow> (nat \<Rightarrow> u64) \<Rightarrow> 'a console_state_scheme \<Rightarrow> 'a console_state_scheme option" where
  "vec1 lit junk s = do {
     s \<leftarrow> printk s (lit (panic_text ''kpanic: Debug exception (PID %d).'')) (pass [running_pid s] junk);
     Some (INTR_END s)
   }"

definition vec3 :: "(u8 list \<Rightarrow> u64) \<Rightarrow> (nat \<Rightarrow> u64) \<Rightarrow> 'a console_state_scheme \<Rightarrow> 'a console_state_scheme option" where
  "vec3 lit junk s = do {
     s \<leftarrow> printk s (lit (panic_text ''kpanic: Breakpoint (PID %d).'')) (pass [running_pid s] junk);
     Some (INTR_END s)
   }"

definition vec4 :: "(u8 list \<Rightarrow> u64) \<Rightarrow> (nat \<Rightarrow> u64) \<Rightarrow> 'a console_state_scheme \<Rightarrow> 'a console_state_scheme option" where
  "vec4 lit junk s = do {
     s \<leftarrow> printk s (lit (panic_text ''kpanic: Overflow (PID %d).'')) (pass [running_pid s] junk);
     Some (INTR_END s)
   }"

definition vec5 :: "(u8 list \<Rightarrow> u64) \<Rightarrow> (nat \<Rightarrow> u64) \<Rightarrow> 'a console_state_scheme \<Rightarrow> 'a console_state_scheme option" where
  "vec5 lit junk s = do {
     s \<leftarrow> printk s (lit (panic_text ''kpanic: BOUND range exceeded (PID %d).'')) (pass [running_pid s] junk);
     Some (INTR_END s)
   }"

definition vec6 :: "(u8 list \<Rightarrow> u64) \<Rightarrow> (nat \<Rightarrow> u64) \<Rightarrow> 'a console_state_scheme \<Rightarrow> 'a console_state_scheme option" where
  "vec6 lit junk s = do {
     s \<leftarrow> printk s (lit (panic_text ''kpanic: Undefined opcode (PID %d).'')) (pass [running_pid s] junk);
     Some (INTR_END s)
   }"

definition vec8 :: "(u8 list \<Rightarrow> u64) \<Rightarrow> (nat \<Rightarrow> u64) \<Rightarrow> 'a console_state_scheme \<Rightarrow> 'a console_state_scheme option" where
  "vec8 lit junk s = do {
     s \<leftarrow> printk s (lit (panic_text ''kpanic: Double fault (PID %d)'')) (pass [running_pid s] junk);
     Some (INTR_END (kpanic s))
   }"

definition vec10 :: "(u8 list \<Rightarrow> u64) \<Rightarrow> (nat \<Rightarrow> u64) \<Rightarrow> 'a console_state_scheme \<Rightarrow> 'a console_state_scheme option" where
  "vec10 lit junk s = do {
     s \<leftarrow> printk s (lit (panic_text ''kpanic: Invalid TSS (PID %d)'')) (pass [running_pid s] junk);
     Some (INTR_END s)
   }"

definition vec11 :: "(u8 list \<Rightarrow> u64) \<Rightarrow> (nat \<Rightarrow> u64) \<Rightarrow> 'a console_state_scheme \<Rightarrow> 'a console_state_scheme option" where
  "vec11 lit junk s = do {
     s \<leftarrow> printk s (lit (panic_text ''kpanic: Segment not present (PID %d).'')) (pass [running_pid s] junk);
     Some (INTR_END s)
   }"

definition vec12 :: "(u8 list \<Rightarrow> u64) \<Rightarrow> (nat \<Rightarrow> u64) \<Rightarrow> 'a console_state_scheme \<Rightarrow> 'a console_state_scheme option" where
  "vec12 lit junk s = do {
     s \<leftarrow> printk s (lit (panic_text ''kpanic: Stack segment fault (PID %d).'')) (pass [running_pid s] junk);
     Some (INTR_END s)
   }"

definition vec13 :: "(u8 list \<Rightarrow> u64) \<Rightarrow> (nat \<Rightarrow> u64) \<Rightarrow> 'a console_state_scheme \<Rightarrow> 'a console_state_scheme option" where
  "vec13 lit junk s = do {
     s \<leftarrow> printk s (lit (panic_text ''kpanic: Privilege violation (PID %d).'')) (pass [running_pid s] junk);
     Some (INTR_END s)
   }"

text \<open>\<open>cr2\<close> is the address that faulted.\<close>

definition vec14 ::
    "(u8 list \<Rightarrow> u64) \<Rightarrow> (nat \<Rightarrow> u64) \<Rightarrow> u64 \<Rightarrow> 'a console_state_scheme \<Rightarrow> 'a console_state_scheme option" where
  "vec14 lit junk cr2 s = do {
     s \<leftarrow> printk s (lit (panic_text ''kpanic: Memory access violation at %x (PID %d)'')) (pass [cr2, running_pid s] junk);
     Some (INTR_END s)
   }"

section \<open>System calls\<close>

abbreviation MAX_SYSCALLS :: u64 where "MAX_SYSCALLS \<equiv> 3"
abbreviation DRIVER_FRAMEBUFFER :: u64 where "DRIVER_FRAMEBUFFER \<equiv> 1"

definition tf_rdi :: "memory \<Rightarrow> u64 \<Rightarrow> u64" where "tf_rdi m tf = ld64 m tf"
definition tf_rsi :: "memory \<Rightarrow> u64 \<Rightarrow> u64" where "tf_rsi m tf = ld64 m (tf + 8)"
definition tf_rbx :: "memory \<Rightarrow> u64 \<Rightarrow> u64" where "tf_rbx m tf = ld64 m (tf + 16)"
definition tf_rdx :: "memory \<Rightarrow> u64 \<Rightarrow> u64" where "tf_rdx m tf = ld64 m (tf + 24)"
definition tf_rcx :: "memory \<Rightarrow> u64 \<Rightarrow> u64" where "tf_rcx m tf = ld64 m (tf + 32)"
definition tf_rax :: "memory \<Rightarrow> u64 \<Rightarrow> u64" where "tf_rax m tf = ld64 m (tf + 40)"
definition tf_r8 :: "memory \<Rightarrow> u64 \<Rightarrow> u64" where "tf_r8 m tf = ld64 m (tf + 48)"
definition tf_r9 :: "memory \<Rightarrow> u64 \<Rightarrow> u64" where "tf_r9 m tf = ld64 m (tf + 56)"
definition tf_r10 :: "memory \<Rightarrow> u64 \<Rightarrow> u64" where "tf_r10 m tf = ld64 m (tf + 64)"
definition tf_r11 :: "memory \<Rightarrow> u64 \<Rightarrow> u64" where "tf_r11 m tf = ld64 m (tf + 72)"
definition tf_r12 :: "memory \<Rightarrow> u64 \<Rightarrow> u64" where "tf_r12 m tf = ld64 m (tf + 80)"
definition tf_r13 :: "memory \<Rightarrow> u64 \<Rightarrow> u64" where "tf_r13 m tf = ld64 m (tf + 88)"
definition tf_trapno :: "memory \<Rightarrow> u64 \<Rightarrow> u64" where "tf_trapno m tf = ld64 m (tf + 144)"
definition set_rax :: "u64 \<Rightarrow> u64 \<Rightarrow> memory \<Rightarrow> memory" where "set_rax tf v m = st64 m (tf + 40) v"

datatype 's outcome = Returns u64 's | Enters u64 u64 's

text \<open>The console is handed a \<open>va_list\<close> that nobody has initialised.\<close>

definition sys_conout :: "(nat \<Rightarrow> u64) \<Rightarrow> 'a console_state_scheme \<Rightarrow> u64 \<Rightarrow> 'a console_state_scheme option" where
  "sys_conout junk s tf =
     (let str = tf_rbx (mem s) tf
      in if str < prog_start (p_img (mem s) (running_process s)) \<or> prog_end (p_img (mem s) (running_process s)) < str then Some s
      else do { (_, s) \<leftarrow> console_write s str junk 0; Some s })"

definition ioctl_args :: "memory \<Rightarrow> u64 \<Rightarrow> nat \<Rightarrow> u64" where
  "ioctl_args m tf i =
     (let l = [tf_rdx m tf, tf_rsi m tf, tf_rdi m tf, tf_r8 m tf, tf_r9 m tf, tf_r10 m tf, tf_r11 m tf, tf_r12 m tf, tf_r13 m tf]
      in if i < length l then l ! i else 0)"

definition sys_ioctl :: "'a console_state_scheme \<Rightarrow> u64 \<Rightarrow> 'a console_state_scheme option" where
  "sys_ioctl s tf =
     (let args = ioctl_args (mem s) tf
      in if tf_rbx (mem s) tf = DRIVER_FRAMEBUFFER then
           do { (r, s) \<leftarrow> framebuffer_ioctl s (tf_rcx (mem s) tf) args; Some (s\<lparr>mem := set_rax tf r (mem s)\<rparr>) }
         else Some s)"

definition sys_launch ::
    "u64 \<Rightarrow> 'a console_state_scheme \<Rightarrow> u64 \<Rightarrow> (u64 \<times> u64 \<times> 'a console_state_scheme) option" where
  "sys_launch initrd_lit s tf = launch_exec initrd_lit s (tf_rbx (mem s) tf)"

definition syscall_table ::
    "u64 \<Rightarrow> (nat \<Rightarrow> u64) \<Rightarrow> ('a console_state_scheme \<Rightarrow> u64 \<Rightarrow> 'a console_state_scheme outcome option) list" where
  "syscall_table initrd_lit junk =
     [\<lambda>s tf. map_option (Returns 0) (sys_conout junk s tf),
      \<lambda>s tf. map_option (Returns 0) (sys_ioctl s tf),
      \<lambda>s tf. map_option (\<lambda>(rip, rsp, s). Enters rip rsp s) (sys_launch initrd_lit s tf)]"

definition trap ::
    "u64 \<Rightarrow> (nat \<Rightarrow> u64) \<Rightarrow> 'a console_state_scheme \<Rightarrow> u64 \<Rightarrow> 'a console_state_scheme outcome option" where
  "trap initrd_lit junk s tf =
     (if tf_trapno (mem s) tf = 0x20 then Some (Returns tf (task_sched s tf))
      else if tf_trapno (mem s) tf = 0x80 then
        (if MAX_SYSCALLS \<le> tf_rax (mem s) tf then Some (Returns 0 s)
         else (syscall_table initrd_lit junk ! unat (tf_rax (mem s) tf)) s tf)
      else Some (Returns 0 s))"

section \<open>What the handlers print\<close>

lemma ascii_append: "ascii (s @ t) = ascii s @ ascii t" by (simp add: ascii_def)

lemma printable_append: "printable (s @ t) \<longleftrightarrow> printable s \<and> printable t"
  by (auto simp: printable_def)

lemma printable_decimal: "printable (decimal_text z)"
proof -
  have "32 \<le> unat (of_nat d + 0x30 :: u8) \<and> unat (of_nat d + 0x30 :: u8) \<le> 126" if "d < 10" for d :: nat
    using that by (simp add: unat_word_ariths unat_of_nat)
  then show ?thesis
    by (auto simp: printable_def decimal_text_def dest!: low_digits_less)
qed

lemma printable_hex: "printable (hex_text n)"
proof -
  have "list_all (\<lambda>c. 32 \<le> unat c \<and> unat c \<le> 126) ascii_numbers" "length ascii_numbers = 16"
    by (simp_all add: ascii_numbers_def ascii_def)
  then have "32 \<le> unat (ascii_numbers ! d) \<and> unat (ascii_numbers ! d) \<le> 126" if "d < 16" for d
    using that by (simp add: list_all_length)
  then show ?thesis
    by (auto simp: printable_def hex_text_def dest!: low_digits_less)
qed

text \<open>The parts of a panic message.\<close>

lemma panic_body:
  "prefixed 0x31 (panic_text msg)" "body (panic_text msg) = ascii msg @ [0x0A]" "line_body (panic_text msg) = ascii msg @ [0x0A]"
  "colour (panic_text msg) = MAKE_FG_BG 0xFF0000 0"
proof -
  show pf: "prefixed 0x31 (panic_text msg)" by (simp add: panic_text_def PRINTK_PANIC_def prefixed_def)
  show "body (panic_text msg) = ascii msg @ [0x0A]" using pf by (simp add: body_def) (simp add: panic_text_def PRINTK_PANIC_def)
  show "line_body (panic_text msg) = ascii msg @ [0x0A]" by (simp add: panic_text_def PRINTK_PANIC_def line_body_def)
  show "colour (panic_text msg) = MAKE_FG_BG 0xFF0000 0" using pf by (simp add: colour_def)
qed

definition panic_view :: "'a console_state_scheme \<Rightarrow> view" where
  "panic_view s = (if con_panic s = 0 then (0, 0, blank (geometry s) 0) else view s)"

lemma panic_start: "start_view s (panic_text msg) = panic_view s"
proof -
  have "\<not> prefixed 0x33 (panic_text msg)" by (simp add: panic_text_def PRINTK_PANIC_def prefixed_def)
  then show ?thesis using panic_body(1) by (simp add: start_view_def restarts_def panic_view_def)
qed

lemma running_pid_int: "sint (ucast (running_pid s) :: u32) = uint (p_pid (mem s) (running_process s))"
proof -
  have "sint (ucast (ucast (v :: u16) :: u64) :: u32) = uint v" for v
  proof -
    have "sint (of_nat n :: u32) = int n" if "n < 65536" for n
      using that by (simp add: signed_of_nat signed_take_bit_int_eq_self)
    moreover have "unat v < 65536" by (rule less_le_trans [OF unsigned_less]) simp
    moreover have "(ucast (ucast v :: u64) :: u32) = of_nat (unat v)" by (rule bit_word_eqI) (auto simp: bit_simps)
    ultimately have "sint (ucast (ucast v :: u64) :: u32) = int (unat v)" by (simp only:)
    then show ?thesis by simp
  qed
  then show ?thesis by (simp add: running_pid_def)
qed

text \<open>A message with the PID in it.\<close>

lemma panic_reports:
  assumes "con_ok s" "line_ok s" "readable (visible_byte s) s (lit (panic_text msg)) (panic_text msg)"
    "ascii msg = ascii pre @ 0x25 # 0x64 # ascii post" "0x25 \<notin> set (ascii pre)" "0x25 \<notin> set (ascii post)"
    "printable (ascii pre)" "printable (ascii post)" "ucast (junk 1) \<noteq> (0x80000000 :: u32)"
  shows "\<exists>s'. printk s (lit (panic_text msg)) (pass [running_pid s] junk) = Some s' \<and>
    view s' = draw_text (geometry s) (MAKE_FG_BG 0xFF0000 0)
      (ascii pre @ decimal_text (uint (p_pid (mem s) (running_process s))) @ ascii post @ [0x0A]) (panic_view s)"
proof -
  let ?args = "pass [running_pid s] junk"
  have post: "0x25 \<notin> set (ascii post @ [0x0A])" using assms(6) by simp
  have b: "body (panic_text msg) = ascii pre @ 0x25 # 0x64 # (ascii post @ [0x0A])" by (simp add: panic_body assms(4))
  have a: "?args 0 = running_pid s" "?args 1 = junk 1" by (simp_all add: pass_def)
  have x: "expand strs ?args ap (body (panic_text msg)) =
      ascii pre @ decimal_text (sint (ucast (?args ap) :: u32)) @ ascii post @ [0x0A]" for strs ap
    unfolding b by (simp add: expand_directive(1) [OF assms(5)] expand_plain [OF post] directive_text_def)
  have tk: "taken (body (panic_text msg)) = 1"
    unfolding b using expand_plain [OF post] by (simp add: expand_directive(2) [OF assms(5)] takes_arg_def)
  have f: "format_ok P ?args ap (body (panic_text msg)) \<longleftrightarrow> ucast (?args ap) \<noteq> (0x80000000 :: u32)" for P ap
    unfolding b using expand_plain [OF post] by (simp add: expand_directive(3) [OF assms(5)])
  have pr: "printable (ascii pre @ decimal_text z @ ascii post @ [0x0A])" for z
    using assms(7,8) printable_decimal by (simp add: printable_append) (simp add: printable_def)
  have pid: "ucast (running_pid s) \<noteq> (0x80000000 :: u32)"
  proof
    assume "ucast (running_pid s) = (0x80000000 :: u32)"
    then have "uint (p_pid (mem s) (running_process s)) = sint (0x80000000 :: u32)" using running_pid_int [of s] by simp
    then show False using uint_ge_0 [of "p_pid (mem s) (running_process s)"] by simp
  qed
  have "body (panic_text msg) = line_body (panic_text msg)" by (simp add: panic_body)
  from printk_step [OF assms(1,2,3) this, of "\<lambda>_. []" ?args] show ?thesis
    unfolding x tk f a panic_start panic_body(4) running_pid_int using pr pid assms(9) by blast
qed

text \<open>The handlers with the names they report, and the end of the message.\<close>

definition exceptions ::
    "(((u8 list \<Rightarrow> u64) \<Rightarrow> (nat \<Rightarrow> u64) \<Rightarrow> 'a console_state_scheme \<Rightarrow> 'a console_state_scheme option) \<times> string \<times> string) list" where
  "exceptions = [(vec0, ''Divison by zero'', '')''), (vec1, ''Debug exception'', '').''), (vec3, ''Breakpoint'', '').''),
     (vec4, ''Overflow'', '').''), (vec5, ''BOUND range exceeded'', '').''), (vec6, ''Undefined opcode'', '').''),
     (vec8, ''Double fault'', '')''), (vec10, ''Invalid TSS'', '')''), (vec11, ''Segment not present'', '').''),
     (vec12, ''Stack segment fault'', '').''), (vec13, ''Privilege violation'', '').'')]"

definition message :: "string \<Rightarrow> string \<Rightarrow> string" where
  "message name tail = ''kpanic: '' @ name @ '' (PID %d'' @ tail"

lemma handler_prints:
  assumes "(handler, name, tail) \<in> set exceptions"
  shows "handler lit junk s = map_option INTR_END (printk s (lit (panic_text (message name tail))) (pass [running_pid s] junk))"
proof -
  have e: "map_option INTR_END x = do { s \<leftarrow> x; Some (INTR_END s) }" "INTR_END (kpanic s) = INTR_END s"
    for x and s :: "'a console_state_scheme" by (cases x; simp) (simp add: INTR_END_def kpanic_def)
  show ?thesis
    using assms unfolding exceptions_def set_simps
    by (elim insertE Pair_inject emptyE; hypsubst; unfold e message_def)
      (simp_all add: vec0_def vec1_def vec3_def vec4_def vec5_def vec6_def vec8_def vec10_def vec11_def vec12_def vec13_def e)
qed

lemma exceptions_texts:
  assumes "(handler, name, tail) \<in> set exceptions"
  shows "0x25 \<notin> set (ascii name)" "0x25 \<notin> set (ascii tail)" "printable (ascii name)" "printable (ascii tail)"
    "0 \<notin> set (panic_text (message name tail))" "length (panic_text (message name tail)) < 80"
proof -
  have "list_all (\<lambda>(h, n, t). 0x25 \<notin> set (ascii n) \<and> 0x25 \<notin> set (ascii t) \<and> printable (ascii n) \<and> printable (ascii t) \<and>
      0 \<notin> set (panic_text (message n t)) \<and> length (panic_text (message n t)) < 80) exceptions"
    by (simp add: exceptions_def ascii_def printable_def panic_text_def message_def PRINTK_PANIC_def)
  then show "0x25 \<notin> set (ascii name)" "0x25 \<notin> set (ascii tail)" "printable (ascii name)" "printable (ascii tail)"
    "0 \<notin> set (panic_text (message name tail))" "length (panic_text (message name tail)) < 80"
    using assms by (auto simp: list_all_iff)
qed

section \<open>Claims\<close>

text \<open>C39: Every exception but the page fault is reported and stops the machine: its handler halts the processor,
  having shown the name of the exception and the number of the running process in red, on an empty screen when
  it is the first panic.\<close>

theorem exceptions_report:
  assumes "con_ok s" "line_ok s" "ucast (junk 1) \<noteq> (0x80000000 :: u32)" "(handler, name, tail) \<in> set exceptions"
    "readable (visible_byte s) s (lit (panic_text (message name tail))) (panic_text (message name tail))"
  shows "\<exists>s'. handler lit junk s = Some s' \<and> halted s' \<and>
    view s' = draw_text (geometry s) (MAKE_FG_BG 0xFF0000 0)
      (ascii (''kpanic: '' @ name @ '' (PID '') @ decimal_text (uint (p_pid (mem s) (running_process s))) @ ascii tail @ [0x0A])
      (panic_view s)"
proof -
  note tx = exceptions_texts [OF assms(4)]
  have k: "ascii ''%d'' = [0x25, 0x64]" "0x25 \<notin> set (ascii (''kpanic: '' @ name @ '' (PID ''))"
    "printable (ascii (''kpanic: '' @ name @ '' (PID ''))"
    using tx(1,3) by (simp_all add: ascii_append printable_append) (simp_all add: ascii_def printable_def)
  have m: "ascii (message name tail) = ascii (''kpanic: '' @ name @ '' (PID '') @ 0x25 # 0x64 # ascii tail"
    by (simp add: message_def ascii_def)
  obtain s' where s': "printk s (lit (panic_text (message name tail))) (pass [running_pid s] junk) = Some s'"
    "view s' = draw_text (geometry s) (MAKE_FG_BG 0xFF0000 0)
      (ascii (''kpanic: '' @ name @ '' (PID '') @ decimal_text (uint (p_pid (mem s) (running_process s))) @ ascii tail @ [0x0A])
      (panic_view s)"
    using panic_reports [where lit = lit and msg = "message name tail" and junk = junk, OF assms(1,2,5) m k(2) tx(2) k(3) tx(4) assms(3)] by blast
  have "view (INTR_END s') = view s'"
    by (simp add: INTR_END_def view_def getpix_def off_screen_def pixel_addr_def framebuffer_get_index_def fun_eq_iff)
  then show ?thesis using s' handler_prints [OF assms(4)] by (simp add: INTR_END_def)
qed

theorem exceptions_report_witness:
  "\<exists>s'. vec6 (\<lambda>_. 0x6000) (\<lambda>_. 0) (con_machine (panic_text (message ''Undefined opcode'' '').''))) = Some s' \<and> halted s'"
proof -
  let ?t = "panic_text (message ''Undefined opcode'' '').'')"
  have e: "(vec6, ''Undefined opcode'', '').'') \<in> set exceptions" by (simp add: exceptions_def)
  have "length ?t < 0x1000" using exceptions_texts(6) [OF e] by simp
  from exceptions_report [where junk = "\<lambda>_. 0", OF con_machine_ok con_machine_line _ e con_machine_readable [OF exceptions_texts(5) [OF e] this]]
  show ?thesis by fastforce
qed

text \<open>Which strings a system call reads.\<close>

definition call_ok :: "(nat \<Rightarrow> u64) \<Rightarrow> 'a console_state_scheme \<Rightarrow> u64 \<Rightarrow> bool" where
  "call_ok junk s tf \<longleftrightarrow>
     (tf_rax (mem s) tf = 0 \<longrightarrow> (\<exists>t strs. readable (visible_byte s) s (tf_rbx (mem s) tf) t \<and>
        format_ok (\<lambda>w. readable (visible_byte s) s w (strs w)) junk 0 (body t) \<and> printable (expand strs junk 0 (body t)))) \<and>
     (tf_rax (mem s) tf = 1 \<and> tf_rcx (mem s) tf = FRAMEBUFFER_IOCTL_PUTSTR \<longrightarrow> (\<exists>t. string_off s (tf_rdi (mem s) tf) t))"


text \<open>A program that has the screen cleared: system call 1 with driver 1 and command 0.\<close>

definition ioctl_frame :: "u8 list" where
  "ioctl_frame = map (\<lambda>i. if i = 16 \<or> i = 40 then 1 else if i = 144 then 0x80 else 0) [0..<152]"

lemma ioctl_frame_fields:
  "tf_rax (mem (con_machine ioctl_frame)) 0x6000 = 1" "tf_rbx (mem (con_machine ioctl_frame)) 0x6000 = 1"
  "tf_rcx (mem (con_machine ioctl_frame)) 0x6000 = 0" "tf_trapno (mem (con_machine ioctl_frame)) 0x6000 = 0x80"
proof -
  have b: "con_mem ioctl_frame (0x6000 + of_nat i) = ioctl_frame ! i" if "i < 152" for i
  proof -
    have "unat (0x6000 + of_nat i :: u64) = 0x6000 + i" "unat (of_nat i :: u64) = i"
      using that by (simp_all add: unat_word_ariths unat_of_nat)
    then show ?thesis using that by (simp add: con_mem_def ioctl_frame_def)
  qed
  have w: "ld64 (con_mem ioctl_frame) (0x6000 + of_nat d) = w"
    if "d < 145" "\<forall>k<8. ioctl_frame ! (d + k) = ucast (drop_bit (8 * k) w)" for d and w :: u64
    unfolding ld64_def
  proof (subst ldw_eq_iff)
    have "con_mem ioctl_frame (0x6000 + of_nat d + of_nat k) = ioctl_frame ! (d + k)" if "k < 8" for k
      using b [of "d + k"] \<open>d < 145\<close> that by (simp add: add.assoc)
    then show "\<forall>i<8. con_mem ioctl_frame (0x6000 + of_nat d + of_nat i) = ucast (drop_bit (8 * i) w)"
      using that(2) by simp
  qed simp
  have k8: "(\<forall>k<8. P k) \<longleftrightarrow> P 0 \<and> P 1 \<and> P 2 \<and> P 3 \<and> P 4 \<and> P 5 \<and> P 6 \<and> P (7 :: nat)" for P
    by (simp add: numeral_eq_Suc less_Suc_eq all_conj_distrib)
  show "tf_rax (mem (con_machine ioctl_frame)) 0x6000 = 1" "tf_rbx (mem (con_machine ioctl_frame)) 0x6000 = 1"
    "tf_rcx (mem (con_machine ioctl_frame)) 0x6000 = 0" "tf_trapno (mem (con_machine ioctl_frame)) 0x6000 = 0x80"
    using w [of 40 1] w [of 16 1] w [of 32 0] w [of 144 "0x80"]
    by (simp_all add: con_machine_fields tf_rax_def tf_rbx_def tf_rcx_def tf_trapno_def k8 ioctl_frame_def)
qed


end
