(* ===== verification/Mutex.thy ===== *)
theory Mutex
  imports Memory
begin

text \<open>
  \<open>sys/src/sync/mutex.c\<close>: a spin lock in one byte.  \<open>__atomic_test_and_set\<close> stores 1 and tells whether the byte
  was set before, in one step; \<open>mutex_acquire\<close> repeats it.  The model has the two functions, run to their end,
  and the steps of any number of processors that use one lock, in any order.
\<close>

section \<open>The operations\<close>

definition test_and_set :: "memory \<Rightarrow> u64 \<Rightarrow> bool \<times> memory" where
  "test_and_set m lock = (m lock \<noteq> 0, m(lock := 1))"

partial_function (option) mutex_acquire :: "memory \<Rightarrow> u64 \<Rightarrow> memory option" where
  "mutex_acquire m lock =
     (let (was_set, m) = test_and_set m lock in if was_set then mutex_acquire m lock else Some m)"

definition mutex_release :: "memory \<Rightarrow> u64 \<Rightarrow> memory" where
  "mutex_release m lock = m(lock := 0)"

section \<open>Processors that share a lock\<close>

datatype phase = Outside | Spinning | Inside

type_synonym lock_state = "memory \<times> (nat \<Rightarrow> phase)"

text \<open>Processor \<open>i\<close> calls \<open>mutex_acquire\<close>, goes round its loop or leaves it, and calls \<open>mutex_release\<close>; in
  between anybody may write any memory but the lock.\<close>

inductive lock_step :: "u64 \<Rightarrow> lock_state \<Rightarrow> lock_state \<Rightarrow> bool" for lock :: u64 where
  call: "p i = Outside \<Longrightarrow> lock_step lock (m, p) (m, p(i := Spinning))"
| spin: "p i = Spinning \<Longrightarrow> test_and_set m lock = (True, m') \<Longrightarrow> lock_step lock (m, p) (m', p)"
| enter: "p i = Spinning \<Longrightarrow> test_and_set m lock = (False, m') \<Longrightarrow> lock_step lock (m, p) (m', p(i := Inside))"
| leave: "p i = Inside \<Longrightarrow> lock_step lock (m, p) (mutex_release m lock, p(i := Outside))"
| work: "m' lock = m lock \<Longrightarrow> lock_step lock (m, p) (m', p)"

inductive_cases lock_stepE: "lock_step lock (m, p) t"

text \<open>The lock is set exactly when a processor is inside, and then one only.\<close>

definition lock_inv :: "u64 \<Rightarrow> lock_state \<Rightarrow> bool" where
  "lock_inv lock = (\<lambda>(m, p). (m lock \<noteq> 0 \<longleftrightarrow> (\<exists>i. p i = Inside)) \<and> (\<forall>i j. p i = Inside \<longrightarrow> p j = Inside \<longrightarrow> i = j))"

lemma lock_step_inv:
  assumes "lock_step lock s t" "lock_inv lock s"
  shows "lock_inv lock t"
  using assms
proof (induction rule: lock_step.induct)
  case (call p i m)
  then have "\<forall>j. (p(i := Spinning)) j = Inside \<longleftrightarrow> p j = Inside" by simp
  then show ?case using call.prems unfolding lock_inv_def case_prod_conv by metis
next
  case (spin p i m m')
  then show ?case by (auto simp: lock_inv_def test_and_set_def)
next
  case (enter p i m m')
  then show ?case by (auto simp: lock_inv_def test_and_set_def)
next
  case (leave p i m)
  then show ?case by (auto simp: lock_inv_def mutex_release_def)
next
  case (work m' m p)
  then show ?case by (auto simp: lock_inv_def)
qed

lemma lock_steps_inv: "(lock_step lock)\<^sup>*\<^sup>* s t \<Longrightarrow> lock_inv lock s \<Longrightarrow> lock_inv lock t"
  by (induction rule: rtranclp_induct) (auto intro: lock_step_inv)

text \<open>One call alone: it returns exactly when the lock is free.\<close>

lemma mutex_acquire_free: "m lock = 0 \<Longrightarrow> mutex_acquire m lock = Some (m(lock := 1))"
  by (subst mutex_acquire.simps) (simp add: test_and_set_def)

lemma mutex_acquire_held: "mutex_acquire m lock = Some m' \<Longrightarrow> m lock = 0"
proof (erule mutex_acquire.raw_induct [of "\<lambda>m lock m'. m lock = 0", rotated])
  fix acquire :: "memory \<Rightarrow> u64 \<Rightarrow> memory option" and m :: memory and lock m'
  assume ih: "\<And>m lock m'. acquire m lock = Some m' \<Longrightarrow> m lock = 0"
    and r: "(let (was_set, m) = test_and_set m lock in if was_set then acquire m lock else Some m) = Some m'"
  show "m lock = 0"
  proof (rule ccontr)
    assume "m lock \<noteq> 0"
    then have "acquire (m(lock := 1)) lock = Some m'" using r by (simp add: test_and_set_def)
    from ih [OF this] show False by simp
  qed
qed

section \<open>Claims\<close>



end
