(* ===== verification/Keyboard.thy ===== *)
theory Keyboard
  imports Apic
begin

text \<open>
  \<open>sys/src/drivers/ps2/keyboard.c\<close>: the interrupt of the keyboard, which keeps the last keystroke, and the
  function that fetches it.

  \<open>sc_ascii\<close> is the address of the string literal with the characters of the scancodes; a scancode is not
  compared with its length.  Characters are signed and an \<open>int\<close> is computed from them.
\<close>

section \<open>State and operations\<close>

record kbd_state = apic_state +
  last_keystroke :: u32
  sc_ascii :: u64

abbreviation PS2_KEYBOARD_FETCH_KEY :: u64 where "PS2_KEYBOARD_FETCH_KEY \<equiv> 0"

definition ps2_keyboard_ioctl :: "'a kbd_state_scheme \<Rightarrow> u64 \<Rightarrow> (nat \<Rightarrow> u64) \<Rightarrow> u64 \<times> 'a kbd_state_scheme" where
  "ps2_keyboard_ioctl s cmd args = (if cmd = PS2_KEYBOARD_FETCH_KEY then (0, s) else (0, s))"

definition SC_ASCII :: "u8 list" where
  "SC_ASCII = [0, 0x1B] @ ascii ''1234567890-='' @ [0x08] @ [0] @ ascii ''qwertyuiop[]'' @ [0x0D, 0x1D] @
     ascii (''asdfghjkl;'' @ [CHR 0x27, CHR 0x60]) @ [0] @ [0x5C] @ ascii ''zxcvbnm,./'' @ [0, 0, 0] @ ascii '' ''"

text \<open>The condition as it is written: in the third line a truth value is compared with the digit.\<close>

definition char_key :: "u8 \<Rightarrow> bool" where
  "char_key c \<longleftrightarrow>
     (0x61 \<le> sint c \<and> sint c \<le> 0x7A) \<or>
     (0x41 \<le> sint c \<and> sint c \<le> 0x5A) \<or>
     (if 0x30 \<le> sint c \<and> c \<noteq> 0 then 1 else 0) \<le> (0x39 :: int) \<or>
     (0x21 \<le> sint c \<and> sint c \<le> 0x2E) \<or>
     (0x5B \<le> sint c \<and> sint c \<le> 0x60)"

definition irq1_isr :: "'a kbd_state_scheme \<Rightarrow> 'a kbd_state_scheme" where
  "irq1_isr s =
     (let (b, s) = inportb s 0x60;
          scancode = (ucast b :: u16);
          character = mem s (sc_ascii s + ucast scancode);
          pressed = (if scancode AND 0x80 = 0 \<and> char_key character then 1 else 0 :: u8);
          s = s\<lparr>last_keystroke := push_bit 24 (ucast pressed) OR push_bit 16 (scast character) OR ucast scancode\<rparr>
      in lapic_send_eoi s)"

definition ps2_keyboard_fetch_keystroke :: "'a kbd_state_scheme \<Rightarrow> u32 \<times> 'a kbd_state_scheme" where
  "ps2_keyboard_fetch_keystroke s = (let ret = last_keystroke s; s = s\<lparr>last_keystroke := 0\<rparr> in (ret, s))"

section \<open>Keystrokes\<close>

lemma length_SC_ASCII: "length SC_ASCII = 58"
  by (simp add: SC_ASCII_def ascii_def)

lemma char_key_always: "char_key c"
  by (simp add: char_key_def)

definition table_loaded :: "'a kbd_state_scheme \<Rightarrow> bool" where
  "table_loaded s \<longleftrightarrow> (\<forall>i<58. mem s (sc_ascii s + of_nat i) = SC_ASCII ! i)"

text \<open>A key of the table is fetched once, with its character and as pressed, whatever its character is; the
  next fetch finds nothing, and the interrupt is acknowledged.  So the keys without a character, which the
  table gives as zero, count as pressed characters too.\<close>

theorem keystroke_fetched:
  assumes "table_loaded s" "ucast (device s (bus s) (InB 0x60)) = (code :: u8)" "unat code < 58"
  shows "\<exists>s'. ps2_keyboard_fetch_keystroke (irq1_isr s) =
      (push_bit 24 1 OR push_bit 16 (ucast (SC_ASCII ! unat code)) OR ucast code, s') \<and>
    fst (ps2_keyboard_fetch_keystroke s') = 0 \<and>
    bus s' = bus s @ [InB 0x60, MmioW (lapic s + ucast LAPIC_EOI) 0]"
proof -
  have small: "list_all (\<lambda>c. unat c < 128) SC_ASCII" by (simp add: SC_ASCII_def ascii_def)
  have "(ucast (ucast code :: u16) :: u64) = of_nat (unat code)"
    by (rule bit_word_eqI) (auto simp: bit_simps dest: bit_imp_le_length)
  then have c: "mem s (sc_ascii s + ucast (ucast code :: u16)) = SC_ASCII ! unat code"
    using assms(1,3) by (simp only: table_loaded_def)
  have "take_bit 7 code = code" using assms(3) by (simp add: word_unat_eq_iff unsigned_take_bit_eq take_bit_nat_eq_self)
  then have "\<not> bit code 7" by (metis bit_take_bit_iff less_irrefl)
  moreover have e: "(0x80 :: u16) = 2 ^ 7" by simp
  ultimately have p: "(ucast code :: u16) AND 0x80 = 0"
    by (intro bit_word_eqI) (unfold e bit_and_iff bit_exp_iff bit_unsigned_iff, auto)
  have "unat (SC_ASCII ! unat code) < 128" using small assms(3) by (simp add: list_all_length length_SC_ASCII)
  then have sc: "(scast (SC_ASCII ! unat code) :: u32) = ucast (SC_ASCII ! unat code)" by (rule scast_small)
  have u: "(ucast (ucast code :: u16) :: u32) = ucast code"
    by (rule bit_word_eqI) (auto simp: bit_simps dest: bit_imp_le_length)
  show ?thesis
    by (simp add: irq1_isr_def inportb_def answer_def Let_def assms(2) c p sc u char_key_always lapic_send_eoi_def
        lapic_write_def ps2_keyboard_fetch_keystroke_def emit_def)
qed

end
