(* ===== verification/Kmain.thy ===== *)
theory Kmain
  imports Trap
begin

text \<open>
  \<open>sys/src/kmain.c\<close>: the start of the kernel, which runs the initialisation of every part in turn and ends
  in the first program; and \<open>sys/src/ipc/shmem.c\<close>, a port of shared memory for a process.

  \<open>lit\<close> gives the addresses of the string literals, \<open>junk\<close> what an unset argument register holds,
  \<open>isrs\<close> and \<open>fns\<close> the addresses of the handlers and of the functions of the temporary file system.
  A failed \<open>ASSERT\<close> prints its text and halts: no result.  Loading a descriptor table register or the task
  register sets a component of the state.
\<close>

section \<open>Ports of shared memory\<close>

abbreviation SPT_SYSCALL :: u32 where "SPT_SYSCALL \<equiv> 0"
abbreviation SPT_GENERAL :: u32 where "SPT_GENERAL \<equiv> 1"

definition shmem_make_port :: "'a proc_state_scheme \<Rightarrow> u32 \<Rightarrow> u64 \<Rightarrow> 'a proc_state_scheme option" where
  "shmem_make_port s port_type vaddr =
     (if SPT_GENERAL < port_type then Some s
      else do {
        (_, s) \<leftarrow> mmap s vaddr 1 (PROT_READ OR PROT_WRITE OR PROT_USER);
        Some (s\<lparr>mem := set_port (running_process s) (ucast port_type) vaddr (mem s)\<rparr>)
      })"

section \<open>The start of the kernel\<close>

record kernel_state = console_state +
  idtr :: "u16 \<times> u64"
  task_register :: u16

abbreviation N_HEAP_PAGES :: u64 where "N_HEAP_PAGES \<equiv> 7"

definition load_idt :: "'a kernel_state_scheme \<Rightarrow> 'a kernel_state_scheme" where
  "load_idt s = s\<lparr>idtr := (16 * 256 - 1, idt s)\<rparr>"

definition load_tss :: "'a kernel_state_scheme \<Rightarrow> 'a kernel_state_scheme" where
  "load_tss s = s\<lparr>task_register := 0x48 OR 3\<rparr>"

definition init_memory_managers :: "'a heap_state_scheme \<Rightarrow> 'a heap_state_scheme option" where
  "init_memory_managers s = do {
     s \<leftarrow> pmm_init s;
     let s = vmm_init s;
     let (base, s) = pmm_alloc_heap_base s N_HEAP_PAGES;
     create_heap s (base + hhdm s) N_HEAP_PAGES
   }"

definition fs_init :: "tmpfs_code \<Rightarrow> (u8 list \<Rightarrow> u64) \<Rightarrow> 'a kernel_state_scheme \<Rightarrow> 'a kernel_state_scheme option" where
  "fs_init fns lit s = do {
     (e, s) \<leftarrow> vfs_init s;
     if e = EXIT_SUCCESS then tmpfs_init fns s (lit (ascii ''tmp'')) else None
   }"

definition info :: "string \<Rightarrow> u8 list" where "info msg = ascii (''[INFO]: '' @ msg) @ [0x0A]"

definition RELEASE_TITLE :: "u8 list" where
  "RELEASE_TITLE = ascii ''IgnisOS v0.0.3 - Copyright (c) 2022 Ian Marco Moffett'' @ [0x0A]"

definition apic_init :: "(u8 list \<Rightarrow> u64) \<Rightarrow> (nat \<Rightarrow> u64) \<Rightarrow> 'a kernel_state_scheme \<Rightarrow> 'a kernel_state_scheme option" where
  "apic_init lit junk s = do {
     let s = ioapic_init s;
     s \<leftarrow> printk s (lit (info ''I/O APIC initialized.'')) junk;
     let s = lapic_init s;
     printk s (lit (info ''Local APIC initialized for BSP.'')) junk
   }"

definition start ::
    "(u8 list \<Rightarrow> u64) \<Rightarrow> (nat \<Rightarrow> u64) \<Rightarrow> isr_code \<Rightarrow> tmpfs_code \<Rightarrow> 'a kernel_state_scheme \<Rightarrow>
      (u64 \<times> u64 \<times> 'a kernel_state_scheme) option" where
  "start lit junk isrs fns s = do {
     let s = load_idt s;
     let s = serial_init s;
     let s = framebuffer_init s;
     s \<leftarrow> printk s (lit RELEASE_TITLE) junk;
     s \<leftarrow> acpi_init (lit (ascii ''APIC'')) s;
     s \<leftarrow> printk s (lit (info ''ACPI tables parsed.'')) junk;
     s \<leftarrow> apic_init lit junk s;
     s \<leftarrow> intr_init isrs s;
     s \<leftarrow> printk s (lit (info ''Loaded interrupt service routines.'')) junk;
     s \<leftarrow> init_memory_managers s;
     s \<leftarrow> printk s (lit (info ''Memory managers initialized.'')) junk;
     s \<leftarrow> write_tss s;
     s \<leftarrow> printk s (lit (info ''TSS initialized.'')) junk;
     let s = load_gdt s;
     s \<leftarrow> printk s (lit (info ''GDT loaded.'')) junk;
     let s = load_tss s;
     s \<leftarrow> printk s (lit (info ''TSS loaded.'')) junk;
     s \<leftarrow> fs_init fns lit s;
     s \<leftarrow> printk s (lit (info ''File systems initialized.'')) junk;
     let s = init_pit s;
     s \<leftarrow> printk s (lit (info ''PIT initialized.'')) junk;
     proc_init (lit (ascii ''/Ignis/initrd.sys'')) (lit (ascii ''initd.sys'')) s
   }"

text \<open>A port that does not exist is refused; for the others the address is in the record of the running process.\<close>

lemma shmem_make_port_refused: "SPT_GENERAL < port_type \<Longrightarrow> shmem_make_port s port_type vaddr = Some s"
  by (simp add: shmem_make_port_def)

lemma shmem_make_port_set:
  assumes "shmem_make_port s port_type vaddr = Some s'" "port_type \<le> SPT_GENERAL"
  shows "ld64 (mem s') (running_process s' + 224 + 8 * ucast port_type) = vaddr"
proof -
  have "\<not> SPT_GENERAL < port_type" using assms(2) by (simp only: not_less)
  then show ?thesis
    using assms(1) by (auto simp: shmem_make_port_def set_port_def cell64.rd_wr_same split: bind_splits prod.splits)
qed

section \<open>Memory from the loader to the heap\<close>

text \<open>The page tables that the loader hands over form a tree of frames that its memory map does not call usable.\<close>

definition loader_tables :: "'a vmm_state_scheme \<Rightarrow> bool" where
  "loader_tables s \<longleftrightarrow> cr3 s \<noteq> 0 \<and>
     (\<forall>p. table_path p \<longrightarrow> walk (mem s) (cr3 s) p \<noteq> 0 \<longrightarrow>
        (\<exists>k. 0 < k \<and> k < 1099511627776 \<and> walk (mem s) (cr3 s) p = PAGE_SIZE * of_nat k \<and>
           \<not> list_ex (\<lambda>e. usable_frame e k) (memmap s))) \<and>
     (\<forall>p q. table_path p \<longrightarrow> table_path q \<longrightarrow> walk (mem s) (cr3 s) p \<noteq> 0 \<longrightarrow>
        walk (mem s) (cr3 s) p = walk (mem s) (cr3 s) q \<longrightarrow> p = q) \<and>
     (\<forall>p i. table_path (p @ [i]) \<longrightarrow> walk (mem s) (cr3 s) p \<noteq> 0 \<longrightarrow>
        ld64 (mem s) (walk (mem s) (cr3 s) p + 8 * i) AND PTE_PRESENT \<noteq> 0 \<longrightarrow> walk (mem s) (cr3 s) (p @ [i]) \<noteq> 0)"

lemma pmm_init_space:
  fixes s s1 :: "'a vmm_state_scheme"
  assumes map: "boot_map_ok s" "unat (hhdm s) + 140737488355328 \<le> 18446744073709551616" and tab: "loader_tables s"
    and s1: "pmm_init s = Some s1"
  shows "space_ok s1 (cr3 s)" "cr3 s1 = cr3 s" "hhdm s1 = hhdm s" "pmm_state.more s1 = pmm_state.more s"
proof -
  have i: "pmm_ok s1" "hhdm s1 = hhdm s" "pmm_state.more s1 = pmm_state.more s"
    "\<And>x. unat x < 4503599627370496 \<Longrightarrow> mem s1 x = mem s x"
    "\<And>n. frame_free s1 n \<Longrightarrow> list_ex (\<lambda>e. usable_frame e n) (memmap s)"
    using pmm_init_spec [OF map(1)] s1 map(2) by auto
  show "hhdm s1 = hhdm s" "pmm_state.more s1 = pmm_state.more s" by (rule i)+
  show "cr3 s1 = cr3 s" using i(3) by (cases s; cases s1) simp
  note t = tab [unfolded loader_tables_def]
  have entry: "ld64 (mem s1) (walk (mem s) (cr3 s) p + 8 * j) = ld64 (mem s) (walk (mem s) (cr3 s) p + 8 * j)"
    if p: "table_path p" "walk (mem s) (cr3 s) p \<noteq> 0" "j < 512" for p j
  proof (rule cell64.rd_cong)
    fix x assume x: "in_range (walk (mem s) (cr3 s) p + 8 * j) 8 x"
    obtain k where k: "k < 1099511627776" "walk (mem s) (cr3 s) p = PAGE_SIZE * of_nat k" using t p by blast
    have "unat (8 * j) + unat (8 :: u64) \<le> unat PAGE_SIZE" using p(3) by (simp add: unat_word_ariths word_less_nat_alt)
    then have "in_range (PAGE_SIZE * of_nat k) PAGE_SIZE x" using in_range_field [OF x] k(2) by simp
    then have "unat x < 4096 * k + 4096" using k(1) unat_frame [OF k(1)] by (subst (asm) in_range_linear) simp_all
    then show "mem s1 x = mem s x" using i(4) k(1) by simp
  qed
  have w: "walk (mem s1) (cr3 s) p = walk (mem s) (cr3 s) p" if "table_path p" for p
    by (rule walk_cong) (use t that entry in auto)
  show "space_ok s1 (cr3 s)"
    unfolding space_ok_def is_table_def
    using t i(1,5) entry by (auto simp: w table_path_snoc) blast+
qed

lemma heap_base_loop_walk:
  assumes "space_ok s t" "i \<le> n" "first_run s a (unat (n - i))"
  shows "walk_step (unat (n - i)) t s (heap_base_loop s n i) \<and> hhdm (heap_base_loop s n i) = hhdm s \<and>
    pmm_state.more (heap_base_loop s n i) = pmm_state.more s"
  using assms
proof (induction s n i arbitrary: a rule: heap_base_loop.induct)
  case (1 s n i)
  show ?case
  proof (cases "i < n")
    case False
    then have "i = n" using "1.prems"(2) by simp
    then show ?thesis using walk_step_refl [OF "1.prems"(1)] by (subst (1 2 3) heap_base_loop.simps) simp
  next
    case True
    have steps: "unat (n - i) = Suc (unat (n - (i + 1)))" "i + 1 \<le> n"
    proof -
      show "i + 1 \<le> n" using True unat_Suc_less [OF True] by (simp add: word_le_nat_alt word_less_nat_alt)
      then show "unat (n - i) = Suc (unat (n - (i + 1)))"
        using True unat_Suc_less [OF True] by (simp add: unat_sub word_le_nat_alt word_less_nat_alt)
    qed
    have run: "first_run s a (Suc (unat (n - (i + 1))))" using "1.prems"(3) steps(1) by simp
    have ok: "pmm_ok s" by (rule space_okD(1) [OF "1.prems"(1)])
    have a: "frame_free s a" using run by (auto simp: first_run_def dest: spec [of _ 0])
    note al = alloc_first_run [OF ok run] and st = claim_walk_step [OF "1.prems"(1) a]
    have l: "heap_base_loop s n i = heap_base_loop (claim_frame s a) n (i + 1)"
      using True al(1) by (subst heap_base_loop.simps) simp
    have "walk_step (unat (n - (i + 1))) t (claim_frame s a) (heap_base_loop (claim_frame s a) n (i + 1)) \<and>
        hhdm (heap_base_loop (claim_frame s a) n (i + 1)) = hhdm (claim_frame s a) \<and>
        pmm_state.more (heap_base_loop (claim_frame s a) n (i + 1)) = pmm_state.more (claim_frame s a)"
      using "1.IH" [OF True, of "Suc a"] al walk_stepD(1) [OF st(1)] steps(2) by simp
    then show ?thesis using walk_step_trans [OF st(1)] steps(1) by (simp add: l)
  qed
qed

lemma heap_base_walk:
  assumes "space_ok s t" "first_run s a (Suc (unat n))"
  shows "fst (pmm_alloc_heap_base s n) = PAGE_SIZE * of_nat a"
    "walk_step (Suc (unat n)) t s (snd (pmm_alloc_heap_base s n))"
    "hhdm (snd (pmm_alloc_heap_base s n)) = hhdm s" "pmm_state.more (snd (pmm_alloc_heap_base s n)) = pmm_state.more s"
proof -
  note ok = space_okD(1) [OF assms(1)]
  have a: "frame_free s a" using assms(2) by (auto simp: first_run_def dest: spec [of _ 0])
  note al = alloc_first_run [OF ok assms(2)] and st = claim_walk_step(1) [OF assms(1) a]
  have e: "pmm_alloc_heap_base s n = (PAGE_SIZE * of_nat a, heap_base_loop (claim_frame s a) n 0)"
    using al(1) by (simp add: pmm_alloc_heap_base_def)
  have l: "walk_step (unat n) t (claim_frame s a) (heap_base_loop (claim_frame s a) n 0)"
    "hhdm (heap_base_loop (claim_frame s a) n 0) = hhdm s"
    "pmm_state.more (heap_base_loop (claim_frame s a) n 0) = pmm_state.more s"
    using heap_base_loop_walk [OF walk_stepD(1) [OF st], of 0 n "Suc a"] al(2) by simp_all
  show "fst (pmm_alloc_heap_base s n) = PAGE_SIZE * of_nat a" by (simp add: e)
  show "walk_step (Suc (unat n)) t s (snd (pmm_alloc_heap_base s n))"
    using walk_step_trans [OF st l(1)] by (simp add: e)
  show "hhdm (snd (pmm_alloc_heap_base s n)) = hhdm s" "pmm_state.more (snd (pmm_alloc_heap_base s n)) = pmm_state.more s"
    using l(2,3) by (simp_all add: e)
qed

section \<open>Claims\<close>


text \<open>A machine with 159 usable pages from 0x1000 on and an empty root table at 0x200000.\<close>

definition loader_machine :: heap_state where
  "loader_machine = \<lparr>mem = (\<lambda>_. 0), hhdm = 0xFFFF800000000000,
     memmap = [\<lparr>me_base = 0x1000, me_length = 0x9F000, me_type = 0\<rparr>], bitmap = 0, usable_pages = 0, bitmap_size = 0,
     highest_addr = 0, root_pagemap = 0, cr3 = 0x200000, tlb_flushes = [],
     heap_head = 0, heap_tail = 0, heap_size = 0, bytes_allocated = 0\<rparr>"

lemma loader_machine_map: "boot_map_ok loader_machine" "bitmap_bytes (memmap loader_machine) = 4096"
  by (simp_all add: boot_map_ok_def loader_machine_def entry_wf_def bitmap_bytes_def dvd_def)

lemma loader_machine_tables: "loader_tables loader_machine"
proof -
  have w: "walk (\<lambda>_. 0) 0x200000 p = (if p = [] then 0x200000 else 0)" for p
    by (cases p) (simp_all add: ld64_zero entry_table_def)
  have "\<exists>k. 0 < k \<and> k < 1099511627776 \<and> (0x200000 :: u64) = PAGE_SIZE * of_nat k \<and>
      \<not> list_ex (\<lambda>e. usable_frame e k) (memmap loader_machine)"
    by (intro exI [of _ 512]) (simp add: loader_machine_def usable_frame_def)
  then show ?thesis unfolding loader_tables_def by (auto simp: w loader_machine_def ld64_zero split: if_splits)
qed

lemma loader_machine_init:
  "\<exists>s1. pmm_init loader_machine = Some s1 \<and> (\<forall>n. frame_free s1 n \<longleftrightarrow> 2 \<le> n \<and> n < 160)"
proof -
  obtain s1 where s1: "pmm_init loader_machine = Some s1" "bitmap s1 = 0x1000 + hhdm loader_machine"
    "unat (bitmap_size s1) = 4096" "hhdm s1 = hhdm loader_machine"
    "\<And>n. frame_free s1 n \<longleftrightarrow> n < 8 * 4096 \<and> list_ex (\<lambda>e. usable_frame e n) (memmap loader_machine) \<and> \<not> bitmap_frame s1 n"
  proof -
    have "unat (hhdm loader_machine) + 140737488355328 \<le> 18446744073709551616" "\<forall>e \<in> set (memmap loader_machine). me_base e = 0x1000"
      by (simp_all add: loader_machine_def)
    then show thesis using pmm_init_spec [OF loader_machine_map(1)] that unfolding loader_machine_map(2) by metis
  qed
  have "bitmap_frame s1 n \<longleftrightarrow> n = 1" for n
    unfolding bitmap_frame_def s1(2-4) by simp linarith
  moreover have "list_ex (\<lambda>e. usable_frame e n) (memmap loader_machine) \<longleftrightarrow> 1 \<le> n \<and> n < 160" for n
    by (simp add: loader_machine_def usable_frame_def)
  ultimately have "frame_free s1 n \<longleftrightarrow> 2 \<le> n \<and> n < 160" for n using s1(5) [of n] by auto
  then show ?thesis using s1(1) by blast
qed


end
