(* ===== verification/Entry.thy ===== *)
theory Entry
  imports Trap
begin

text \<open>
  Entering and leaving the kernel: what the processor and the stubs \<open>sys/src/intr/syscall.asm\<close>,
  \<open>sys/src/intr/irq.asm\<close> and \<open>sys/src/intr/trap.asm\<close> put on the kernel stack, which the task state segment
  names, and what they do with the result of \<open>trap\<close>; and the timer interrupt all the way through.

  \<open>cpu\<close> are, at the instruction that is interrupted: ss, rsp, the flags, cs, rip, rbp, gs, fs, r15 and r14.
  \<open>regs\<close> are rax, rbx, rcx, rdx, rsi, rdi and r8 to r13.
\<close>

section \<open>The stack\<close>

fun push_all :: "memory \<Rightarrow> u64 \<Rightarrow> u64 list \<Rightarrow> memory" where
  "push_all m sp [] = m"
| "push_all m sp (v # vs) = push_all (st64 m (sp - 8) v) (sp - 8) vs"

text \<open>The processor aligns the stack before it pushes.\<close>

definition kernel_stack :: "'a tss_state_scheme \<Rightarrow> u64" where
  "kernel_stack s = rsp0 (mem s) (tss s) AND 0xFFFFFFFFFFFFFFF0"

definition processor_frame :: "(nat \<Rightarrow> u64) \<Rightarrow> u64 list" where
  "processor_frame cpu = [cpu 0, cpu 1, cpu 2, cpu 3, cpu 4]"

definition syscall_entry :: "(nat \<Rightarrow> u64) \<Rightarrow> u64 \<Rightarrow> u64 list" where
  "syscall_entry cpu sp = [0x80, cpu 5, sp]"

definition irq0_entry :: "(nat \<Rightarrow> u64) \<Rightarrow> u64 \<Rightarrow> u64 list" where
  "irq0_entry cpu sp = [0x20, cpu 5, sp]"

definition trap_entry :: "(nat \<Rightarrow> u64) \<Rightarrow> u64 list \<Rightarrow> u64 list" where
  "trap_entry cpu regs =
     [cpu 6, cpu 7, cpu 8, cpu 9, regs ! 11, regs ! 10, regs ! 9, regs ! 8, regs ! 7, regs ! 6,
      regs ! 0, regs ! 2, regs ! 3, regs ! 1, regs ! 4, regs ! 5]"

definition enter_kernel :: "(nat \<Rightarrow> u64) \<Rightarrow> u64 list \<Rightarrow> u64 list \<Rightarrow> u64 \<Rightarrow> memory \<Rightarrow> memory" where
  "enter_kernel cpu entry regs sp m = push_all m sp (processor_frame cpu @ entry @ trap_entry cpu regs)"

text \<open>What \<open>trap\<close> returns is the stack to pop the registers from, if it is not 0.\<close>

definition trap_end :: "u64 \<Rightarrow> 'a console_state_scheme outcome \<Rightarrow> 'a console_state_scheme outcome" where
  "trap_end tf r = (case r of
     Returns sp s \<Rightarrow> Returns (tf_rax (mem s) (if sp = 0 then tf else sp)) s
   | Enters rip rsp s \<Rightarrow> Enters rip rsp s)"

section \<open>The trap frame\<close>

lemma push_all_outside:
  assumes "8 * length vs < 1000" "\<not> in_range (sp - 8 * of_nat (length vs)) (8 * of_nat (length vs)) x"
  shows "push_all m sp vs x = m x"
  using assms
proof (induction vs arbitrary: m sp)
  case (Cons v vs)
  define L where "L = (8 * of_nat (length (v # vs)) :: u64)"
  have u: "unat L = 8 * Suc (length vs)" "unat (8 * of_nat (length vs) :: u64) = 8 * length vs"
    using Cons.prems(1) by (simp_all add: L_def unat_word_ariths unat_of_nat del: of_nat_Suc)
  have e: "sp - 8 = (sp - L) + 8 * of_nat (length vs)" "sp - 8 - 8 * of_nat (length vs) = (sp - L) + 0"
    by (simp_all add: L_def algebra_simps)
  have x: "\<not> in_range (sp - L) L x" using Cons.prems(2) by (simp only: L_def not_False_eq_True)
  have "\<not> in_range (sp - 8) 8 x" unfolding e(1)
    using x in_range_field [of "sp - L" "8 * of_nat (length vs)" 8 x L] u by auto
  moreover have "\<not> in_range (sp - 8 - 8 * of_nat (length vs)) (8 * of_nat (length vs)) x" unfolding e(2)
    using x in_range_field [of "sp - L" 0 "8 * of_nat (length vs)" x L] u by auto
  ultimately show ?case using Cons.IH [of "sp - 8"] Cons.prems(1) by (simp add: cell64.wr_outside)
qed simp

lemma push_all_at:
  assumes "8 * length vs < 1000" "i < length vs"
  shows "ld64 (push_all m sp vs) (sp - 8 * of_nat (Suc i)) = vs ! i"
  using assms
proof (induction vs arbitrary: m sp i)
  case (Cons v vs)
  show ?case
  proof (cases i)
    case 0
    have "ld64 (push_all (st64 m (sp - 8) v) (sp - 8) vs) (sp - 8) = ld64 (st64 m (sp - 8) v) (sp - 8)"
    proof (rule cell64.rd_cong, rule push_all_outside)
      show "8 * length vs < 1000" using Cons.prems(1) by simp
      fix x assume "in_range (sp - 8) 8 x"
      then have "unat (x - (sp - 8)) < 8" by (simp add: in_range_def word_less_nat_alt)
      moreover have u: "unat (8 * of_nat (length vs) :: u64) = 8 * length vs"
        using Cons.prems(1) by (simp add: unat_word_ariths unat_of_nat)
      moreover have "x - (sp - 8 - 8 * of_nat (length vs)) = (x - (sp - 8)) + 8 * of_nat (length vs)" by simp
      ultimately have "8 * length vs \<le> unat (x - (sp - 8 - 8 * of_nat (length vs)))"
        using Cons.prems(1) by (simp only: unat_word_ariths) simp
      then show "\<not> in_range (sp - 8 - 8 * of_nat (length vs)) (8 * of_nat (length vs)) x"
        using u by (simp add: in_range_def word_less_nat_alt)
    qed
    then show ?thesis by (simp add: 0 cell64.rd_wr_same)
  next
    case (Suc j)
    have "sp - 8 * of_nat (Suc i) = (sp - 8) - 8 * of_nat (Suc j)" by (simp add: Suc algebra_simps)
    then have "ld64 (push_all m sp (v # vs)) (sp - 8 * of_nat (Suc i)) =
        ld64 (push_all (st64 m (sp - 8) v) (sp - 8) vs) ((sp - 8) - 8 * of_nat (Suc j))"
      by (simp only: push_all.simps)
    also have "\<dots> = (v # vs) ! i" using Cons.IH [of j "st64 m (sp - 8) v" "sp - 8"] Cons.prems Suc by (simp del: of_nat_Suc)
    finally show ?thesis .
  qed
qed simp

text \<open>What the kernel finds in the frame: the call number in \<open>rax\<close> and the arguments in the order of the comment
  in \<open>syscall.c\<close>.\<close>

lemma enter_kernel_fields:
  fixes cpu :: "nat \<Rightarrow> u64"
  assumes "length entry = 3"
  defines "M \<equiv> \<lambda>regs sp m. enter_kernel cpu entry regs sp m"
  shows "tf_rax (M regs sp m) (sp - 192) = regs ! 0" "tf_rbx (M regs sp m) (sp - 192) = regs ! 1"
    "tf_rcx (M regs sp m) (sp - 192) = regs ! 2" "tf_rdx (M regs sp m) (sp - 192) = regs ! 3"
    "tf_rsi (M regs sp m) (sp - 192) = regs ! 4" "tf_rdi (M regs sp m) (sp - 192) = regs ! 5"
    "tf_r8 (M regs sp m) (sp - 192) = regs ! 6" "tf_r9 (M regs sp m) (sp - 192) = regs ! 7"
    "tf_r10 (M regs sp m) (sp - 192) = regs ! 8" "tf_r11 (M regs sp m) (sp - 192) = regs ! 9"
    "tf_r12 (M regs sp m) (sp - 192) = regs ! 10" "tf_r13 (M regs sp m) (sp - 192) = regs ! 11"
    "tf_trapno (M regs sp m) (sp - 192) = entry ! 0"
proof -
  let ?vs = "processor_frame cpu @ entry @ trap_entry cpu regs"
  have at: "ld64 (M regs sp m) (sp - 192 + k) = ?vs ! i"
    if "i < 24" "k = 192 - 8 * of_nat (Suc i)" for i k
  proof -
    have l: "length ?vs = 24" using assms(1) by (simp add: processor_frame_def trap_entry_def)
    then have "ld64 (push_all m sp ?vs) (sp - 8 * of_nat (Suc i)) = ?vs ! i"
      using push_all_at [of ?vs i m sp] that(1) by simp
    moreover have "sp - 192 + k = sp - 8 * of_nat (Suc i)" by (simp add: that(2))
    ultimately show ?thesis unfolding M_def enter_kernel_def by (simp only:)
  qed
  obtain e0 e1 e2 where e: "entry = [e0, e1, e2]" using assms(1) by (auto simp: length_Suc_conv numeral_eq_Suc)
  note v = processor_frame_def trap_entry_def nth_append e
  show "tf_rax (M regs sp m) (sp - 192) = regs ! 0" using at [of 18 40] by (simp add: tf_rax_def v)
  show "tf_rbx (M regs sp m) (sp - 192) = regs ! 1" using at [of 21 16] by (simp add: tf_rbx_def v)
  show "tf_rcx (M regs sp m) (sp - 192) = regs ! 2" using at [of 19 32] by (simp add: tf_rcx_def v)
  show "tf_rdx (M regs sp m) (sp - 192) = regs ! 3" using at [of 20 24] by (simp add: tf_rdx_def v)
  show "tf_rsi (M regs sp m) (sp - 192) = regs ! 4" using at [of 22 8] by (simp add: tf_rsi_def v)
  show "tf_rdi (M regs sp m) (sp - 192) = regs ! 5" using at [of 23 0] by (simp add: tf_rdi_def v)
  show "tf_r8 (M regs sp m) (sp - 192) = regs ! 6" using at [of 17 48] by (simp add: tf_r8_def v)
  show "tf_r9 (M regs sp m) (sp - 192) = regs ! 7" using at [of 16 56] by (simp add: tf_r9_def v)
  show "tf_r10 (M regs sp m) (sp - 192) = regs ! 8" using at [of 15 64] by (simp add: tf_r10_def v)
  show "tf_r11 (M regs sp m) (sp - 192) = regs ! 9" using at [of 14 72] by (simp add: tf_r11_def v)
  show "tf_r12 (M regs sp m) (sp - 192) = regs ! 10" using at [of 13 80] by (simp add: tf_r12_def v)
  show "tf_r13 (M regs sp m) (sp - 192) = regs ! 11" using at [of 12 88] by (simp add: tf_r13_def v)
  show "tf_trapno (M regs sp m) (sp - 192) = entry ! 0" using at [of 5 144] by (simp add: tf_trapno_def v)
qed

lemma enter_kernel_outside:
  assumes "length entry = 3" "\<not> in_range (sp - 192) 192 x"
  shows "enter_kernel cpu entry regs sp m x = m x"
  unfolding enter_kernel_def
  by (rule push_all_outside) (use assms in \<open>simp_all add: processor_frame_def trap_entry_def\<close>)

section \<open>The timer interrupt\<close>

text \<open>The stub of the timer tells the interrupt controller first; what it pushes around that call is overwritten by the
  trap frame.  \<open>regs\<close> are the registers after the call: it does not save r9, r10 and r11.\<close>

definition irq0_isr ::
    "u64 \<Rightarrow> (nat \<Rightarrow> u64) \<Rightarrow> (nat \<Rightarrow> u64) \<Rightarrow> u64 list \<Rightarrow> 'a console_state_scheme \<Rightarrow> 'a console_state_scheme outcome option" where
  "irq0_isr initrd_lit junk cpu regs s =
     (let s = lapic_send_eoi s;
          sp = kernel_stack s;
          s = s\<lparr>mem := enter_kernel cpu (irq0_entry cpu (sp - 40)) regs sp (mem s)\<rparr>
      in map_option (trap_end (sp - 192)) (trap initrd_lit junk s (sp - 192)))"

definition frame_regs :: "memory \<Rightarrow> u64 \<Rightarrow> u64 list" where
  "frame_regs m tf = [tf_rax m tf, tf_rbx m tf, tf_rcx m tf, tf_rdx m tf, tf_rsi m tf, tf_rdi m tf, tf_r8 m tf, tf_r9 m tf,
     tf_r10 m tf, tf_r11 m tf, tf_r12 m tf, tf_r13 m tf]"

lemma registers_word:
  assumes "registers m a = registers m' b" "d + 8 \<le> 152"
  shows "ld64 m (a + of_nat d) = ld64 m' (b + of_nat d)"
proof -
  have "m (a + of_nat d + of_nat i) = m' (b + of_nat d + of_nat i)" if "i < 8" for i
    using assms(1) [unfolded registers_at, rule_format, of "d + i"] assms(2) that by (simp add: add.assoc)
  then show ?thesis unfolding ld64_def by (subst ldw_eq_iff) (simp_all flip: ldw_eq_iff)
qed

lemma frame_regs_cong:
  assumes "registers m a = registers m' b"
  shows "frame_regs m a = frame_regs m' b"
proof -
  note w = registers_word [OF assms]
  show ?thesis
    using w [of 0] w [of 8] w [of 16] w [of 24] w [of 32] w [of 40] w [of 48] w [of 56] w [of 64] w [of 72] w [of 80] w [of 88]
    by (simp add: frame_regs_def tf_rax_def tf_rbx_def tf_rcx_def tf_rdx_def tf_rsi_def tf_rdi_def tf_r8_def tf_r9_def tf_r10_def
        tf_r11_def tf_r12_def tf_r13_def)
qed

lemma frame_regs_pushed:
  assumes "length regs = 12"
  shows "frame_regs (enter_kernel cpu (irq0_entry cpu k) regs sp m) (sp - 192) = regs"
proof -
  have "length (irq0_entry cpu k) = 3" by (simp add: irq0_entry_def)
  then show ?thesis
    using assms by (simp add: frame_regs_def enter_kernel_fields list_eq_iff_nth_eq nth_Cons' numeral_eq_Suc less_Suc_eq)
qed

text \<open>The kernel stack of the running process is apart from the queue of processes and from the task state segment.\<close>

definition stack_fit :: "u64 list \<Rightarrow> 'a proc_state_scheme \<Rightarrow> bool" where
  "stack_fit ps s \<longleftrightarrow> (\<forall>p \<in> set ps. ranges_disjoint (kernel_stack s - 192) 192 p sizeof_process) \<and>
     ranges_disjoint (kernel_stack s - 192) 192 (tss s) sizeof_TSSEntry"

section \<open>Claims\<close>


text \<open>The two processes, on a stack in memory that holds sevens.\<close>

definition ticking :: console_state where
  "ticking = proc_state.extend two_processes (console_state.fields 0 0 0 False 0 0 0)"

lemma ticking_fields:
  "mem ticking = mem two_processes" "tss ticking = tss two_processes" "process_queue_base ticking = process_queue_base two_processes"
  "process_queue_head ticking = process_queue_head two_processes" "running_process ticking = running_process two_processes"
  by (simp_all add: ticking_def proc_state.defs console_state.defs)

lemma ticking_ok: "sched_ok [0x10000, 0x20000] ticking"
  using two_processes_ok(1) by (simp add: sched_ok_def ticking_fields)

lemma ticking_stack: "kernel_stack ticking = 0x0707070707070700"
proof -
  have "ld32 (\<lambda>_. 7) a = 0x07070707" for a by (simp add: ld32_eq_iff)
  then have "ld32 (mem two_processes) 0x30004 = 0x07070707" "ld32 (mem two_processes) 0x30008 = 0x07070707"
    by (simp_all add: two_processes_fields c32_64.rd_wr_other ranges_disjoint_def)
  then show ?thesis by (simp add: kernel_stack_def rsp0_def ticking_fields two_processes_fields(2))
qed


end
