(* ===== verification/User.thy ===== *)
theory User
  imports Entry
begin

text \<open>
  The programs under \<open>usr\<close>: the C library (\<open>usr/lib/libc\<close>), the drawing library (\<open>usr/lib/libgfx\<close>), the first
  program (\<open>usr/services/init\<close>) and the window manager (\<open>usr/services/kesswm\<close>).

  A system call goes the whole way: \<open>syscall.s\<close> stores six of its arguments in the program's data and loads them
  into other registers, the processor pushes its frame on the kernel stack that the task state segment names, \<open>syscall.asm\<close>
  and \<open>trap.asm\<close> push the trap frame, \<open>trap\<close> serves the call and the registers are popped again.  The \<open>environ\<close> holds
  what the code leaves open: the registers that the program does not set and the arguments that are read
  without having been passed.  The locale \<open>surface\<close> is what the drawing library needs of the system call
  that puts one pixel; it is interpreted on that call.
\<close>

section \<open>The C library\<close>

partial_function (option) strlen_loop :: "memory \<Rightarrow> u64 \<Rightarrow> u64 \<Rightarrow> u64 option" where
  "strlen_loop m str len =
     (if m (str + len) \<noteq> 0 then strlen_loop m str (len + 1) else Some (len + 1 - 1))"

definition strlen :: "memory \<Rightarrow> u64 \<Rightarrow> u64 option" where
  "strlen m str = strlen_loop m str 0"

function memzero_loop :: "memory \<Rightarrow> u64 \<Rightarrow> u64 \<Rightarrow> u64 \<Rightarrow> memory" where
  "memzero_loop m dst len i = (if i < len then memzero_loop (m(dst + i := 0)) dst len (i + 1) else m)"
  by pat_completeness auto
termination
  by (relation "measure (\<lambda>(m, dst, len, i). unat (len - i))") (simp, simp only: in_measure case_prod_conv loop_measure)

declare memzero_loop.simps [simp del]

definition memzero :: "memory \<Rightarrow> u64 \<Rightarrow> u64 \<Rightarrow> memory" where
  "memzero m dst len = memzero_loop m dst len 0"

text \<open>The generator of random numbers has 16 bits of state.  They are widened to 32 bits before each shift and cut
  off again after it.\<close>

abbreviation COF0 :: nat where "COF0 \<equiv> 13"
abbreviation COF1 :: nat where "COF1 \<equiv> 17"
abbreviation COF2 :: nat where "COF2 \<equiv> 5"

definition shift_left :: "nat \<Rightarrow> u16 \<Rightarrow> u16" where
  "shift_left n seed = ucast (ucast seed XOR push_bit n (ucast seed :: u32))"

definition shift_right :: "nat \<Rightarrow> u16 \<Rightarrow> u16" where
  "shift_right n seed = ucast (ucast seed XOR drop_bit n (ucast seed :: u32))"

definition srand :: "u16 \<Rightarrow> u16" where "srand seed = seed"

definition rand :: "u16 \<Rightarrow> u32 \<times> u16" where
  "rand seed =
     (let seed = shift_left COF0 seed; seed = shift_right COF1 seed; seed = shift_left COF2 seed
      in (ucast seed, seed))"

section \<open>System calls\<close>

record user_state = console_state +
  syscall_args :: u64
  gfx_bg :: u32

text \<open>\<open>other_regs\<close> are, at the instruction that enters the kernel: ss, rsp, the flags, cs, rip, rbp, gs, fs, r15 and r14.\<close>

record 's environ =
  initrd_text :: u64
  va_junk :: "nat \<Rightarrow> u64"
  other_regs :: "'s \<Rightarrow> nat \<Rightarrow> u64"
  unpassed :: "'s \<Rightarrow> nat \<Rightarrow> u64"

definition save_args :: "u64 \<Rightarrow> (nat \<Rightarrow> u64) \<Rightarrow> memory \<Rightarrow> memory" where
  "save_args a args m =
     st64 (st64 (st64 (st64 (st64 (st64 m a (args 0)) (a + 8) (args 1)) (a + 16) (args 2)) (a + 24) (args 3))
       (a + 32) (args 4)) (a + 40) (args 5)"

text \<open>The values of rax, rbx, rcx, rdx, rsi, rdi and r8 to r13.\<close>

definition call_regs :: "u64 \<Rightarrow> (nat \<Rightarrow> u64) \<Rightarrow> memory \<Rightarrow> u64 list" where
  "call_regs a args m =
     [ld64 m a, ld64 m (a + 8), ld64 m (a + 16), ld64 m (a + 24), ld64 m (a + 32), ld64 m (a + 40),
      args 6, args 7, args 8, args 9, args 10, args 11]"

definition syscall ::
    "'a user_state_scheme environ \<Rightarrow> 'a user_state_scheme \<Rightarrow> u64 list \<Rightarrow> 'a user_state_scheme outcome option" where
  "syscall env s vs =
     (let args = pass vs (unpassed env s);
          m = save_args (syscall_args s) args (mem s);
          regs = call_regs (syscall_args s) args m;
          sp = kernel_stack (s\<lparr>mem := m\<rparr>);
          tf = sp - 192
      in map_option (trap_end tf)
           (trap (initrd_text env) (va_junk env) (s\<lparr>mem := enter_kernel (other_regs env s) (syscall_entry (other_regs env s) (sp - 40)) regs sp m\<rparr>) tf))"

text \<open>Calls that come back, with the value of \<open>rax\<close>.\<close>

definition returning :: "'s outcome option \<Rightarrow> (u64 \<times> 's) option" where
  "returning r = (case r of Some (Returns v s) \<Rightarrow> Some (v, s) | _ \<Rightarrow> None)"

definition IOCTL ::
    "'a user_state_scheme environ \<Rightarrow> 'a user_state_scheme \<Rightarrow> u64 \<Rightarrow> u64 \<Rightarrow> u64 list \<Rightarrow> 'a user_state_scheme option" where
  "IOCTL env s device_id command vs =
     map_option snd (returning (syscall env s (0x1 # device_id # command # vs)))"

definition puts :: "'a user_state_scheme environ \<Rightarrow> 'a user_state_scheme \<Rightarrow> u64 \<Rightarrow> 'a user_state_scheme option" where
  "puts env s str = map_option snd (returning (syscall env s [0x0, str]))"

section \<open>The drawing library\<close>

abbreviation FRAMEBUFFER_IOCTL_ID :: u64 where "FRAMEBUFFER_IOCTL_ID \<equiv> 1"
abbreviation FRAMEBUFFER_CLEARSCREEN :: u64 where "FRAMEBUFFER_CLEARSCREEN \<equiv> 0"
abbreviation FRAMEBUFFER_PUTPIX :: u64 where "FRAMEBUFFER_PUTPIX \<equiv> 1"
abbreviation FRAMEBUFFER_PUTSTR :: u64 where "FRAMEBUFFER_PUTSTR \<equiv> 2"
abbreviation WINDOW_BAR_HEIGHT :: u32 where "WINDOW_BAR_HEIGHT \<equiv> 17"

definition libgfx_set_bg :: "u32 \<Rightarrow> 'a user_state_scheme \<Rightarrow> 'a user_state_scheme" where
  "libgfx_set_bg bg s = s\<lparr>gfx_bg := bg\<rparr>"

definition putpix_call ::
    "'a user_state_scheme environ \<Rightarrow> 'a user_state_scheme \<Rightarrow> u32 \<Rightarrow> u32 \<Rightarrow> u32 \<Rightarrow> 'a user_state_scheme option" where
  "putpix_call env s cx cy color =
     IOCTL env s FRAMEBUFFER_IOCTL_ID FRAMEBUFFER_PUTPIX [ucast cx, ucast cy, ucast color]"

text \<open>The loops over the pixels of a rectangle, over the operation that puts one.\<close>

function square_row ::
    "('s \<Rightarrow> u32 \<Rightarrow> u32 \<Rightarrow> u32 \<Rightarrow> 's option) \<Rightarrow> 's \<Rightarrow> u32 \<Rightarrow> u32 \<Rightarrow> u32 \<Rightarrow> u32 \<Rightarrow> 's option" where
  "square_row put s cy color x_end cx =
     (if cx < x_end then do { s \<leftarrow> put s cx cy color; square_row put s cy color x_end (cx + 1) } else Some s)"
  by pat_completeness auto
termination
  by (relation "measure (\<lambda>(put, s, cy, color, x_end, cx). unat (x_end - cx))")
    (simp, simp only: in_measure case_prod_conv loop_measure)

function square_rows ::
    "('s \<Rightarrow> u32 \<Rightarrow> u32 \<Rightarrow> u32 \<Rightarrow> 's option) \<Rightarrow> 's \<Rightarrow> u32 \<Rightarrow> u32 \<Rightarrow> u32 \<Rightarrow> u32 \<Rightarrow> u32 \<Rightarrow> 's option" where
  "square_rows put s x width color y_end cy =
     (if cy < y_end then do {
        s \<leftarrow> square_row put s cy color (x + width) x;
        square_rows put s x width color y_end (cy + 1)
      } else Some s)"
  by pat_completeness auto
termination
  by (relation "measure (\<lambda>(put, s, x, width, color, y_end, cy). unat (y_end - cy))")
    (simp, simp only: in_measure case_prod_conv loop_measure)

declare square_row.simps [simp del] square_rows.simps [simp del]

definition libgfx_draw_square ::
    "'a user_state_scheme environ \<Rightarrow> 'a user_state_scheme \<Rightarrow> u32 \<Rightarrow> u32 \<Rightarrow> u32 \<Rightarrow> u32 \<Rightarrow> u32 \<Rightarrow> 'a user_state_scheme option" where
  "libgfx_draw_square env s x y width height color = square_rows (putpix_call env) s x width color (y + height) y"

definition draw_window_bar ::
    "'a user_state_scheme environ \<Rightarrow> 'a user_state_scheme \<Rightarrow> u32 \<Rightarrow> u32 \<Rightarrow> u32 \<Rightarrow> u32 \<Rightarrow> 'a user_state_scheme option" where
  "draw_window_bar env s win_x win_y width bar_color =
     libgfx_draw_square env s win_x win_y width WINDOW_BAR_HEIGHT bar_color"

definition libgfx_open_window ::
    "'a user_state_scheme environ \<Rightarrow> 'a user_state_scheme \<Rightarrow> u32 \<Rightarrow> u32 \<Rightarrow> u32 \<Rightarrow> u32 \<Rightarrow> u32 \<Rightarrow> u32 \<Rightarrow> 'a user_state_scheme option" where
  "libgfx_open_window env s x y width height bg fg = do {
     s \<leftarrow> libgfx_draw_square env s x y width height bg;
     draw_window_bar env s x y width fg
   }"

section \<open>The window manager and the first program\<close>

abbreviation DEFAULT_DESKTOP_BG :: u64 where "DEFAULT_DESKTOP_BG \<equiv> 0x1D2021"
abbreviation DEFAULT_WINDOW_BG :: u32 where "DEFAULT_WINDOW_BG \<equiv> 0xEBDBB2"
abbreviation DEFAULT_WINDOW_FG :: u32 where "DEFAULT_WINDOW_FG \<equiv> 0x458588"

record window_t =
  win_x :: u16
  win_y :: u16

definition kesswm_draw_desktop :: "'a user_state_scheme environ \<Rightarrow> 'a user_state_scheme \<Rightarrow> 'a user_state_scheme option" where
  "kesswm_draw_desktop env s = IOCTL env s FRAMEBUFFER_IOCTL_ID FRAMEBUFFER_CLEARSCREEN [DEFAULT_DESKTOP_BG]"

definition kesswm_open_window ::
    "'a user_state_scheme environ \<Rightarrow> 'a user_state_scheme \<Rightarrow> u32 \<Rightarrow> u32 \<Rightarrow> u32 \<Rightarrow> u32 \<Rightarrow> u64 \<Rightarrow>
     (window_t \<times> 'a user_state_scheme) option" where
  "kesswm_open_window env s x y width height title =
     (let window = \<lparr>win_x = ucast x, win_y = ucast y\<rparr>
      in do {
        s \<leftarrow> libgfx_open_window env s x y width height DEFAULT_WINDOW_BG DEFAULT_WINDOW_FG;
        s \<leftarrow> IOCTL env s FRAMEBUFFER_IOCTL_ID FRAMEBUFFER_PUTSTR
          [ucast (win_x window), ucast (win_y window), title, ucast DEFAULT_WINDOW_FG, 0xFBF1C7];
        Some (window, s)
      })"

definition kesswm_putstr ::
    "'a user_state_scheme environ \<Rightarrow> 'a user_state_scheme \<Rightarrow> window_t \<Rightarrow> u64 \<Rightarrow> 'a user_state_scheme option" where
  "kesswm_putstr env s window str =
     IOCTL env s FRAMEBUFFER_IOCTL_ID FRAMEBUFFER_PUTSTR
       [ucast (win_x window) + 5, ucast (win_y window) + 20, str, ucast DEFAULT_WINDOW_BG, 0x000000]"

text \<open>Both programs end in an endless loop; the result is the state in which it begins.\<close>

definition kesswm_main ::
    "(u8 list \<Rightarrow> u64) \<Rightarrow> 'a user_state_scheme environ \<Rightarrow> 'a user_state_scheme \<Rightarrow> 'a user_state_scheme option" where
  "kesswm_main lit env s = do {
     s \<leftarrow> kesswm_draw_desktop env s;
     (welcome_window, s) \<leftarrow> kesswm_open_window env s 50 50 300 300 (lit (ascii ''Welcome :-)''));
     kesswm_putstr env s welcome_window (lit (ascii ''Welcome to'' @ 0x0A # ascii ''IgnisOS!''))
   }"

definition services :: "u8 list list" where "services = [ascii ''kesswm.sys'']"

fun launch_services ::
    "(u8 list \<Rightarrow> u64) \<Rightarrow> 'a user_state_scheme environ \<Rightarrow> 'a user_state_scheme \<Rightarrow> u8 list list \<Rightarrow>
     'a user_state_scheme outcome option" where
  "launch_services lit env s [] = Some (Returns 0 s)"
| "launch_services lit env s (path # paths) = do {
     r \<leftarrow> syscall env s [0x2, lit path];
     case r of Returns _ s \<Rightarrow> launch_services lit env s paths | Enters rip rsp s \<Rightarrow> Some (Enters rip rsp s)
   }"

definition init_main ::
    "(u8 list \<Rightarrow> u64) \<Rightarrow> 'a user_state_scheme environ \<Rightarrow> 'a user_state_scheme \<Rightarrow> 'a user_state_scheme outcome option" where
  "init_main lit env s = do {
     s \<leftarrow> puts env s (lit (0x5C # 0x33 # ascii ''-- InitD v0.0.1 --'' @ [0x0A]));
     launch_services lit env s services
   }"

section \<open>The library functions\<close>

lemma strlen_kstrlen: "strlen m str = kstrlen m str"
proof -
  have "strlen_loop m str len = kstrlen_loop m str len" for len
  proof -
    have "strlen_loop m str len = Some r" if "kstrlen_loop m str len = Some r" for r
      by (rule kstrlen_loop.raw_induct [OF _ that, of "\<lambda>m str i r. strlen_loop m str i = Some r"])
        (subst strlen_loop.simps, simp add: Let_def split: if_splits)
    moreover have "kstrlen_loop m str len = Some r" if "strlen_loop m str len = Some r" for r
      by (rule strlen_loop.raw_induct [OF _ that, of "\<lambda>m str i r. kstrlen_loop m str i = Some r"])
        (subst kstrlen_loop.simps, simp add: Let_def split: if_splits)
    ultimately show ?thesis by (cases "strlen_loop m str len"; cases "kstrlen_loop m str len") auto
  qed
  then show ?thesis by (simp add: strlen_def kstrlen_def)
qed

lemma memzero_loop_closed:
  "memzero_loop m dst len i x = (if in_range dst len x \<and> i \<le> x - dst then 0 else m x)"
proof (induction m dst len i rule: memzero_loop.induct)
  case (1 m dst len i)
  show ?case
  proof (cases "i < len")
    case True
    have e: "x = dst + i \<longleftrightarrow> x - dst = i" by (auto simp: algebra_simps)
    have l: "i \<le> x - dst \<longleftrightarrow> i = x - dst \<or> i + 1 \<le> x - dst" using Suc_le_iff_less [OF True, of "x - dst"] by auto
    have "memzero_loop m dst len i x = memzero_loop (m(dst + i := 0)) dst len (i + 1) x"
      using True by (subst memzero_loop.simps) simp
    also have "\<dots> = (if in_range dst len x \<and> i + 1 \<le> x - dst then 0 else if x - dst = i then 0 else m x)"
      by (simp only: "1.IH" [OF True] fun_upd_apply e)
    also have "\<dots> = (if in_range dst len x \<and> i \<le> x - dst then 0 else m x)"
      using True l by (cases "x - dst = i") (simp_all add: in_range_def)
    finally show ?thesis .
  next
    case False
    then have "\<not> (in_range dst len x \<and> i \<le> x - dst)" by (auto simp: in_range_def)
    then show ?thesis using False by (subst memzero_loop.simps) auto
  qed
qed

lemma memzero_kmemzero: "memzero m dst len = kmemzero m dst len"
  by (intro ext) (simp add: memzero_def memzero_loop_closed kmemzero_closed)

text \<open>The step of the generator can be undone, so that it runs through a cycle; but its second shift does nothing.\<close>

definition undo_shift_left :: "nat \<Rightarrow> u16 \<Rightarrow> u16" where
  "undo_shift_left n seed = seed XOR push_bit n seed XOR push_bit (2 * n) seed XOR push_bit (3 * n) seed"

lemma shift_left_bits: "shift_left n seed = seed XOR push_bit n seed"
  unfolding shift_left_def by (rule bit_word_eqI) (auto simp: bit_simps)

lemma shift_right_idle: "shift_right COF1 seed = seed"
proof -
  have "drop_bit 17 (ucast seed :: u32) = 0"
  proof (rule bit_word_eqI)
    fix k assume "k < LENGTH(32)"
    show "bit (drop_bit 17 (ucast seed :: u32)) k = bit (0 :: u32) k"
      using bit_imp_le_length [of seed "17 + k"] by (auto simp: bit_simps)
  qed
  moreover have "ucast (ucast seed :: u32) = seed" by (rule bit_word_eqI) (auto simp: bit_simps)
  ultimately show ?thesis unfolding shift_right_def by simp
qed

lemma undo_shift_left:
  assumes "4 \<le> n"
  shows "undo_shift_left n (shift_left n seed) = seed"
proof -
  have "push_bit (n * 4) seed = 0"
    by (rule bit_word_eqI) (use assms in \<open>auto simp: bit_simps\<close>)
  then show ?thesis
    by (simp add: undo_shift_left_def shift_left_bits push_bit_xor ac_simps) (simp add: xor.assoc [symmetric] mult_2_right)
qed

definition undo_rand :: "u16 \<Rightarrow> u16" where
  "undo_rand seed = undo_shift_left COF0 (undo_shift_left COF2 seed)"

lemma rand_undone: "undo_rand (snd (rand seed)) = seed"
  by (simp add: undo_rand_def rand_def Let_def shift_right_idle undo_shift_left)

lemma rand_bij: "bij (\<lambda>seed. snd (rand seed))"
proof (rule bijI)
  show i: "inj (\<lambda>seed. snd (rand seed))" by (rule inj_on_inverseI [where g = undo_rand]) (rule rand_undone)
  show "surj (\<lambda>seed. snd (rand seed))" by (rule finite_UNIV_inj_surj [OF finite i])
qed

text \<open>So no other seed than 0 ever leads to 0, from which the generator does not come away.\<close>

theorem rand_zero: "fst (rand seed) = 0 \<longleftrightarrow> seed = 0" "snd (rand 0) = 0"
proof -
  show z: "snd (rand 0) = 0" by (simp add: rand_def shift_left_def shift_right_def Let_def)
  have "fst (rand seed) = ucast (snd (rand seed))" by (simp add: rand_def Let_def)
  then have "fst (rand seed) = 0 \<longleftrightarrow> snd (rand seed) = 0" by (simp add: word_unat_eq_iff)
  then show "fst (rand seed) = 0 \<longleftrightarrow> seed = 0" using z rand_undone [of seed] rand_undone [of 0] by metis
qed

section \<open>The copy of the arguments\<close>

lemma save_args_outside:
  assumes "\<not> in_range a 48 x"
  shows "save_args a args m x = m x"
proof -
  have "\<not> in_range (a + k) 8 x" if "unat k \<le> 40" for k
    using assms in_range_field [of a k 8 x 48] that by auto
  from this [of 0] this [of 8] this [of 16] this [of 24] this [of 32] this [of 40] show ?thesis
    by (simp add: save_args_def cell64.wr_outside)
qed

lemma call_regs_saved: "call_regs a args (save_args a args m) = map args [0..<12]"
proof -
  have "[0..<12] = [0, 1, 2, 3, 4, 5, 6, 7, 8, 9, 10, 11]" by (simp add: upt_rec)
  then show ?thesis by (simp add: call_regs_def save_args_def cell_simps)
qed

section \<open>A system call from a program\<close>

text \<open>The bytes that entering the kernel writes: the frame on the kernel stack and the program's copy of the
  arguments.  They lie apart from the display and from the stack pointer in the task state segment.\<close>

definition call_scratch :: "'a user_state_scheme \<Rightarrow> u64 \<Rightarrow> bool" where
  "call_scratch s a \<longleftrightarrow> in_range (kernel_stack s - 192) 192 a \<or> in_range (syscall_args s) 48 a"

definition user_ok :: "'a user_state_scheme \<Rightarrow> bool" where
  "user_ok s \<longleftrightarrow> con_ok s \<and> (\<forall>a. call_scratch s a \<longrightarrow> \<not> display_byte s a \<and> \<not> in_range (tss s + 4) 8 a) \<and>
     (\<forall>a. in_range (tss s + 4) 8 a \<longrightarrow> \<not> visible_byte s a)"

definition call_may_change :: "'a user_state_scheme \<Rightarrow> u64 \<Rightarrow> bool" where
  "call_may_change s a \<longleftrightarrow> visible_byte s a \<or> call_scratch s a"

abbreviation call_kept :: "'a user_state_scheme \<Rightarrow> 'a user_state_scheme \<Rightarrow> bool" where
  "call_kept s \<equiv> kept_off (call_may_change s) s"

lemma kernel_stack_cong:
  assumes "tss s' = tss s" "\<And>a. in_range (tss s + 4) 8 a \<Longrightarrow> mem s' a = mem s a"
  shows "kernel_stack s' = kernel_stack s"
proof -
  have "ld32 (mem s') (tss s + 4 + k) = ld32 (mem s) (tss s + 4 + k)" if "unat k \<le> 4" for k
    by (rule cell32.rd_cong) (use assms(2) in_range_field [of "tss s + 4" k 4 _ 8] that in auto)
  from this [of 0] this [of 4] show ?thesis by (simp add: kernel_stack_def rsp0_def assms(1) add.assoc)
qed

lemma user_keptD:
  assumes "kept_off P s s'"
  shows "tss s' = tss s" "syscall_args s' = syscall_args s"
proof -
  have e: "others P s' = others P s" using assms by (simp add: kept_off_def)
  show "tss s' = tss s" using arg_cong [OF e, of tss] by (simp add: others_def)
  show "syscall_args s' = syscall_args s" using arg_cong [OF e, of syscall_args] by (simp add: others_def)
qed

lemma user_kept_ok:
  assumes "user_ok s" "call_kept s s'"
  shows "user_ok s'" "visible_byte s' = visible_byte s" "shown s' = shown s" "geometry s' = geometry s"
    "pixel_addr s' = pixel_addr s" "call_scratch s' = call_scratch s" "call_may_change s' = call_may_change s"
proof -
  have ok: "con_ok s" "fb_ok s" "font_loaded s" using assms(1) by (simp_all add: user_ok_def con_ok_def)
  note k = keptD [OF assms(2)] and u = user_keptD [OF assms(2)]
  have m: "mem s' a = mem s a" if "in_range (framebuffer s) 32 a \<or> in_range (font_data s) 1710 a" for a
  proof (rule k(1))
    have "display_byte s a" using that by (auto simp: display_byte_def)
    then have "\<not> call_scratch s a" using assms(1) by (auto simp: user_ok_def)
    moreover have "\<not> in_range (fb_base s) (screen_size s) a"
      using ok(2) that by (auto simp: fb_ok_def dest: ranges_disjointD)
    then have "\<not> visible_byte s a" using ok(2) visible_in_screen by blast
    ultimately show "\<not> call_may_change s a" by (simp add: call_may_change_def)
  qed
  note d = display_cong [OF ok(2) k(2,3) m]
  show v: "visible_byte s' = visible_byte s" and "shown s' = shown s" and "geometry s' = geometry s"
    and "pixel_addr s' = pixel_addr s" by (rule d; assumption)+
  have "mem s' a = mem s a" if "in_range (tss s + 4) 8 a" for a
    by (rule k(1)) (use assms(1) that in \<open>auto simp: user_ok_def call_may_change_def\<close>)
  from kernel_stack_cong [OF u(1) this] show c: "call_scratch s' = call_scratch s"
    by (intro ext) (simp add: call_scratch_def u)
  then show "call_may_change s' = call_may_change s" by (intro ext) (simp add: call_may_change_def v)
  have e: "display_byte s' = display_byte s" by (intro ext) (simp add: display_byte_def k(2,3) d(1,2) [unfolded k(2)])
  have "con_ok s'" using ok(1) d(3) d(7) [OF _ ok(3)] by (simp add: con_ok_def k(4) e)
  then show "user_ok s'" using assms(1) by (simp add: user_ok_def c e u v)
qed

lemma call_kept_trans:
  assumes "user_ok s" "call_kept s t" "call_kept t u"
  shows "call_kept s u"
  using assms(2,3) user_kept_ok(7) [OF assms(1,2)] by (simp add: kept_off_def)

text \<open>A picture survives what does not touch visible pixels.\<close>

lemma getpix_cong:
  assumes "fb_ok s" "fb_ok s'" "shown s' = shown s" "pixel_addr s' = pixel_addr s"
    "\<And>a. visible_byte s a \<Longrightarrow> mem s' a = mem s a"
  shows "getpix s' = getpix s"
proof (intro ext)
  fix x y
  show "getpix s' x y = getpix s x y"
  proof (cases "shown s x y")
    case True
    have "ld32 (mem s') (pixel_addr s x y) = ld32 (mem s) (pixel_addr s x y)"
      by (rule cell32.rd_cong) (use assms(5) pixel_byte(3) [OF assms(1) True] in blast)
    then show ?thesis using True assms(1-4) by (simp add: getpix_def shown_iff)
  next
    case False
    then show ?thesis using getpix_off [OF assms(1)] getpix_off [OF assms(2)] assms(3) by simp
  qed
qed

text \<open>The state in which \<open>trap\<close> begins: the screen and everything but the scratch bytes is as before.\<close>

definition in_kernel :: "'a user_state_scheme environ \<Rightarrow> 'a user_state_scheme \<Rightarrow> u64 list \<Rightarrow> 'a user_state_scheme" where
  "in_kernel env s vs = s\<lparr>mem := enter_kernel (other_regs env s) (syscall_entry (other_regs env s) (kernel_stack s - 40)) (map (pass vs (unpassed env s)) [0..<12]) (kernel_stack s)
     (save_args (syscall_args s) (pass vs (unpassed env s)) (mem s))\<rparr>"

lemma syscall_enters:
  assumes "user_ok s"
  shows "syscall env s vs = map_option (trap_end (kernel_stack s - 192))
    (trap (initrd_text env) (va_junk env) (in_kernel env s vs) (kernel_stack s - 192))"
proof -
  have "save_args (syscall_args s) args (mem s) a = mem s a" if "in_range (tss s + 4) 8 a" for args a
    by (rule save_args_outside) (use assms that in \<open>auto simp: user_ok_def call_scratch_def\<close>)
  then have "kernel_stack (s\<lparr>mem := save_args (syscall_args s) args (mem s)\<rparr>) = kernel_stack s" for args
    by (intro kernel_stack_cong) simp_all
  then show ?thesis by (simp add: syscall_def Let_def call_regs_saved in_kernel_def)
qed

lemma in_kernel_kept: "kept_off (call_scratch s) s (in_kernel env s vs)"
proof -
  have "mem (in_kernel env s vs) a = mem s a" if "\<not> call_scratch s a" for a
    using that by (simp add: in_kernel_def call_scratch_def enter_kernel_outside syscall_entry_def save_args_outside)
  then show ?thesis by (auto simp: kept_off_def others_def in_kernel_def fun_eq_iff)
qed

lemma in_kernel_fields:
  fixes vs :: "u64 list" and s :: "'a user_state_scheme" and env :: "'a user_state_scheme environ"
  defines "args \<equiv> pass vs (unpassed env s)"
  defines "m \<equiv> mem (in_kernel env s vs)" and "tf \<equiv> kernel_stack s - 192"
  shows "tf_rax m tf = args 0" "tf_rbx m tf = args 1" "tf_rcx m tf = args 2" "tf_trapno m tf = 0x80"
    "i < 9 \<Longrightarrow> ioctl_args m tf i = args (i + 3)"
proof -
  let ?e = "syscall_entry (other_regs env s) (kernel_stack s - 40)"
  have e: "length ?e = 3" "?e ! 0 = 0x80" by (simp_all add: syscall_entry_def)
  note f = enter_kernel_fields [OF e(1), of "other_regs env s" "map args [0..<12]" "kernel_stack s"
      "save_args (syscall_args s) args (mem s)", unfolded e(2)]
  have m: "m = enter_kernel (other_regs env s) ?e (map args [0..<12]) (kernel_stack s) (save_args (syscall_args s) args (mem s))"
    by (simp add: m_def args_def in_kernel_def)
  have l: "map args [0..<12] ! k = args k" if "k < 12" for k using that by simp
  show "tf_rax m tf = args 0" "tf_rbx m tf = args 1" "tf_rcx m tf = args 2" "tf_trapno m tf = 0x80"
    unfolding m tf_def f by (rule l; simp)+ simp
  have "ioctl_args m tf i = map args [3..<12] ! i" if "i < 9"
  proof -
    have "[3..<12] = [3, 4, 5, 6, 7, 8, 9, 10, 11]" by (simp add: upt_rec)
    then have "map args [3..<12] = [map args [0..<12] ! 3, map args [0..<12] ! 4, map args [0..<12] ! 5, map args [0..<12] ! 6,
      map args [0..<12] ! 7, map args [0..<12] ! 8, map args [0..<12] ! 9, map args [0..<12] ! 10, map args [0..<12] ! 11]"
      by simp
    then show ?thesis using that unfolding m tf_def ioctl_args_def f by (simp add: Let_def)
  qed
  moreover have "map args [3..<12] ! i = args (i + 3)" if "i < 9"
    using nth_map_upt [of i 12 3 args] that by (simp only: add.commute [of i])
  ultimately show "i < 9 \<Longrightarrow> ioctl_args m tf i = args (i + 3)" by simp
qed

lemma in_kernel_ok:
  assumes "user_ok s"
  shows "call_kept s (in_kernel env s vs)" "con_ok (in_kernel env s vs)" "fb_ok (in_kernel env s vs)"
    "font_loaded (in_kernel env s vs)" "geometry (in_kernel env s vs) = geometry s" "getpix (in_kernel env s vs) = getpix s"
proof -
  show k: "call_kept s (in_kernel env s vs)"
    using in_kernel_kept [of s env vs] unfolding kept_off_def by (rule others_mono) (simp add: call_may_change_def)
  note t = user_kept_ok [OF assms k]
  show c: "con_ok (in_kernel env s vs)" and f: "fb_ok (in_kernel env s vs)"
    and "font_loaded (in_kernel env s vs)" and "geometry (in_kernel env s vs) = geometry s"
    using t(1,4) by (simp_all add: user_ok_def con_ok_def)
  have ok: "fb_ok s" using assms by (simp add: user_ok_def con_ok_def)
  show "getpix (in_kernel env s vs) = getpix s"
  proof (rule getpix_cong [OF ok f t(3,5)])
    fix a assume "visible_byte s a"
    then have "\<not> call_scratch s a" using assms visible_display [OF ok] by (auto simp: user_ok_def)
    then show "mem (in_kernel env s vs) a = mem s a" by (rule keptD(1) [OF in_kernel_kept])
  qed
qed

text \<open>A command to the framebuffer paints what the driver paints in that state.\<close>

lemma IOCTL_paints:
  assumes ok: "user_ok s"
    and io: "framebuffer_ioctl (in_kernel env s (0x1 # 1 # cmd # vs)) cmd
      (ioctl_args (mem (in_kernel env s (0x1 # 1 # cmd # vs))) (kernel_stack s - 192)) =
      Some (r, paint framebuffer_putpix (in_kernel env s (0x1 # 1 # cmd # vs)) ps)"
  shows "\<exists>s'. IOCTL env s 1 cmd vs = Some s' \<and> call_kept s s' \<and>
    getpix s' = (\<lambda>X Y. if shown s X Y then colour_at ps X Y (getpix s X Y) else 0)"
proof -
  define t where "t = in_kernel env s (0x1 # 1 # cmd # vs)"
  define u where "u = paint framebuffer_putpix t ps"
  define s' where "s' = u\<lparr>mem := set_rax (kernel_stack s - 192) r (mem u)\<rparr>"
  note tk = in_kernel_ok [OF ok, of env "0x1 # 1 # cmd # vs", folded t_def]
  note k = tk(1) and kt = user_kept_ok [OF ok tk(1)]
  have oks: "fb_ok s" "con_ok t" using ok tk(2) by (simp_all add: user_ok_def con_ok_def)
  have ku: "call_kept t u"
    using paint_kept [OF oks(2), of ps] unfolding u_def kept_off_def
    by (rule others_mono) (simp add: call_may_change_def)
  have su: "call_kept s u" by (rule call_kept_trans [OF ok k ku])
  note kut = user_kept_ok [OF ok su]
  have wr: "mem s' a = mem u a" if "\<not> call_scratch s a" for a
  proof -
    have "\<not> in_range (kernel_stack s - 192 + 40) 8 a"
      using that in_range_field [of "kernel_stack s - 192" 40 8 a 192] by (auto simp: call_scratch_def)
    then show ?thesis by (simp add: s'_def set_rax_def cell64.wr_outside)
  qed
  have "kept_off (call_may_change s) u s'"
    using wr by (auto simp: kept_off_def others_def s'_def call_may_change_def fun_eq_iff)
  then have ks: "call_kept s s'" using su by (simp add: kept_off_def)
  note kst = user_kept_ok [OF ok ks]
  have oku: "fb_ok u" "fb_ok s'" using kut(1) kst(1) by (simp_all add: user_ok_def con_ok_def)
  have "getpix s' = getpix u"
  proof (rule getpix_cong [OF oku])
    show "shown s' = shown u" "pixel_addr s' = pixel_addr u" by (simp_all add: kst kut)
    fix a assume "visible_byte u a"
    then have "\<not> call_scratch s a" using ok visible_display [OF oks(1)] by (auto simp: user_ok_def kut)
    then show "mem s' a = mem u a" by (rule wr)
  qed
  moreover have "getpix u = (\<lambda>X Y. if shown s X Y then colour_at ps X Y (getpix s X Y) else 0)"
    unfolding u_def by (simp add: paint_view [OF oks(2)] tk(6) kt(3) cong: if_cong)
  ultimately have g: "getpix s' = (\<lambda>X Y. if shown s X Y then colour_at ps X Y (getpix s X Y) else 0)" by simp
  have three: "\<not> (3 :: u64) \<le> 1" by (simp add: word_le_nat_alt)
  note f = in_kernel_fields [where vs = "0x1 # 1 # cmd # vs" and env = env and s = s, folded t_def]
  have "trap (initrd_text env) (va_junk env) t (kernel_stack s - 192) = Some (Returns 0 s')"
    using io [folded t_def] three
    by (simp add: trap_def syscall_table_def sys_ioctl_def Let_def f(1-4) pass_def s'_def u_def)
  then have "IOCTL env s 1 cmd vs = Some s'"
    by (simp add: IOCTL_def syscall_enters [OF ok] t_def trap_end_def returning_def)
  then show ?thesis using ks g by blast
qed

section \<open>The framebuffer driver as a program sees it\<close>

text \<open>Pictures: the pixels that the driver lets a program put end five before the edge; a string is drawn in cells of
  9 by 16 pixels on lines 20 pixels apart, each of which begins where the string does.\<close>

definition drawable :: "nat \<times> nat \<Rightarrow> u32 \<Rightarrow> u32 \<Rightarrow> bool" where
  "drawable g X Y \<longleftrightarrow> on_screen g X Y \<and> X \<le> of_nat (fst g) - 5 \<and> Y \<le> of_nat (snd g) - 5"

definition fill_square :: "nat \<times> nat \<Rightarrow> u32 \<Rightarrow> u32 \<Rightarrow> u32 \<Rightarrow> u32 \<Rightarrow> u32 \<Rightarrow> (u32 \<Rightarrow> u32 \<Rightarrow> u32) \<Rightarrow> u32 \<Rightarrow> u32 \<Rightarrow> u32" where
  "fill_square g x y width height color pic = (\<lambda>X Y.
     if drawable g X Y \<and> x \<le> X \<and> X < x + width \<and> y \<le> Y \<and> Y < y + height then color else pic X Y)"

definition cell_char :: "u32 \<Rightarrow> u32 \<Rightarrow> u32 \<Rightarrow> u8 \<Rightarrow> view \<Rightarrow> view" where
  "cell_char orig_x bg fg c = (\<lambda>(x, y, pic).
     if c = 0x0A then (orig_x, y + 20, pic)
     else (x + 9, y, \<lambda>X Y. if unat (X - x) < 9 \<and> unat (Y - y) < 16 then (if glyph c (unat (X - x)) (unat (Y - y)) then fg else bg)
       else pic X Y))"

definition cell_text :: "u32 \<Rightarrow> u32 \<Rightarrow> u32 \<Rightarrow> u8 list \<Rightarrow> view \<Rightarrow> view" where
  "cell_text orig_x bg fg = fold (cell_char orig_x bg fg)"

definition write_text :: "nat \<times> nat \<Rightarrow> u32 \<Rightarrow> u32 \<Rightarrow> u32 \<Rightarrow> u32 \<Rightarrow> u8 list \<Rightarrow> (u32 \<Rightarrow> u32 \<Rightarrow> u32) \<Rightarrow> u32 \<Rightarrow> u32 \<Rightarrow> u32" where
  "write_text g x y bg fg t pic = (\<lambda>X Y. if on_screen g X Y then snd (snd (cell_text x bg fg t (x, y, pic))) X Y else 0)"

definition string_out :: "'a user_state_scheme \<Rightarrow> u64 \<Rightarrow> u8 list \<Rightarrow> bool" where
  "string_out s p bs \<longleftrightarrow> cstr (mem s) p bs \<and> (\<forall>i\<le>length bs. \<not> call_may_change s (p + of_nat i))"

lemma string_out_kept:
  assumes "user_ok s" "call_kept s s'" "string_out s p bs"
  shows "string_out s' p bs"
proof -
  have "cstr (mem s') p bs"
    by (rule cstr_cong [of "mem s"]) (use assms(3) keptD(1) [OF assms(2)] in \<open>auto simp: string_out_def\<close>)
  then show ?thesis using assms(3) user_kept_ok(7) [OF assms(1,2)] by (simp add: string_out_def)
qed

lemma ioctl_arg:
  assumes "i < length vs" "i < 9"
  shows "ioctl_args (mem (in_kernel env s (0x1 # 1 # cmd # vs))) (kernel_stack s - 192) i = vs ! i"
  using assms in_kernel_fields(5) [where i = i and s = s and env = env and vs = "0x1 # 1 # cmd # vs"] by (simp add: pass_def)

lemma screen_bounds:
  "framebuffer_get_width s = of_nat (fst (geometry s))" "framebuffer_get_height s = of_nat (snd (geometry s))"
  by (simp_all add: framebuffer_get_width_def framebuffer_get_height_def geometry_def fb_w_def fb_h_def)

lemma clear_call_step:
  assumes "user_ok s"
  shows "\<exists>s'. IOCTL env s 1 FRAMEBUFFER_CLEARSCREEN [c] = Some s' \<and> call_kept s s' \<and> getpix s' = blank (geometry s) (ucast c)"
proof -
  let ?t = "in_kernel env s [0x1, 1, 0, c]"
  note t = in_kernel_ok [OF assms, of env "[0x1, 1, 0, c]"]
  obtain ps where ps: "framebuffer_clear ?t (ucast c) = Some (paint framebuffer_putpix ?t ps)"
    "\<forall>X Y d. shown ?t X Y \<longrightarrow> colour_at ps X Y d = ucast c"
    using clear_draws [OF t(3)] by blast
  have "framebuffer_ioctl ?t 0 (ioctl_args (mem ?t) (kernel_stack s - 192)) = Some (0, paint framebuffer_putpix ?t ps)"
    using ps(1) ioctl_arg [of 0 "[c]" env s 0] by (simp add: framebuffer_ioctl_def)
  from IOCTL_paints [OF assms this] obtain s' where s': "IOCTL env s 1 0 [c] = Some s'" "call_kept s s'"
    "getpix s' = (\<lambda>X Y. if shown s X Y then colour_at ps X Y (getpix s X Y) else 0)" by blast
  have "getpix s' = blank (geometry s) (ucast c)"
    using ps(2) user_kept_ok(3) [OF assms t(1)] by (auto simp: s'(3) blank_def fun_eq_iff)
  then show ?thesis using s' by blast
qed

lemma putpix_call_step:
  assumes "user_ok s"
  shows "\<exists>s'. putpix_call env s x y c = Some s' \<and> call_kept s s' \<and>
    getpix s' = (\<lambda>X Y. if drawable (geometry s) X Y \<and> X = x \<and> Y = y then c else getpix s X Y)"
proof -
  let ?vs = "[ucast x, ucast y, ucast c] :: u64 list"
  let ?t = "in_kernel env s (0x1 # 1 # 1 # ?vs)"
  note t = in_kernel_ok [OF assms, of env "0x1 # 1 # 1 # ?vs"]
  have ok: "fb_ok s" using assms by (simp add: user_ok_def con_ok_def)
  have wh: "framebuffer_get_width ?t = of_nat (fst (geometry s))" "framebuffer_get_height ?t = of_nat (snd (geometry s))"
    by (simp_all only: screen_bounds t(5))
  have less: "(ucast a :: u64) < ucast b \<longleftrightarrow> a < b" for a b :: u32 by (simp add: word_less_nat_alt)
  have uc: "ucast (ucast w :: u64) = (w :: u32)" for w by (rule bit_word_eqI) (auto simp: bit_simps)
  define far where "far \<longleftrightarrow> of_nat (fst (geometry s)) - 5 < x \<or> of_nat (snd (geometry s)) - 5 < y"
  define ps where "ps = (if far then [] else [(x, y, c)])"
  have "framebuffer_ioctl ?t 1 (ioctl_args (mem ?t) (kernel_stack s - 192)) = Some (0, paint framebuffer_putpix ?t ps)"
    using ioctl_arg [of 0 ?vs env s 1] ioctl_arg [of 1 ?vs env s 1] ioctl_arg [of 2 ?vs env s 1]
    by (simp add: framebuffer_ioctl_def wh less uc far_def ps_def)
  from IOCTL_paints [OF assms this] obtain s' where s': "IOCTL env s 1 1 ?vs = Some s'" "call_kept s s'"
    "getpix s' = (\<lambda>X Y. if shown s X Y then colour_at ps X Y (getpix s X Y) else 0)" by blast
  have "getpix s' X Y = (if drawable (geometry s) X Y \<and> X = x \<and> Y = y then c else getpix s X Y)" for X Y
    using getpix_off [OF ok, of X Y] by (auto simp: s'(3) ps_def far_def drawable_def not_less)
  then show ?thesis using s'(1,2) by (auto simp: putpix_call_def fun_eq_iff)
qed

text \<open>Text, over the loop of the driver.\<close>

lemma cell_text_simps:
  "cell_text ox bg fg [] v = v" "cell_text ox bg fg (c # cs) v = cell_text ox bg fg cs (cell_char ox bg fg c v)"
  by (simp_all add: cell_text_def)

lemma ioctl_putstr_draws:
  assumes "fb_ok s" "font_loaded s" "string_off s str bs" "printable bs"
  shows "\<exists>ps. ioctl_putstr s str ox x y bg fg i = Some (paint framebuffer_putpix s ps) \<and>
    (\<forall>pic X Y. colour_at ps X Y (pic X Y) = snd (snd (cell_text ox bg fg (drop (unat i) bs) (x, y, pic))) X Y)"
  using assms(1,2,3)
proof (induction "unat (of_nat (length bs) - i)" arbitrary: s x y i rule: less_induct)
  case less
  have cs: "cstr (mem s) str bs" using less.prems(3) by (simp add: string_off_def)
  have n: "kstrlen (mem s) str = Some (of_nat (length bs))" using kstrlen_cstr [OF cs] .
  have len: "length bs < 18446744073709551616" using cstr_length [OF cs] .
  show ?case
  proof (cases "i < of_nat (length bs)")
    case False
    then have "ioctl_putstr s str ox x y bg fg i = Some s" using n by (subst ioctl_putstr.simps) simp
    moreover have "length bs \<le> unat i" using False len by (simp add: word_less_nat_alt unat_of_nat)
    ultimately show ?thesis by (intro exI [of _ "[]"]) (simp add: cell_text_simps)
  next
    case True
    note m = loop_measure [OF True]
    have i: "unat i < length bs" using True len by (simp add: word_less_nat_alt unat_of_nat)
    have c: "mem s (str + i) = bs ! unat i"
    proof -
      have "mem s (str + of_nat (unat i)) = bs ! unat i" using cs i unfolding cstr_nth by blast
      then show ?thesis by simp
    qed
    have d: "drop (unat i) bs = bs ! unat i # drop (unat (i + 1)) bs"
      using i unat_Suc_less [OF True] by (simp add: Cons_nth_drop_Suc)
    show ?thesis
    proof (cases "bs ! unat i = 0x0A")
      case nl: True
      obtain qs where "ioctl_putstr s str ox ox (y + (FONT_HEIGHT + 4)) bg fg (i + 1) = Some (paint framebuffer_putpix s qs)"
        "\<forall>pic X Y. colour_at qs X Y (pic X Y) =
           snd (snd (cell_text ox bg fg (drop (unat (i + 1)) bs) (ox, y + (FONT_HEIGHT + 4), pic))) X Y"
        using less.hyps [OF m less.prems] by blast
      then show ?thesis
        by (intro exI [of _ qs], subst ioctl_putstr.simps)
          (use n True nl c in \<open>simp add: d cell_text_simps cell_char_def add.commute\<close>)
    next
      case nl: False
      then have pr: "32 \<le> unat (bs ! unat i)" "unat (bs ! unat i) \<le> 126" using assms(4) i by (auto simp: printable_def)
      obtain ps where ps: "framebuffer_putch s x y (bs ! unat i) bg fg = paint framebuffer_putpix s ps"
        "\<forall>X Y d. colour_at ps X Y d = (if unat (X - x) < 9 \<and> unat (Y - y) < 16 then
           (if glyph (bs ! unat i) (unat (X - x)) (unat (Y - y)) then fg else bg) else d)"
        using putch_draws [OF less.prems(1,2) pr] by blast
      define t where "t = paint framebuffer_putpix s ps"
      have same: "same_screen s t" unfolding t_def by (rule paint_same [OF less.prems(1)])
      obtain qs where qs: "ioctl_putstr t str ox (x + FONT_WIDTH) y bg fg (i + 1) = Some (paint framebuffer_putpix t qs)"
        "\<forall>pic X Y. colour_at qs X Y (pic X Y) =
           snd (snd (cell_text ox bg fg (drop (unat (i + 1)) bs) (x + FONT_WIDTH, y, pic))) X Y"
        using less.hyps [OF m same_screen_ok(1) [OF less.prems(1) same] font_kept [OF less.prems(1) same less.prems(2)]
          string_off_same [OF less.prems(1) same less.prems(3)]] by blast
      have "ioctl_putstr s str ox x y bg fg i = Some (paint framebuffer_putpix s (ps @ qs))"
        using n True nl c qs(1) ps(1) by (subst ioctl_putstr.simps) (simp add: paint_append t_def)
      moreover have "colour_at (ps @ qs) X Y (pic X Y) =
          snd (snd (cell_text ox bg fg (drop (unat i) bs) (x, y, pic))) X Y" for pic X Y
        using qs(2) [rule_format, of X Y "\<lambda>X Y. colour_at ps X Y (pic X Y)"] nl
        by (simp add: colour_at_append d cell_text_simps cell_char_def ps(2))
      ultimately show ?thesis by blast
    qed
  qed
qed

lemma putstr_call_step:
  assumes "user_ok s" "string_out s p bs" "printable bs"
  shows "\<exists>s'. IOCTL env s 1 FRAMEBUFFER_PUTSTR [x, y, p, bg, fg] = Some s' \<and> call_kept s s' \<and>
    getpix s' = write_text (geometry s) (ucast x) (ucast y) (ucast bg) (ucast fg) bs (getpix s)"
proof -
  let ?vs = "[x, y, p, bg, fg]"
  let ?t = "in_kernel env s (0x1 # 1 # 2 # ?vs)"
  note t = in_kernel_ok [OF assms(1), of env "0x1 # 1 # 2 # ?vs"]
  have "string_out ?t p bs" by (rule string_out_kept [OF assms(1) t(1) assms(2)])
  then have "string_off ?t p bs" by (auto simp: string_out_def string_off_def call_may_change_def)
  from ioctl_putstr_draws [OF t(3,4) this assms(3)] obtain ps where ps:
    "ioctl_putstr ?t p (ucast x) (ucast x) (ucast y) (ucast bg) (ucast fg) 0 = Some (paint framebuffer_putpix ?t ps)"
    "\<forall>pic X Y. colour_at ps X Y (pic X Y) = snd (snd (cell_text (ucast x) (ucast bg) (ucast fg) bs (ucast x, ucast y, pic))) X Y"
    by (metis drop0 unsigned_0)
  have "framebuffer_ioctl ?t 2 (ioctl_args (mem ?t) (kernel_stack s - 192)) = Some (0, paint framebuffer_putpix ?t ps)"
    using ps(1) ioctl_arg [of 0 ?vs env s 2] ioctl_arg [of 1 ?vs env s 2] ioctl_arg [of 2 ?vs env s 2]
      ioctl_arg [of 3 ?vs env s 2] ioctl_arg [of 4 ?vs env s 2]
    by (simp add: framebuffer_ioctl_def)
  from IOCTL_paints [OF assms(1) this] show ?thesis using ps(2) by (auto simp: write_text_def fun_eq_iff)
qed

section \<open>What the drawing library needs\<close>

text \<open>A surface: an operation that puts one pixel and may leave it out, and leaves the rest of a picture and, up to
  a relation, the rest of the state.\<close>

locale surface =
  fixes ok :: "'s \<Rightarrow> bool" and same :: "'s \<Rightarrow> 's \<Rightarrow> bool" and inside :: "'s \<Rightarrow> u32 \<Rightarrow> u32 \<Rightarrow> bool"
    and pix :: "'s \<Rightarrow> u32 \<Rightarrow> u32 \<Rightarrow> u32" and put :: "'s \<Rightarrow> u32 \<Rightarrow> u32 \<Rightarrow> u32 \<Rightarrow> 's option"
  assumes put: "ok s \<Longrightarrow> \<exists>s'. put s x y c = Some s' \<and> same s s' \<and>
      pix s' = (\<lambda>X Y. if inside s X Y \<and> X = x \<and> Y = y then c else pix s X Y)"
    and same_ok: "ok s \<Longrightarrow> same s s' \<Longrightarrow> ok s' \<and> inside s' = inside s"
    and same_refl: "same s s"
    and same_trans: "ok s \<Longrightarrow> same s t \<Longrightarrow> same t u \<Longrightarrow> same s u"
begin

lemma square_row_fills:
  "ok s \<Longrightarrow> \<exists>s'. square_row put s cy color x_end cx = Some s' \<and> same s s' \<and>
     pix s' = (\<lambda>X Y. if inside s X Y \<and> cx \<le> X \<and> X < x_end \<and> Y = cy then color else pix s X Y)"
proof (induction "unat (x_end - cx)" arbitrary: s cx rule: less_induct)
  case less
  show ?case
  proof (cases "cx < x_end")
    case True
    obtain t where t: "put s cx cy color = Some t" "same s t"
      "pix t = (\<lambda>X Y. if inside s X Y \<and> X = cx \<and> Y = cy then color else pix s X Y)"
      using put [OF less.prems] by blast
    obtain u where u: "square_row put t cy color x_end (cx + 1) = Some u" "same t u"
      "pix u = (\<lambda>X Y. if inside t X Y \<and> cx + 1 \<le> X \<and> X < x_end \<and> Y = cy then color else pix t X Y)"
      using less.hyps [OF loop_measure [OF True]] same_ok [OF less.prems t(2)] by blast
    have "cx \<le> X \<longleftrightarrow> X = cx \<or> cx + 1 \<le> X" for X using Suc_le_iff_less [OF True, of X] by auto
    then have "pix u = (\<lambda>X Y. if inside s X Y \<and> cx \<le> X \<and> X < x_end \<and> Y = cy then color else pix s X Y)"
      using True same_ok [OF less.prems t(2)] by (auto simp: u(3) t(3) fun_eq_iff)
    moreover have "square_row put s cy color x_end cx = Some u"
      using True t(1) u(1) by (subst square_row.simps) simp
    ultimately show ?thesis using same_trans [OF less.prems t(2) u(2)] by blast
  next
    case False
    then have "\<not> (cx \<le> X \<and> X < x_end)" for X by auto
    moreover have "square_row put s cy color x_end cx = Some s" using False by (subst square_row.simps) simp
    ultimately show ?thesis using same_refl by (auto intro!: exI [of _ s] simp: fun_eq_iff)
  qed
qed

lemma square_rows_fill:
  "ok s \<Longrightarrow> \<exists>s'. square_rows put s x width color y_end cy = Some s' \<and> same s s' \<and>
     pix s' = (\<lambda>X Y. if inside s X Y \<and> x \<le> X \<and> X < x + width \<and> cy \<le> Y \<and> Y < y_end then color else pix s X Y)"
proof (induction "unat (y_end - cy)" arbitrary: s cy rule: less_induct)
  case less
  show ?case
  proof (cases "cy < y_end")
    case True
    obtain t where t: "square_row put s cy color (x + width) x = Some t" "same s t"
      "pix t = (\<lambda>X Y. if inside s X Y \<and> x \<le> X \<and> X < x + width \<and> Y = cy then color else pix s X Y)"
      using square_row_fills [OF less.prems] by blast
    obtain u where u: "square_rows put t x width color y_end (cy + 1) = Some u" "same t u"
      "pix u = (\<lambda>X Y. if inside t X Y \<and> x \<le> X \<and> X < x + width \<and> cy + 1 \<le> Y \<and> Y < y_end then color else pix t X Y)"
      using less.hyps [OF loop_measure [OF True]] same_ok [OF less.prems t(2)] by blast
    have "cy \<le> Y \<longleftrightarrow> Y = cy \<or> cy + 1 \<le> Y" for Y using Suc_le_iff_less [OF True, of Y] by auto
    then have "pix u = (\<lambda>X Y. if inside s X Y \<and> x \<le> X \<and> X < x + width \<and> cy \<le> Y \<and> Y < y_end then color else pix s X Y)"
      using True same_ok [OF less.prems t(2)] by (auto simp: u(3) t(3) fun_eq_iff)
    moreover have "square_rows put s x width color y_end cy = Some u"
      using True t(1) u(1) by (subst square_rows.simps) simp
    ultimately show ?thesis using same_trans [OF less.prems t(2) u(2)] by blast
  next
    case False
    then have "\<not> (cy \<le> Y \<and> Y < y_end)" for Y by auto
    moreover have "square_rows put s x width color y_end cy = Some s" using False by (subst square_rows.simps) simp
    ultimately show ?thesis using same_refl by (auto intro!: exI [of _ s] simp: fun_eq_iff)
  qed
qed

end

interpretation calls: surface user_ok "\<lambda>s. kept_off (call_may_change s) s" "\<lambda>s. drawable (geometry s)" getpix "putpix_call env"
  for env
proof (unfold_locales, goal_cases)
  case (1 s x y c)
  then show ?case by (rule putpix_call_step)
next
  case (2 s s')
  then show ?case using user_kept_ok(1,4) by metis
next
  case (3 s)
  then show ?case by (rule kept_refl)
next
  case (4 s t u)
  then show ?case by (rule call_kept_trans)
qed

lemma libgfx_draw_square_step:
  assumes "user_ok s"
  shows "\<exists>s'. libgfx_draw_square env s x y width height color = Some s' \<and> call_kept s s' \<and>
    getpix s' = fill_square (geometry s) x y width height color (getpix s)"
  unfolding libgfx_draw_square_def fill_square_def by (rule calls.square_rows_fill [OF assms])

section \<open>Windows\<close>

text \<open>The picture of a window with its bar and title, and the one that the window manager ends with.\<close>

definition window_picture :: "nat \<times> nat \<Rightarrow> u32 \<Rightarrow> u32 \<Rightarrow> u32 \<Rightarrow> u32 \<Rightarrow> u8 list \<Rightarrow> (u32 \<Rightarrow> u32 \<Rightarrow> u32) \<Rightarrow> u32 \<Rightarrow> u32 \<Rightarrow> u32" where
  "window_picture g x y width height title pic =
     write_text g (ucast (ucast x :: u16)) (ucast (ucast y :: u16)) 0x458588 0xFBF1C7 title
       (fill_square g x y width 17 0x458588 (fill_square g x y width height 0xEBDBB2 pic))"

definition welcome_picture :: "nat \<times> nat \<Rightarrow> u32 \<Rightarrow> u32 \<Rightarrow> u32" where
  "welcome_picture g =
     write_text g 55 70 0xEBDBB2 0 (ascii ''Welcome to'' @ 0x0A # ascii ''IgnisOS!'')
       (window_picture g 50 50 300 300 (ascii ''Welcome :-)'') (blank g 0x1D2021))"

lemma libgfx_open_window_step:
  assumes "user_ok s"
  shows "\<exists>s'. libgfx_open_window env s x y width height bg fg = Some s' \<and> call_kept s s' \<and>
    getpix s' = fill_square (geometry s) x y width 17 fg (fill_square (geometry s) x y width height bg (getpix s))"
proof -
  obtain t where t: "libgfx_draw_square env s x y width height bg = Some t" "call_kept s t"
    "getpix t = fill_square (geometry s) x y width height bg (getpix s)"
    using libgfx_draw_square_step [OF assms] by blast
  note ok = user_kept_ok(1,4) [OF assms t(2)]
  obtain u where "libgfx_draw_square env t x y width 17 fg = Some u" "call_kept t u"
    "getpix u = fill_square (geometry t) x y width 17 fg (getpix t)"
    using libgfx_draw_square_step [OF ok(1)] by blast
  then show ?thesis
    using t call_kept_trans [OF assms t(2)] by (simp add: libgfx_open_window_def draw_window_bar_def ok(2))
qed

lemma kesswm_open_window_step:
  assumes "user_ok s" "string_out s title bs" "printable bs"
  shows "\<exists>s'. kesswm_open_window env s x y width height title = Some (\<lparr>win_x = ucast x, win_y = ucast y\<rparr>, s') \<and>
    call_kept s s' \<and> getpix s' = window_picture (geometry s) x y width height bs (getpix s)"
proof -
  obtain t where t: "libgfx_open_window env s x y width height 0xEBDBB2 0x458588 = Some t" "call_kept s t"
    "getpix t = fill_square (geometry s) x y width 17 0x458588 (fill_square (geometry s) x y width height 0xEBDBB2 (getpix s))"
    using libgfx_open_window_step [OF assms(1)] by blast
  note ok = user_kept_ok(1,4) [OF assms(1) t(2)]
  have uc: "ucast (ucast w :: u64) = (ucast w :: u32)" for w :: u16 by (rule bit_word_eqI) (auto simp: bit_simps)
  obtain u where "IOCTL env t 1 2 [ucast (ucast x :: u16), ucast (ucast y :: u16), title, 0x458588, 0xFBF1C7] = Some u" "call_kept t u"
    "getpix u = write_text (geometry t) (ucast (ucast x :: u16)) (ucast (ucast y :: u16)) 0x458588 0xFBF1C7 bs (getpix t)"
    using putstr_call_step [where env = env and x = "ucast (ucast x :: u16)" and y = "ucast (ucast y :: u16)" and bg = "0x458588"
        and fg = "0xFBF1C7", OF ok(1) string_out_kept [OF assms(1) t(2) assms(2)] assms(3)]
    unfolding uc by auto
  then show ?thesis
    using t call_kept_trans [OF assms(1) t(2)] by (simp add: kesswm_open_window_def window_picture_def ok(2) Let_def)
qed

section \<open>Claims\<close>

text \<open>C40: A square that a program draws pixel by pixel, one system call each, is exactly the square: the calls return, each
  pixel of the rectangle that the driver lets a program put has the colour, every other pixel is as before, and so is all
  memory but the screen, the frame on the kernel stack and the copy of the arguments.  A rectangle whose right or lower
  edge is beyond the range of 32 bits is empty.\<close>

theorem libgfx_draw_square_correct:
  assumes "user_ok s"
  shows "\<exists>s'. libgfx_draw_square env s x y width height color = Some s' \<and> call_kept s s' \<and>
    getpix s' = fill_square (geometry s) x y width height color (getpix s)"
  using assms by (rule libgfx_draw_square_step)

text \<open>C6: The window manager returns from all of its system calls and leaves the picture it is meant to draw: the
  background, the window on it, the bar and the title over the window and the two lines of text under the bar; everything
  but the screen and the bytes that entering the kernel writes is as before.\<close>

theorem kesswm_main_correct:
  assumes "user_ok s" "string_out s (lit (ascii ''Welcome :-)'')) (ascii ''Welcome :-)'')"
    "string_out s (lit (ascii ''Welcome to'' @ 0x0A # ascii ''IgnisOS!'')) (ascii ''Welcome to'' @ 0x0A # ascii ''IgnisOS!'')"
  shows "\<exists>s'. kesswm_main lit env s = Some s' \<and> call_kept s s' \<and> getpix s' = welcome_picture (geometry s)"
proof -
  let ?title = "ascii ''Welcome :-)''" and ?text = "ascii ''Welcome to'' @ 0x0A # ascii ''IgnisOS!''"
  have pr: "printable ?title" "printable ?text" by (simp_all add: printable_def ascii_def)
  obtain t where t: "kesswm_draw_desktop env s = Some t" "call_kept s t" "getpix t = blank (geometry s) 0x1D2021"
    using clear_call_step [OF assms(1), where env = env and c = "0x1D2021"] by (auto simp: kesswm_draw_desktop_def)
  note ok = user_kept_ok(1,4) [OF assms(1) t(2)]
  obtain u where u: "kesswm_open_window env t 50 50 300 300 (lit ?title) = Some (\<lparr>win_x = 50, win_y = 50\<rparr>, u)" "call_kept t u"
    "getpix u = window_picture (geometry t) 50 50 300 300 ?title (getpix t)"
    using kesswm_open_window_step [OF ok(1) string_out_kept [OF assms(1) t(2) assms(2)] pr(1), where env = env and x = 50 and y = 50
        and width = 300 and height = 300] by auto
  have su: "call_kept s u" by (rule call_kept_trans [OF assms(1) t(2) u(2)])
  note oku = user_kept_ok(1,4) [OF assms(1) su]
  obtain s' where s': "IOCTL env u 1 2 [55, 70, lit ?text, 0xEBDBB2, 0] = Some s'" "call_kept u s'"
    "getpix s' = write_text (geometry u) 55 70 0xEBDBB2 0 ?text (getpix u)"
    using putstr_call_step [OF oku(1) string_out_kept [OF assms(1) su assms(3)] pr(2), where env = env and x = 55 and y = 70
        and bg = "0xEBDBB2" and fg = 0] by auto
  have "kesswm_main lit env s = Some s'"
    using t(1) u(1) s'(1) by (simp add: kesswm_main_def kesswm_putstr_def)
  moreover have "call_kept s s'" by (rule call_kept_trans [OF assms(1) su s'(2)])
  moreover have "getpix s' = welcome_picture (geometry s)"
    by (simp add: s'(3) u(3) t(3) oku(2) ok(2) welcome_picture_def)
  ultimately show ?thesis by blast
qed

text \<open>C22: A program prints with a system call what it has in its own memory and nothing else: if the address is in its
  range the text appears on the console, after clearing when it begins so, and otherwise the call returns with
  the console as it was.\<close>

theorem puts_correct:
  assumes "user_ok s" "\<forall>a. in_range (running_process s) sizeof_process a \<longrightarrow> \<not> call_scratch s a"
    "readable (call_may_change s) s str t" "0x25 \<notin> set (body t)" "printable (body t)"
  shows "\<exists>s'. puts env s str = Some s' \<and> kept_off (\<lambda>a. call_may_change s a \<or> scratch s a) s s' \<and>
    view s' = (let img = p_img (mem s) (running_process s) in if prog_start img \<le> str \<and> str \<le> prog_end img
      then draw_text (geometry s) (colour t) (body t) (start_view s t) else view s)"
proof -
  define u where "u = in_kernel env s [0x0, str]"
  let ?Q = "\<lambda>a. call_may_change s a \<or> scratch s a"
  note uk = in_kernel_ok [OF assms(1), of env "[0x0, str]", folded u_def]
  note k = keptD [OF uk(1)] and ks = user_kept_ok [OF assms(1) uk(1)]
  have cur: "con_x u = con_x s" "con_y u = con_y s" "con_panic u = con_panic s" by (simp_all add: u_def in_kernel_def)
  then have v: "view u = view s" "start_view u t = start_view s t"
    using uk(5,6) by (simp_all add: view_def start_view_def)
  have img: "p_img (mem u) (running_process s) = p_img (mem s) (running_process s)"
  proof -
    have "ld64 (mem u) (running_process s + d) = ld64 (mem s) (running_process s + d)" if "unat d \<le> 240" for d
    proof (rule cell64.rd_cong)
      fix a assume "in_range (running_process s + d) 8 a"
      then have "in_range (running_process s) sizeof_process a" by (rule in_range_field) (use that in simp)
      then have "\<not> call_scratch s a" using assms(2) by blast
      then show "mem u a = mem s a" unfolding u_def by (rule keptD(1) [OF in_kernel_kept])
    qed
    then show ?thesis by (simp add: p_img_def)
  qed
  have cs: "cstr (mem u) str t"
    by (rule cstr_cong [of "mem s"]) (use assms(3) k(1) in \<open>auto simp: readable_def\<close>)
  have rd: "readable (visible_byte u) u str t"
    using assms(3) cs by (auto simp: readable_def ks(2) k(4) call_may_change_def)
  note plain = expand_plain [OF assms(4)]
  obtain n w where w: "console_write u str (va_junk env) 0 = Some (n, w)" "kept u w"
    "view w = draw_text (geometry s) (colour t) (body t) (start_view s t)"
    using console_write_step [OF uk(2) rd, of "\<lambda>_. []" "va_junk env" 0] plain assms(5) by (auto simp: v uk(5))
  note f = in_kernel_fields [where vs = "[0x0, str]" and env = env and s = s, folded u_def]
  define in_prog where "in_prog \<longleftrightarrow> prog_start (p_img (mem s) (running_process s)) \<le> str \<and> str \<le> prog_end (p_img (mem s) (running_process s))"
  define s' where "s' = (if in_prog then w else u)"
  have "sys_conout (va_junk env) u (kernel_stack s - 192) = Some s'"
    using w(1) by (auto simp: sys_conout_def Let_def f(2) pass_def k(11) img s'_def in_prog_def)
  then have "trap (initrd_text env) (va_junk env) u (kernel_stack s - 192) = Some (Returns 0 s')"
    by (simp add: trap_def syscall_table_def f(1,4) pass_def)
  then have "puts env s str = Some s'"
    by (simp add: puts_def syscall_enters [OF assms(1)] u_def trap_end_def returning_def)
  moreover have "kept_off ?Q s u" using uk(1) unfolding kept_off_def by (rule others_mono) simp
  moreover have "kept_off ?Q u w"
    using w(2) unfolding kept_off_def by (rule others_mono) (auto simp: may_change_def ks(2) k(4) call_may_change_def)
  ultimately show ?thesis
    using w(3) v by (auto simp: s'_def in_prog_def kept_off_def Let_def)
qed

text \<open>A machine with the screen of twenty by twenty pixels: the task state segment is at 0x6000 and names a stack that
  ends at 0x20000, the texts are at 0x6100 and 0x6120, the record of the process at 0x6200.\<close>

definition user_bytes :: "u8 list" where
  "user_bytes = map (\<lambda>i. if i = 6 then 2 else if 0x100 \<le> i \<and> i < 0x10B then ascii ''Welcome :-)'' ! (i - 0x100)
     else if 0x120 \<le> i \<and> i < 0x133 then (ascii ''Welcome to'' @ 0x0A # ascii ''IgnisOS!'') ! (i - 0x120)
     else if i = 0x2D1 then 0x60 else if i = 0x2D9 then 0x70 else 0) [0..<0x300]"

definition user_machine :: user_state where
  "user_machine = console_state.extend ((con_machine user_bytes)\<lparr>tss := 0x6000, running_process := 0x6200\<rparr>)
     (user_state.fields 0x8000 0)"

definition user_lit :: "u8 list \<Rightarrow> u64" where
  "user_lit t = (if t = ascii ''Welcome :-)'' then 0x6100 else 0x6120)"

definition quiet :: "user_state environ" where
  "quiet = \<lparr>initrd_text = 0, va_junk = \<lambda>_. 0, other_regs = \<lambda>_ _. 0, unpassed = \<lambda>_ _. 0\<rparr>"

lemma user_machine_fields:
  "mem user_machine = con_mem user_bytes" "framebuffer user_machine = 0x30000" "font_data user_machine = 0x40000"
  "dec_buffer user_machine = 0x7000" "hex_buffer user_machine = 0x7200" "char_buffer user_machine = 0x7400"
  "tss user_machine = 0x6000" "running_process user_machine = 0x6200" "syscall_args user_machine = 0x8000"
  "con_panic user_machine = 0"
  using con_machine_fields [of user_bytes]
  by (simp_all add: user_machine_def console_state.defs user_state.defs)

lemma user_mem:
  assumes "i < 0x300"
  shows "con_mem user_bytes (0x6000 + of_nat i) = user_bytes ! i"
proof -
  have "unat (0x6000 + of_nat i :: u64) = 0x6000 + i" "unat (of_nat i :: u64) = i"
    using assms by (simp_all add: unat_word_ariths unat_of_nat)
  then show ?thesis using assms by (simp add: con_mem_def user_bytes_def)
qed

lemma user_geometry:
  "fb_base user_machine = 0x50000" "screen_size user_machine = 20 * 84" "geometry user_machine = (20, 20)"
  using con_geometry [of user_bytes]
  by (simp_all add: user_machine_fields con_machine_fields geometry_def fb_w_def fb_h_def)

lemma user_machine_con_ok: "con_ok user_machine"
  using con_machine_ok [of user_bytes]
  by (simp add: con_ok_def fb_ok_def font_loaded_def scratch_def display_byte_def fb_w_def fb_h_def fb_p_def
      user_machine_fields con_machine_fields)

lemma user_machine_stack: "kernel_stack user_machine = 0x20000"
proof -
  have "ld32 (con_mem user_bytes) 0x6004 = 0x20000" "ld32 (con_mem user_bytes) 0x6008 = 0"
    using user_mem [of 4] user_mem [of 5] user_mem [of 6] user_mem [of 7] user_mem [of 8] user_mem [of 9] user_mem [of 10]
      user_mem [of 11] by (simp_all add: ld32_eq_iff user_bytes_def)
  then show ?thesis by (simp add: kernel_stack_def rsp0_def user_machine_fields)
qed

lemma user_machine_may_change: "call_may_change user_machine a \<Longrightarrow> 0x8000 \<le> unat a"
proof -
  assume "call_may_change user_machine a"
  then consider "visible_byte user_machine a" | "in_range 0x1FF40 192 a" | "in_range 0x8000 48 a"
    by (auto simp: call_may_change_def call_scratch_def user_machine_stack user_machine_fields)
  then show ?thesis
  proof cases
    case 1
    have "fb_ok user_machine" using user_machine_con_ok by (simp add: con_ok_def)
    then have "in_range 0x50000 (20 * 84) a" using visible_in_screen 1 user_geometry(1,2) by metis
    then show ?thesis by (subst (asm) in_range_linear) simp_all
  qed (subst (asm) in_range_linear; simp)+
qed

lemma user_machine_ok: "user_ok user_machine"
proof -
  have "\<not> display_byte user_machine a \<and> \<not> in_range 0x6004 8 a" if "call_scratch user_machine a" for a
  proof -
    have "0x8000 \<le> unat a" "unat a < 0x20000"
      using that unfolding call_scratch_def user_machine_stack user_machine_fields
      by (elim disjE; subst (asm) in_range_linear; simp)+
    then show ?thesis unfolding display_byte_def user_geometry unfolding user_machine_fields
      by (simp add: in_range_linear)
  qed
  moreover have "\<not> visible_byte user_machine a" if "in_range 0x6004 8 a" for a
  proof -
    have "unat a < 0x8000" using that by (subst (asm) in_range_linear) simp_all
    then show ?thesis using user_machine_may_change [of a] by (auto simp: call_may_change_def)
  qed
  ultimately show ?thesis using user_machine_con_ok by (simp add: user_ok_def user_machine_fields)
qed

lemma user_string:
  assumes "p + length t < 0x300" "\<forall>i<length t. user_bytes ! (p + i) = t ! i" "user_bytes ! (p + length t) = 0" "0 \<notin> set t"
  shows "readable (call_may_change user_machine) user_machine (0x6000 + of_nat p) t"
proof -
  have a: "unat (0x6000 + of_nat p + of_nat i :: u64) = 0x6000 + (p + i)" if "i \<le> length t" for i
    using that assms(1) by (simp add: unat_word_ariths unat_of_nat)
  have m: "con_mem user_bytes (0x6000 + of_nat p + of_nat i) = user_bytes ! (p + i)" if "i \<le> length t" for i
    using user_mem [of "p + i"] that assms(1) by (simp add: add.assoc)
  have "cstr (con_mem user_bytes) (0x6000 + of_nat p) t"
    unfolding cstr_nth using assms(2,3,4) m by (metis less_imp_le nth_mem order_refl)
  moreover have "\<not> call_may_change user_machine (0x6000 + of_nat p + of_nat i)" if "i \<le> length t" for i
  proof
    assume "call_may_change user_machine (0x6000 + of_nat p + of_nat i)"
    then show False using user_machine_may_change [of "0x6000 + of_nat p + of_nat i"] a [OF that] that assms(1) by simp
  qed
  moreover have "\<not> scratch user_machine (0x6000 + of_nat p + of_nat i)" if "i \<le> length t" for i
    using a [OF that] that assms(1) unfolding scratch_def user_machine_fields by (simp add: in_range_linear)
  ultimately show ?thesis by (simp add: readable_def user_machine_fields)
qed

lemma user_strings:
  "readable (call_may_change user_machine) user_machine 0x6100 (ascii ''Welcome :-)'')"
  "readable (call_may_change user_machine) user_machine 0x6120 (ascii ''Welcome to'' @ 0x0A # ascii ''IgnisOS!'')"
proof -
  have l: "length (ascii ''Welcome :-)'') = 11" "length (ascii ''Welcome to'' @ 0x0A # ascii ''IgnisOS!'') = 19"
    "0 \<notin> set (ascii ''Welcome :-)'')" "0 \<notin> set (ascii ''Welcome to'' @ 0x0A # ascii ''IgnisOS!'')"
    by (simp_all add: ascii_def)
  show "readable (call_may_change user_machine) user_machine 0x6100 (ascii ''Welcome :-)'')"
    using user_string [of "0x100" "ascii ''Welcome :-)''"] l unfolding user_bytes_def by simp
  show "readable (call_may_change user_machine) user_machine 0x6120 (ascii ''Welcome to'' @ 0x0A # ascii ''IgnisOS!'')"
    using user_string [of "0x120" "ascii ''Welcome to'' @ 0x0A # ascii ''IgnisOS!''"] l unfolding user_bytes_def by simp
qed

lemma readable_string_out: "readable (call_may_change s) s p t \<Longrightarrow> string_out s p t"
  by (simp add: readable_def string_out_def)

theorem libgfx_draw_square_correct_witness:
  "\<exists>s'. libgfx_draw_square quiet user_machine 2 3 4 5 0xFF00 = Some s' \<and> getpix s' 5 7 = 0xFF00 \<and> getpix s' 6 7 = getpix user_machine 6 7"
  using libgfx_draw_square_correct [OF user_machine_ok, of quiet 2 3 4 5 "0xFF00"]
  by (auto simp: fill_square_def drawable_def on_screen_def user_geometry)

theorem kesswm_main_correct_witness:
  "\<exists>s'. kesswm_main user_lit quiet user_machine = Some s' \<and> getpix s' 19 7 = 0x1D2021"
proof -
  have lit: "user_lit (ascii ''Welcome :-)'') = 0x6100" "user_lit (ascii ''Welcome to'' @ 0x0A # ascii ''IgnisOS!'') = 0x6120"
    by (simp_all add: user_lit_def ascii_def)
  obtain s' where s': "kesswm_main user_lit quiet user_machine = Some s'" "getpix s' = welcome_picture (20, 20)"
    using kesswm_main_correct [where lit = user_lit and env = quiet, OF user_machine_ok] user_strings
    unfolding lit user_geometry by (auto intro: readable_string_out)
  have "welcome_picture (20, 20) 19 7 = 0x1D2021"
    by (simp add: welcome_picture_def window_picture_def write_text_def fill_square_def blank_def on_screen_def drawable_def
        cell_text_def cell_char_def ascii_def)
  then show ?thesis using s' by auto
qed

theorem puts_correct_witness:
  "\<exists>s'. puts quiet user_machine 0x6100 = Some s' \<and>
    view s' = draw_text (20, 20) (MAKE_FG_BG 0x808080 0) (ascii ''Welcome :-)'') (view user_machine)"
proof -
  let ?t = "ascii ''Welcome :-)''"
  have np: "\<not> prefixed d ?t" for d by (simp add: prefixed_def ascii_def)
  have t: "0x25 \<notin> set (body ?t)" "printable (body ?t)" "body ?t = ?t" "colour ?t = MAKE_FG_BG 0x808080 0"
    "start_view user_machine ?t = view user_machine"
    using np by (simp_all add: body_def colour_def start_view_def restarts_def) (simp_all add: ascii_def printable_def)
  have r: "\<forall>a. in_range (running_process user_machine) sizeof_process a \<longrightarrow> \<not> call_scratch user_machine a"
  proof (intro allI impI notI)
    fix a assume "in_range (running_process user_machine) sizeof_process a" "call_scratch user_machine a"
    then have "unat a < 0x8000" "0x8000 \<le> unat a"
      using user_machine_may_change [of a] by (auto simp: user_machine_fields in_range_linear call_may_change_def)
    then show False by simp
  qed
  have "ld64 (con_mem user_bytes) 0x62D0 = 0x6000" "ld64 (con_mem user_bytes) 0x62D8 = 0x7000"
    using user_mem [of "0x2D0"] user_mem [of "0x2D1"] user_mem [of "0x2D2"] user_mem [of "0x2D3"] user_mem [of "0x2D4"]
      user_mem [of "0x2D5"] user_mem [of "0x2D6"] user_mem [of "0x2D7"] user_mem [of "0x2D8"] user_mem [of "0x2D9"]
      user_mem [of "0x2DA"] user_mem [of "0x2DB"] user_mem [of "0x2DC"] user_mem [of "0x2DD"] user_mem [of "0x2DE"] user_mem [of "0x2DF"]
    by (simp_all add: ld64_eq_iff user_bytes_def)
  then have "prog_start (p_img (con_mem user_bytes) 0x6200) = 0x6000" "prog_end (p_img (con_mem user_bytes) 0x6200) = 0x7000"
    by (simp_all add: p_img_def)
  then show ?thesis
    using puts_correct [OF user_machine_ok r user_strings(1) t(1,2), of quiet] by (auto simp: user_machine_fields user_geometry t Let_def)
qed

end
