(* ===== verification/Spec2Isabelle.thy ===== *)
theory Spec2Isabelle
  imports Prelude Memory Kstring Pmm Vmm Mmap Heap Initrd Elf Vfs Tmpfs Io Pci Font Framebuffer Acpi Apic Idt Tss Proc Console Trap Mutex Keyboard Kmain Entry User
begin

text \<open>
  A verification development for IgnisOS: the kernel (directory \<open>sys\<close>) and the programs that run on
  it (directory \<open>usr\<close>), as they are built for x86-64.

  \<^bold>\<open>The system.\<close>  A boot loader enters \<open>_start\<close> (\<open>sys/src/kmain.c\<close>), which brings up the frame allocator, the
  kernel's address space and the heap, the file systems, the firmware tables, the interrupt tables and controllers, and enters
  the first program.  From then on the kernel runs in interrupts only: the timer makes \<open>trap\<close> switch to the next
  process, \<open>int 0x80\<close> makes it serve a system call (print, control a device, launch a program), and an exception is
  reported and halts the machine.  The first program launches the window manager, which draws its desktop by
  system calls.

  \<^bold>\<open>The state.\<close>  The static variables of each C file are the fields of a record, and each record extends that of the
  component below it: machine (memory and cr3), then pmm, vmm, heap, initrd, vfs, tmpfs, io, fb, acpi, apic, idt, tss, proc,
  console, kernel; the keyboard extends apic and a program extends console.  An operation is polymorphic in what
  extends its record, so a lower component runs unchanged on the state of a higher one.  Memory is one byte per
  64-bit address; C structures live in it at the offsets that the compiler gives them, and fields are read and
  written through little-endian accesses (\<open>Memory\<close>).  Device registers, by port or in memory, are a trace of bus events and a
  \<open>device\<close> that answers reads from that trace (\<open>Io\<close>).  Answers of the loader (memory map, modules, framebuffers, address
  of the firmware tables, offset of the higher half) are fields that no operation writes.

  \<^bold>\<open>Theories, from the bottom.\<close>
    \<^item> \<open>Prelude\<close>: word types, loop measures, circular address ranges, collections of rules.
    \<^item> \<open>Memory\<close>: accesses of 8 to 64 bits; locales \<open>memory_cell\<close> and \<open>two_cells\<close>.
    \<^item> \<open>Kstring\<close> (\<open>lib/string.c\<close>): closed forms of the loops, number texts and their round trips.
    \<^item> \<open>Pmm\<close> (\<open>mm/pmm.c\<close>): the bitmap as a set of free frames; locales \<open>frame_allocator\<close> and \<open>frame_allocator_release\<close>.
    \<^item> \<open>Vmm\<close> (\<open>mm/vmm.c\<close>): page tables as a function from pages to entries; locale \<open>address_space\<close>.
    \<^item> \<open>Mmap\<close>, \<open>Heap\<close> (\<open>mm/mmap.c\<close>, \<open>mm/heap.c\<close>): runs of pages, the chain of blocks and its invariant.
    \<^item> \<open>Initrd\<close>, \<open>Elf\<close> (\<open>fs/initrd.c\<close>, \<open>lib/module.c\<close>, \<open>lib/elf.c\<close>): the archive, loading an executable into an address space.
    \<^item> \<open>Vfs\<close>, \<open>Tmpfs\<close> (\<open>fs/vfs.c\<close>, \<open>fs/tmpfs.c\<close>): two levels of names over lists of nodes; locale \<open>filesystem\<close>, the
      calls through the pointers of a node, interpreted on the functions of tmpfs.
    \<^item> \<open>Io\<close>, \<open>Pci\<close> (\<open>arch/x86/io.c\<close>, \<open>drivers/pit.c\<close>, \<open>drivers/serial.c\<close>, \<open>arch/bus/pci/pci.c\<close>): ports and what goes through them.
    \<^item> \<open>Font\<close>, \<open>Framebuffer\<close> (\<open>lib/font.c\<close>, \<open>drivers/video/framebuffer.c\<close>): pixels; locale \<open>canvas\<close>.
    \<^item> \<open>Acpi\<close>, \<open>Apic\<close>, \<open>Idt\<close>, \<open>Tss\<close> (\<open>firmware/acpi\<close>, \<open>arch/x86/apic\<close>, \<open>arch/x64\<close>, \<open>intr/init.c\<close>, \<open>arch/x86/gdt.c\<close>,
      \<open>proc/tss.c\<close>): the tables, what the processor reads from them, and the interrupt controllers.
    \<^item> \<open>Proc\<close> (\<open>proc/proc.c\<close>): process records and the scheduler; locale \<open>round_robin\<close> over the step relation \<open>runs\<close>.
    \<^item> \<open>Console\<close> (\<open>tty/console.c\<close>, \<open>lib/log.c\<close>, \<open>lib/panic.c\<close>): formats; locale \<open>sink\<close>, a receiver of text, interpreted on the
      screen and on the serial line.
    \<^item> \<open>Trap\<close>, \<open>Entry\<close> (\<open>intr/exceptions.c\<close>, \<open>intr/syscall.c\<close>, \<open>intr/trap.c\<close> and the assembly files of \<open>intr\<close>): dispatch, and the way in
      and out of the kernel over the stack that the task state segment names.
    \<^item> \<open>Mutex\<close>, \<open>Keyboard\<close>, \<open>Kmain\<close> (\<open>sync/mutex.c\<close>, \<open>drivers/ps2/keyboard.c\<close>, \<open>ipc/shmem.c\<close>, \<open>kmain.c\<close>): a lock shared by any
      number of processors, the key interrupt, shared memory, the start sequence.
    \<^item> \<open>User\<close> (\<open>usr/lib\<close>, \<open>usr/services\<close>): C library, drawing library, first program, window manager; locale \<open>surface\<close>.
\<close>

text \<open>
  \<^bold>\<open>How the parts are used by each other.\<close>  Every contract is a locale whose laws are proved of the code's model by an interpretation:
  the virtual memory takes its tables from \<open>pmm\<close>, the mappings and the loader use \<open>vmm\<close>, drawing is a list of points painted on \<open>screen\<close>,
  texts go through \<open>screen_text\<close> and \<open>line_text\<close>, the scheduler's liveness is a fact of \<open>rr\<close>, and the drawing library's squares are facts of
  \<open>calls\<close>, whose laws rest in turn on the system call, the trap frame, the driver and the canvas below.

  \<^bold>\<open>What the lemmas show.\<close>  For each component: what every operation does to an abstract view (set of free frames, map from pages to entries,
  list of blocks, directory tree, picture, queue of processes), which bytes it may change, that the component's invariant is kept,
  and that its loops end.  Where the code does not do what it means to, the theorem states what it does: the heap overruns its
  pages, created files replace each other, pages below a fresh table are not accessible to programs, the switch of processes keeps
  the return address of the one interrupted.

  \<^bold>\<open>Failure and termination.\<close>  A result \<open>None\<close> means that control never returns to the caller: an endless loop or a halt.  Loops over a counter that is
  bounded at its own width are total functions; loops that depend on memory (strings, lists of nodes, archives, tables, polling, \<open>uint32_t\<close>
  counters under a 64-bit bound) are partial functions with option results, without fuel, and the theorems that use them prove that
  they return.  Error codes of the source are values.  C integers are words of their width, so additions and
  casts wrap as they do in the code.

  \<^bold>\<open>Not modelled.\<close>  The caches of the memory management unit, the aliasing of a frame under its physical and its
  higher-half address, and the separation of address spaces while the kernel runs: all code sees one memory, and page tables are data in it.  The order of
  pushes around the call in the stub of the timer and the stack frames of compiled C code are left out, as are the texts printed by \<open>elf.c\<close>, \<open>tmpfs.c\<close>, \<open>proc.c\<close> and
  \<open>lapic.c\<close> inside the components below the console.  \<open>sys/src/drivers/ps2/mouse.c\<close> is commented out as a whole; \<open>asmhelpers.c\<close>, \<open>perm.h\<close> and
  \<open>asm.h\<close> hold nothing that is executed; \<open>limine.h\<close> declares the protocol of a third-party loader, and most
  of \<open>elf.h\<close> and \<open>firmware/acpi/def.h\<close> constants and structures that no code uses; the files for aarch64 are not
  part of the build.  Linker and build scripts are not programs of the system.
\<close>

end
